(* ===== verification/PB_Prelude.thy ===== *)
theory PB_Prelude
  imports Main "HOL-Library.Word"
begin

text \<open>
  Prelude of the ProxyBridge development: the integer and byte types the C sources use, the
  list operations their singly linked chains are made of (update the first node that matches,
  unlink the first node that matches, sweep a chain), chained hash tables built from them, C
  strings, and the contract of a time-stamped cache that the DNS-snoop caches and the PID cache
  both implement.
\<close>

unbundle bit_operations_syntax

section \<open>Machine integers and bytes\<close>

type_synonym u8 = "8 word"
type_synonym u16 = "16 word"
type_synonym u32 = "32 word"
type_synonym u64 = "64 word"
type_synonym bytes = "u8 list"
type_synonym ip6 = "u8 list"

named_theorems chain_simps \<open>laws of chains and chained hash tables\<close>
named_theorems byte_simps \<open>octets of words and byte swaps\<close>

text \<open>Octet \<open>i\<close> of a 32-bit value; octet 0 is the first byte in memory on the little-endian
  x64 target, so it is the first octet of a network-order IPv4 address.\<close>

definition octet :: "nat \<Rightarrow> u32 \<Rightarrow> u8" where
  "octet i w = ucast (drop_bit (8 * i) w)"

text \<open>The four bytes of memory that hold a 32-bit value, and the value they hold
  (\<open>memcpy\<close> between a \<open>UINT32\<close> and a byte buffer).\<close>

definition u32_to_bytes :: "u32 \<Rightarrow> bytes" where
  "u32_to_bytes w = [octet 0 w, octet 1 w, octet 2 w, octet 3 w]"

definition bytes_to_u32 :: "bytes \<Rightarrow> u32" where
  "bytes_to_u32 bs =
     ucast (bs ! 0) OR push_bit 8 (ucast (bs ! 1)) OR push_bit 16 (ucast (bs ! 2)) OR
     push_bit 24 (ucast (bs ! 3))"

text \<open>\<open>ntohl\<close> (and \<open>htonl\<close>) on the little-endian target reverses the four bytes.\<close>

definition ntohl :: "u32 \<Rightarrow> u32" where
  "ntohl w = push_bit 24 (w AND 0xFF) OR push_bit 8 (w AND 0xFF00) OR
             drop_bit 8 (w AND 0xFF0000) OR drop_bit 24 (w AND 0xFF000000)"

text \<open>Two bytes in network order as a 16-bit value, and back.\<close>

definition be16 :: "u8 \<Rightarrow> u8 \<Rightarrow> u16" where
  "be16 hi lo = push_bit 8 (ucast hi) OR ucast lo"

definition hi8 :: "u16 \<Rightarrow> u8" where
  "hi8 w = ucast (drop_bit 8 w)"

definition lo8 :: "u16 \<Rightarrow> u8" where
  "lo8 w = ucast w"

section \<open>Options\<close>

text \<open>The first of two optional values.\<close>

fun or_else :: "'a option \<Rightarrow> 'a option \<Rightarrow> 'a option" where
  "or_else (Some x) y = Some x"
| "or_else None y = y"

lemma or_else_assoc: "or_else (or_else x y) z = or_else x (or_else y z)"
  by (cases x) simp_all

section \<open>Chains\<close>

fun update_first :: "('a \<Rightarrow> bool) \<Rightarrow> ('a \<Rightarrow> 'a) \<Rightarrow> 'a list \<Rightarrow> 'a list" where
  "update_first P f [] = []"
| "update_first P f (x # xs) = (if P x then f x # xs else x # update_first P f xs)"

fun remove_first :: "('a \<Rightarrow> bool) \<Rightarrow> 'a list \<Rightarrow> 'a list" where
  "remove_first P [] = []"
| "remove_first P (x # xs) = (if P x then xs else x # remove_first P xs)"

text \<open>A chained hash table: a chain per bucket index.\<close>

type_synonym 'e table = "nat \<Rightarrow> 'e list"

definition empty_table :: "'e table" where
  "empty_table = (\<lambda>_. [])"

text \<open>Walk the chain of the key's bucket; rewrite the node that has the key in place, or push
  a new node at the head when there is one (\<open>None\<close>: the allocation failed).\<close>

definition chain_put ::
  "('k \<Rightarrow> nat) \<Rightarrow> ('e \<Rightarrow> 'k) \<Rightarrow> 'k \<Rightarrow> ('e \<Rightarrow> 'e) \<Rightarrow> 'e option \<Rightarrow> 'e table \<Rightarrow> 'e table" where
  "chain_put h key k f new t =
     (if \<exists>e \<in> set (t (h k)). key e = k
      then t(h k := update_first (\<lambda>e. key e = k) f (t (h k)))
      else case new of None \<Rightarrow> t | Some e \<Rightarrow> t(h k := e # t (h k)))"

text \<open>Unlink and free every node that satisfies \<open>P\<close> in the first \<open>n\<close> buckets.\<close>

definition chain_sweep :: "nat \<Rightarrow> ('e \<Rightarrow> bool) \<Rightarrow> 'e table \<Rightarrow> 'e table" where
  "chain_sweep n P t = (\<lambda>i. if i < n then filter (\<lambda>e. \<not> P e) (t i) else t i)"

text \<open>The shape every chained table keeps: a node sits in its key's bucket, and no bucket holds
  two nodes with one key.\<close>

definition chain_inv :: "('k \<Rightarrow> nat) \<Rightarrow> ('e \<Rightarrow> 'k) \<Rightarrow> 'e table \<Rightarrow> bool" where
  "chain_inv h key t \<longleftrightarrow>
     (\<forall>b. distinct (map key (t b)) \<and> (\<forall>e \<in> set (t b). h (key e) = b))"

section \<open>C strings\<close>

text \<open>A C string is the list of its characters before the terminating NUL. \<open>strncpy_s\<close> with
  \<open>_TRUNCATE\<close> into a buffer of \<open>n\<close> bytes keeps the first \<open>n - 1\<close> characters.\<close>

definition strncpy_trunc :: "nat \<Rightarrow> string \<Rightarrow> string" where
  "strncpy_trunc n s = take (n - 1) s"

text \<open>The string a byte buffer holds when read as \<open>char *\<close>: everything up to the first NUL.\<close>

definition cstr_of_bytes :: "bytes \<Rightarrow> string" where
  "cstr_of_bytes bs = map (\<lambda>b. char_of (unat b)) (takeWhile (\<lambda>b. b \<noteq> 0) bs)"

text \<open>\<open>tolower\<close> in the C locale.\<close>

definition tolower :: "char \<Rightarrow> char" where
  "tolower c = (let n = (of_char c :: nat) in if 65 \<le> n \<and> n \<le> 90 then char_of (n + 32) else c)"

definition stricmp_eq :: "string \<Rightarrow> string \<Rightarrow> bool" where
  "stricmp_eq a b \<longleftrightarrow> map tolower a = map tolower b"

section \<open>Memory faults\<close>

text \<open>C has no bounds checks; the model has. A read or write outside its buffer, the use of a
  null pointer or of freed memory and a second release are values of \<open>fault\<close>, and code that could commit one returns
  \<open>fault + 'a\<close>, so that memory safety is a theorem.\<close>

datatype fault = OutOfBoundsRead | OutOfBoundsWrite | NullDereference | DoubleFree | UseAfterFree

text \<open>Sequencing: a fault ends the computation.\<close>

definition and_then :: "'e + 'a \<Rightarrow> ('a \<Rightarrow> 'e + 'b) \<Rightarrow> 'e + 'b" where
  "and_then r k = (case r of Inl e \<Rightarrow> Inl e | Inr x \<Rightarrow> k x)"

lemma and_then_simps [simp]: "and_then (Inl e) k = Inl e" "and_then (Inr x) k = k x"
  by (simp_all add: and_then_def)

definition read_at :: "'a list \<Rightarrow> nat \<Rightarrow> fault + 'a" where
  "read_at buf i = (if i < length buf then Inr (buf ! i) else Inl OutOfBoundsRead)"

definition read_block :: "'a list \<Rightarrow> nat \<Rightarrow> nat \<Rightarrow> fault + 'a list" where
  "read_block buf i n = (if i + n \<le> length buf then Inr (take n (drop i buf)) else Inl OutOfBoundsRead)"

text \<open>Append \<open>bs\<close> to what a buffer of \<open>cap\<close> cells holds so far.\<close>

definition write_block :: "nat \<Rightarrow> 'a list \<Rightarrow> 'a list \<Rightarrow> fault + 'a list" where
  "write_block cap dst bs =
     (if length dst + length bs \<le> cap then Inr (dst @ bs) else Inl OutOfBoundsWrite)"

section \<open>Laws of buffers and strings\<close>

lemma read_at_inside [simp]: "i < length buf \<Longrightarrow> read_at buf i = Inr (buf ! i)"
  by (simp add: read_at_def)

lemma read_block_inside [simp]: "i + n \<le> length buf \<Longrightarrow> read_block buf i n = Inr (take n (drop i buf))"
  by (simp add: read_block_def)

lemma write_block_inside [simp]: "length dst + length bs \<le> cap \<Longrightarrow> write_block cap dst bs = Inr (dst @ bs)"
  by (simp add: write_block_def)

lemma length_u32_to_bytes: "length (u32_to_bytes w) = 4"
  by (simp add: u32_to_bytes_def)

lemma strncpy_trunc_twice [simp]: "strncpy_trunc n (strncpy_trunc n s) = strncpy_trunc n s"
  by (simp add: strncpy_trunc_def)

lemma cstr_of_terminated:
  "0 \<notin> set bs \<Longrightarrow> cstr_of_bytes (bs @ [0]) = map (\<lambda>b. char_of (unat b)) bs"
proof -
  assume "0 \<notin> set bs"
  then have "takeWhile (\<lambda>b. b \<noteq> 0) (bs @ [0]) = bs" by (subst takeWhile_append2) auto
  then show ?thesis by (simp add: cstr_of_bytes_def)
qed

section \<open>Laws of octets\<close>

lemma bit_u8_high [byte_simps]: "8 \<le> n \<Longrightarrow> \<not> bit (a :: u8) n"
  by (auto dest: bit_imp_le_length)

lemma bit_255 [byte_simps]: "bit (255 :: int) n \<longleftrightarrow> n < 8"
proof -
  have "(255 :: int) = mask 8" by (simp add: mask_eq_exp_minus_1)
  then show ?thesis by (simp only: bit_mask_iff) simp
qed

lemma bytes_to_u32_to_bytes: "bytes_to_u32 (u32_to_bytes w) = w"
proof (rule bit_word_eqI)
  fix n assume "n < LENGTH(32)"
  then consider "n < 8" | "8 \<le> n" "n < 16" | "16 \<le> n" "n < 24" | "24 \<le> n" "n < 32"
    by fastforce
  then show "bit (bytes_to_u32 (u32_to_bytes w)) n = bit w n"
    by cases (auto simp: bytes_to_u32_def u32_to_bytes_def octet_def bit_simps)
qed

lemma u32_to_bytes_of_bytes: "u32_to_bytes (bytes_to_u32 [a, b, c, d]) = [a, b, c, d]"
  by (auto simp: bytes_to_u32_def u32_to_bytes_def octet_def bit_simps byte_simps intro!: bit_word_eqI)

lemma u32_succ_less: "(w :: u32) \<noteq> 0xFFFFFFFF \<Longrightarrow> w < w + 1"
proof -
  assume "w \<noteq> 0xFFFFFFFF"
  moreover have "(0xFFFFFFFF :: u32) = - 1" by simp
  ultimately have "1 + w \<noteq> 0" by (metis add.commute add_eq_0_iff2)
  then show "w < w + 1" using unatSuc [of w] by (simp add: word_less_nat_alt add.commute)
qed

lemma be16_hi_lo: "be16 (hi8 w) (lo8 w) = w"
  by (rule bit_word_eqI) (auto simp: be16_def hi8_def lo8_def bit_simps)

lemma hi8_be16: "hi8 (be16 a b) = a"
  by (rule bit_word_eqI) (auto simp: be16_def hi8_def bit_simps byte_simps)

lemma lo8_be16: "lo8 (be16 a b) = b"
  by (rule bit_word_eqI) (auto simp: be16_def lo8_def bit_simps)

lemma ntohl_first_octet: "drop_bit 24 (ntohl w) = ucast (octet 0 w)"
  by (rule bit_word_eqI) (auto simp: ntohl_def octet_def bit_simps byte_simps)
section \<open>Laws of chains\<close>

lemma length_update_first [simp]: "length (update_first P f xs) = length xs"
  by (induction xs) auto

lemma update_first_id [chain_simps]: "(\<forall>x \<in> set xs. \<not> P x) \<Longrightarrow> update_first P f xs = xs"
  by (induction xs) auto

lemma remove_first_id [chain_simps]: "(\<forall>x \<in> set xs. \<not> P x) \<Longrightarrow> remove_first P xs = xs"
  by (induction xs) auto

lemma set_remove_first_subset: "set (remove_first P xs) \<subseteq> set xs"
  by (induction xs) auto

lemma length_remove_first: "length (remove_first P xs) \<le> length xs"
  by (induction xs) auto

lemma distinct_remove_first [simp]: "distinct xs \<Longrightarrow> distinct (remove_first P xs)"
  by (induction xs) (use set_remove_first_subset in fastforce)+

lemma set_remove_first_distinct:
  "distinct xs \<Longrightarrow> set (remove_first ((=) a) xs) = set xs - {a}"
  by (induction xs) auto

lemma map_update_first [chain_simps]:
  "(\<And>x. P x \<Longrightarrow> g (f x) = g x) \<Longrightarrow> map g (update_first P f xs) = map g xs"
  by (induction xs) auto

lemma set_update_first_cases:
  "y \<in> set (update_first P f xs) \<Longrightarrow> y \<in> set xs \<or> (\<exists>x \<in> set xs. P x \<and> y = f x)"
  by (induction xs) (auto split: if_splits)

lemma map_remove_first_sublist: "distinct (map g xs) \<Longrightarrow> distinct (map g (remove_first P xs))"
  by (induction xs) (use set_remove_first_subset in fastforce)+

lemma find_None_key: "k \<notin> key ` set xs \<Longrightarrow> find (\<lambda>e. key e = k) xs = None"
  by (auto simp: find_None_iff)

lemma find_Some_key: "find (\<lambda>e. key e = k) xs = Some e \<Longrightarrow> e \<in> set xs \<and> key e = k"
  by (auto simp: find_Some_iff)

lemma find_Some_distinct:
  "distinct (map key xs) \<Longrightarrow> e \<in> set xs \<Longrightarrow> find (\<lambda>x. key x = key e) xs = Some e"
proof (induction xs)
  case (Cons a xs)
  then show ?case by (cases "e = a") auto
qed simp

lemma find_remove_first_key [chain_simps]:
  assumes "distinct (map key xs)"
  shows "find (\<lambda>e. key e = k) (remove_first (\<lambda>e. key e = k') xs) =
     (if k = k' then None else find (\<lambda>e. key e = k) xs)"
  using assms by (induction xs) (auto simp: find_None_key)

lemma find_update_first_key [chain_simps]:
  "(\<And>e. key (f e) = key e) \<Longrightarrow>
   find (\<lambda>e. key e = k) (update_first (\<lambda>e. key e = k') f xs) =
     (if k = k' then map_option f (find (\<lambda>e. key e = k) xs) else find (\<lambda>e. key e = k) xs)"
  by (induction xs) auto

lemma find_conj_key:
  assumes "distinct (map key xs)"
  shows "find (\<lambda>e. key e = k \<and> Q e) xs =
     (case find (\<lambda>e. key e = k) xs of None \<Rightarrow> None | Some e \<Rightarrow> if Q e then Some e else None)"
  using assms
proof (induction xs)
  case (Cons a xs)
  then have "key a = k \<Longrightarrow> find (\<lambda>e. key e = k) xs = None" by (auto intro: find_None_key)
  with Cons show ?case by auto
qed simp

lemma find_filter_key [chain_simps]:
  assumes "distinct (map key xs)"
  shows "find (\<lambda>e. key e = k) (filter Q xs) =
     (case find (\<lambda>e. key e = k) xs of None \<Rightarrow> None | Some e \<Rightarrow> if Q e then Some e else None)"
  using assms
proof (induction xs)
  case (Cons a xs)
  then have "key a = k \<Longrightarrow> find (\<lambda>e. key e = k) xs = None" by (auto intro: find_None_key)
  with Cons show ?case by auto
qed simp

section \<open>Laws of chained tables\<close>

lemma chain_invD:
  assumes "chain_inv h key t"
  shows "distinct (map key (t b))" and "e \<in> set (t b) \<Longrightarrow> h (key e) = b"
  using assms by (auto simp: chain_inv_def)

lemma chain_inv_empty [simp]: "chain_inv h key empty_table"
  by (simp add: chain_inv_def empty_table_def)

lemma chain_inv_upd:
  "chain_inv h key t \<Longrightarrow> distinct (map key xs) \<Longrightarrow> (\<And>e. e \<in> set xs \<Longrightarrow> h (key e) = b) \<Longrightarrow>
   chain_inv h key (t(b := xs))"
  by (simp add: chain_inv_def)

lemma chain_inv_put:
  assumes inv: "chain_inv h key t" and f: "\<And>e. key e = k \<Longrightarrow> key (f e) = k"
    and new: "\<And>e. new = Some e \<Longrightarrow> key e = k"
  shows "chain_inv h key (chain_put h key k f new t)"
proof -
  let ?P = "\<lambda>e. key e = k" and ?b = "h k"
  note ch = chain_invD [OF inv]
  have "map key (update_first ?P f (t ?b)) = map key (t ?b)"
    by (rule map_update_first) (simp add: f)
  then have d: "distinct (map key (update_first ?P f (t ?b)))"
    by (simp only: ch(1))
  have "h (key e) = ?b" if "e \<in> set (update_first ?P f (t ?b))" for e
    using set_update_first_cases [OF that] f by (auto dest: ch(2))
  with d have 1: "chain_inv h key (t(?b := update_first ?P f (t ?b)))"
    by (intro chain_inv_upd [OF inv])
  have 2: "chain_inv h key (t(?b := e # t ?b))"
    if "new = Some e" and "\<not> (\<exists>e \<in> set (t ?b). ?P e)" for e
    using that new [of e] by (intro chain_inv_upd [OF inv]) (auto simp: ch(1) dest: ch(2))
  from 1 2 inv show ?thesis
    by (simp add: chain_put_def split: option.split)
qed

lemma chain_inv_sweep: "chain_inv h key t \<Longrightarrow> chain_inv h key (chain_sweep n P t)"
  by (auto simp: chain_inv_def chain_sweep_def distinct_map inj_on_def)

lemma chain_inv_remove:
  "chain_inv h key t \<Longrightarrow> chain_inv h key (t(b := remove_first P (t b)))"
  using set_remove_first_subset
  by (fastforce simp: chain_inv_def intro!: map_remove_first_sublist)

lemma find_chain_put_same:
  assumes "\<And>e. key (f e) = key e" and "\<forall>e. new = Some e \<longrightarrow> key e = k"
  shows "find (\<lambda>e. key e = k) (chain_put h key k f new t (h k)) =
     (case find (\<lambda>e. key e = k) (t (h k)) of None \<Rightarrow> new | Some e \<Rightarrow> Some (f e))"
proof (cases "\<exists>e \<in> set (t (h k)). key e = k")
  case True
  then obtain e where "find (\<lambda>e. key e = k) (t (h k)) = Some e"
    by (metis (mono_tags, lifting) find_None_iff not_None_eq)
  with True assms(1) show ?thesis by (simp add: chain_put_def find_update_first_key)
next
  case False
  then have "find (\<lambda>e. key e = k) (t (h k)) = None" by (auto simp: find_None_iff)
  with False assms(2) show ?thesis by (auto simp: chain_put_def split: option.splits)
qed

lemma find_chain_put_other:
  assumes "\<And>e. key (f e) = key e" and "\<forall>e. new = Some e \<longrightarrow> key e = k" and "k' \<noteq> k"
  shows "find (\<lambda>e. key e = k') (chain_put h key k f new t b) = find (\<lambda>e. key e = k') (t b)"
  using assms by (auto simp: chain_put_def find_update_first_key split: option.splits)

lemma find_chain_sweep:
  assumes "chain_inv h key t"
  shows "find (\<lambda>e. key e = k) (chain_sweep n P t b) =
     (case find (\<lambda>e. key e = k) (t b) of None \<Rightarrow> None
      | Some e \<Rightarrow> if b < n \<and> P e then None else Some e)"
  using chain_invD(1) [OF assms, of b]
  by (auto simp: chain_sweep_def find_filter_key split: option.splits)

section \<open>The contract of a time-stamped cache\<close>

text \<open>
  What the code relies on from a cache whose entries age: a stored value is returned for its key
  while it is live, storing disturbs no other key, pruning at time \<open>t\<close> changes no lookup made
  at \<open>t\<close>, and the table's shape survives every operation. \<open>live t t'\<close> says that a value
  stored at \<open>t\<close> is still served at \<open>t'\<close>; \<open>norm\<close> is what storing does to the value
  (truncation to the entry's buffer); \<open>storable\<close> is the guard of the store.
\<close>

locale timed_cache =
  fixes lookup :: "'s \<Rightarrow> 'k \<Rightarrow> 't \<Rightarrow> 'v option"
    and store :: "'k \<Rightarrow> 'v \<Rightarrow> 't \<Rightarrow> 's \<Rightarrow> 's"
    and prune :: "'t \<Rightarrow> 's \<Rightarrow> 's"
    and inv :: "'s \<Rightarrow> bool"
    and storable :: "'v \<Rightarrow> bool"
    and norm :: "'v \<Rightarrow> 'v"
    and live :: "'t \<Rightarrow> 't \<Rightarrow> bool"
  assumes store_same: "inv s \<Longrightarrow> storable v \<Longrightarrow>
      lookup (store k v t s) k t' = (if live t t' then Some (norm v) else None)"
    and store_other: "inv s \<Longrightarrow> k \<noteq> k' \<Longrightarrow> lookup (store k v t s) k' t' = lookup s k' t'"
    and prune_lookup: "inv s \<Longrightarrow> lookup (prune t s) k t = lookup s k t"
    and inv_store: "inv s \<Longrightarrow> inv (store k v t s)"
    and inv_prune: "inv s \<Longrightarrow> inv (prune t s)"
begin

lemma inv_store_all: "inv s \<Longrightarrow> inv (fold (\<lambda>k. store k v t) ks s)"
  by (induction ks arbitrary: s) (auto simp: inv_store)

lemma store_all_other:
  "inv s \<Longrightarrow> k \<notin> set ks \<Longrightarrow> lookup (fold (\<lambda>k. store k v t) ks s) k t' = lookup s k t'"
  by (induction ks arbitrary: s) (auto simp: inv_store store_other)

lemma store_all_same:
  assumes "inv s" and "storable v" and "k \<in> set ks"
  shows "lookup (fold (\<lambda>k. store k v t) ks s) k t' = (if live t t' then Some (norm v) else None)"
  using assms
proof (induction ks arbitrary: s)
  case (Cons a ks)
  show ?case
  proof (cases "k \<in> set ks")
    case True
    with Cons show ?thesis by (simp add: inv_store)
  next
    case False
    with Cons.prems show ?thesis by (simp add: inv_store store_all_other store_same)
  qed
qed simp

lemma store_prune_same:
  "inv s \<Longrightarrow> storable v \<Longrightarrow> live t t' \<Longrightarrow> lookup (prune t' (store k v t s)) k t' = Some (norm v)"
  by (simp add: inv_store prune_lookup store_same)

lemma store_overwrites:
  "inv s \<Longrightarrow> storable v \<Longrightarrow> live t2 t' \<Longrightarrow>
   lookup (store k v t2 (store k w t1 s)) k t' = Some (norm v)"
  by (simp add: inv_store store_same)

end

end
