(* ===== verification/PB_Internal.thy ===== *)
theory PB_Internal
  imports PB_Prelude
begin

text \<open>
  The shared declarations of the Windows core (\<open>pb_internal.h\<close>, \<open>ProxyBridge.h\<close>): constants,
  enumerations, structures, the globals \<open>ProxyBridge.c\<close> defines (one field of the record
  \<open>pb\<close> each) and the per-source-port decision bitmaps. A linked list of the source is a list;
  a bucket array of lists is a function from the bucket index. The two connection tables share
  their nodes, so those nodes live in a heap (\<open>conn_heap\<close>) and the tables hold addresses.
  Ports are kept in host byte order (each access of the source applies \<open>ntohs\<close>); IPv4
  addresses are kept as the code keeps them, in network order read on a little-endian machine.
\<close>

section \<open>Constants\<close>

abbreviation (input) MAX_PROXY_CONFIGS :: nat where "MAX_PROXY_CONFIGS \<equiv> 16"
abbreviation (input) LOCAL_PROXY_PORT :: u16 where "LOCAL_PROXY_PORT \<equiv> 34010"
abbreviation (input) LOCAL_UDP_RELAY_PORT :: u16 where "LOCAL_UDP_RELAY_PORT \<equiv> 34011"
abbreviation (input) MAX_PROCESS_NAME :: nat where "MAX_PROCESS_NAME \<equiv> 65536"
abbreviation (input) MAX_LIST_SIZE :: nat where "MAX_LIST_SIZE \<equiv> 65536"
abbreviation (input) PID_CACHE_SIZE :: nat where "PID_CACHE_SIZE \<equiv> 1024"
abbreviation (input) PID_CACHE_TTL_MS :: u64 where "PID_CACHE_TTL_MS \<equiv> 30000"
abbreviation (input) OWNER_CACHE_SIZE :: nat where "OWNER_CACHE_SIZE \<equiv> 2048"
abbreviation (input) OWNER_CACHE_TTL_MS :: u64 where "OWNER_CACHE_TTL_MS \<equiv> 120000"
abbreviation (input) OWNER_LOOKUP_TIMEOUT_MS :: u64 where "OWNER_LOOKUP_TIMEOUT_MS \<equiv> 100"
abbreviation (input) CONNECTION_HASH_SIZE :: nat where "CONNECTION_HASH_SIZE \<equiv> 4096"
abbreviation (input) CONNECTION_STALE_TIMEOUT_MS :: u64 where "CONNECTION_STALE_TIMEOUT_MS \<equiv> 1800000"
abbreviation (input) DNS_CACHE_BUCKETS :: nat where "DNS_CACHE_BUCKETS \<equiv> 1024"
abbreviation (input) DNS_CACHE_TTL_MS :: u64 where "DNS_CACHE_TTL_MS \<equiv> 300000"
abbreviation (input) PACKET_BATCH_SIZE :: nat where "PACKET_BATCH_SIZE \<equiv> 16"

section \<open>Enumerations and structures\<close>

datatype ProxyType = PROXY_TYPE_HTTP | PROXY_TYPE_SOCKS5

datatype RuleAction = RULE_ACTION_PROXY | RULE_ACTION_DIRECT | RULE_ACTION_BLOCK

datatype RuleProtocol = RULE_PROTOCOL_TCP | RULE_PROTOCOL_UDP | RULE_PROTOCOL_BOTH

record PROCESS_RULE =
  rule_id :: u32
  r_process_name :: string
  r_target_hosts :: string
  r_target_ports :: string
  r_target_domains :: string
  r_protocol :: RuleProtocol
  r_action :: RuleAction
  r_proxy_config_id :: u32
  r_enabled :: bool

record DNS_CACHE_ENTRY =
  d_ip :: u32
  d_domain :: string
  d_expire_tick :: u64

record DNS_CACHE_ENTRY_V6 =
  d6_ip6 :: ip6
  d6_domain :: string
  d6_expire_tick :: u64

record CONNECTION_INFO =
  c_src_port :: u16
  c_is_udp :: bool
  c_src_ip :: u32
  c_orig_dest_ip :: u32
  c_orig_dest_port :: u16
  c_is_tracked :: bool
  c_fin_flags :: u8
  c_policy_generation :: u32
  c_last_activity :: u64
  c_proxy_config_id :: u32
  c_is_ipv6 :: bool
  c_src_ip6 :: ip6
  c_orig_dest_ip6 :: ip6
  c_rev_bucket :: nat
  c_in_rev :: bool

record LOGGED_CONNECTION =
  l_pid :: u32
  l_dest_ip :: u32
  l_dest_port :: u16
  l_action :: RuleAction

record PID_CACHE_ENTRY =
  pe_src_ip :: u32
  pe_src_port :: u16
  pe_pid :: u32
  pe_timestamp :: u64
  pe_is_udp :: bool

record OWNER_CACHE_ENTRY =
  oe_local_addr :: ip6
  oe_remote_addr :: ip6
  oe_local_port :: u16
  oe_remote_port :: u16
  oe_pid :: u32
  oe_endpoint_id :: u64
  oe_timestamp :: u64
  oe_is_udp :: bool
  oe_source_layer :: u8

text \<open>A socket handle; \<open>None\<close> is \<open>INVALID_SOCKET\<close>.\<close>

type_synonym SOCKET = "nat option"

record PROXY_CONFIG =
  config_id :: u32
  pc_type :: ProxyType
  pc_host :: string
  pc_port :: u16
  pc_send_domain_to_proxy :: bool
  pc_resolved_ip :: u32
  pc_last_udp_attempt :: u64
  pc_udp_tcp_ctrl :: SOCKET
  pc_udp_send_sock :: SOCKET
  pc_udp_relay_addr :: "u32 \<times> u16"
  pc_udp_connected :: bool

record UDP_DIRECT_ENTRY =
  ud_source :: bytes
  ud_destination :: bytes
  ud_source_port :: u16
  ud_destination_port :: u16
  ud_ipv6 :: bool
  ud_generation :: u32
  ud_expires :: u64

text \<open>What the connection callback receives: process, pid, destination, port and verdict.\<close>

record CONNECTION_EVENT =
  ev_process :: string
  ev_pid :: u32
  ev_dest :: "u32 + ip6"
  ev_dest_port :: u16
  ev_action :: RuleAction

section \<open>The operating system\<close>

text \<open>
  Windows calls whose code is not part of the repository, as parameters: whether \<open>malloc\<close> of a
  size succeeds, \<open>inet_pton(AF_INET6)\<close>, the first IPv4 address \<open>getaddrinfo\<close> returns, the
  image path of a process (\<open>OpenProcess\<close>, \<open>QueryFullProcessImageNameW\<close> and the conversion to
  UTF-8; \<open>None\<close> when one of them fails), and whether \<open>DnsFlushResolverCache\<close> can be loaded.
\<close>

record os =
  os_malloc :: "nat \<Rightarrow> bool"
  os_inet_pton6 :: "string \<Rightarrow> ip6 option"
  os_getaddrinfo :: "string \<Rightarrow> u32 option"
  os_process_image :: "u32 \<Rightarrow> string option"
  os_dnsapi :: bool

section \<open>The globals\<close>

type_synonym addr = nat

record pb =
  g_proxy_configs :: "PROXY_CONFIG list"
  g_next_config_id :: u32
  conn_heap :: "addr \<rightharpoonup> CONNECTION_INFO"
  connection_hash_table :: "addr table"
  connection_rev_table :: "addr table"
  logged_connections :: "LOGGED_CONNECTION list"
  g_logged_count :: int
  rules_list :: "PROCESS_RULE list"
  g_next_rule_id :: u32
  pid_cache :: "PID_CACHE_ENTRY table"
  owner_cache :: "OWNER_CACHE_ENTRY table"
  g_has_active_rules :: bool
  g_has_domain_rules :: bool
  running :: bool
  g_current_process_id :: u32
  g_traffic_logging_enabled :: bool
  g_dns_cache :: "DNS_CACHE_ENTRY table"
  g_dns_cache_v6 :: "DNS_CACHE_ENTRY_V6 table"
  port_decided_bitmap :: "nat \<Rightarrow> u32"
  port_direct_bitmap :: "nat \<Rightarrow> u32"
  g_local_relay_port :: u16
  g_localhost_via_proxy :: bool
  g_proxy_udp_dns_enabled :: bool
  g_fail_closed_on_unknown_owner :: bool
  g_loopback_bypass_enabled :: bool
  g_connection_callback :: bool
  g_pidtbl_cap :: u32
  g_udp_generation :: u32
  udp_direct_entries :: "nat \<Rightarrow> UDP_DIRECT_ENTRY"
  dns_flushes :: nat
  connection_events :: "CONNECTION_EVENT list"

text \<open>The static initialisers. The last two fields record what leaves the core: calls of
  \<open>DnsFlushResolverCache\<close> and of the connection callback. A capacity \<open>g_pidtbl_cap\<close> of 0
  means that the scratch buffer is not allocated.\<close>

definition empty_direct_entry :: UDP_DIRECT_ENTRY where
  "empty_direct_entry = \<lparr>ud_source = replicate 16 0, ud_destination = replicate 16 0,
     ud_source_port = 0, ud_destination_port = 0, ud_ipv6 = False, ud_generation = 0,
     ud_expires = 0\<rparr>"

definition pb_init :: pb where
  "pb_init = \<lparr>
     g_proxy_configs = [], g_next_config_id = 1, conn_heap = Map.empty,
     connection_hash_table = empty_table, connection_rev_table = empty_table,
     logged_connections = [], g_logged_count = 0, rules_list = [], g_next_rule_id = 1,
     pid_cache = empty_table, owner_cache = empty_table, g_has_active_rules = False,
     g_has_domain_rules = False, running = False, g_current_process_id = 0,
     g_traffic_logging_enabled = True, g_dns_cache = empty_table, g_dns_cache_v6 = empty_table,
     port_decided_bitmap = (\<lambda>_. 0), port_direct_bitmap = (\<lambda>_. 0),
     g_local_relay_port = LOCAL_PROXY_PORT, g_localhost_via_proxy = False,
     g_proxy_udp_dns_enabled = False, g_fail_closed_on_unknown_owner = False,
     g_loopback_bypass_enabled = False, g_connection_callback = False, g_pidtbl_cap = 0,
     g_udp_generation = 1, udp_direct_entries = (\<lambda>_. empty_direct_entry),
     dns_flushes = 0, connection_events = []\<rparr>"

section \<open>Per-source-port decision bitmaps\<close>

definition port_word :: "u16 \<Rightarrow> nat" where
  "port_word p = unat (drop_bit 5 p)"

definition port_bit :: "u16 \<Rightarrow> u32" where
  "port_bit p = push_bit (unat (p AND 31)) 1"

definition port_is_decided :: "pb \<Rightarrow> u16 \<Rightarrow> bool" where
  "port_is_decided s p \<longleftrightarrow>
     drop_bit (unat (p AND 31)) (port_decided_bitmap s (port_word p)) AND 1 = 1"

definition port_is_direct :: "pb \<Rightarrow> u16 \<Rightarrow> bool" where
  "port_is_direct s p \<longleftrightarrow>
     drop_bit (unat (p AND 31)) (port_direct_bitmap s (port_word p)) AND 1 = 1"

definition port_set_direct :: "u16 \<Rightarrow> pb \<Rightarrow> pb" where
  "port_set_direct p s = s\<lparr>
     port_decided_bitmap := (port_decided_bitmap s)
       (port_word p := port_decided_bitmap s (port_word p) OR port_bit p),
     port_direct_bitmap := (port_direct_bitmap s)
       (port_word p := port_direct_bitmap s (port_word p) OR port_bit p)\<rparr>"

definition port_set_decided :: "u16 \<Rightarrow> pb \<Rightarrow> pb" where
  "port_set_decided p s = s\<lparr>
     port_decided_bitmap := (port_decided_bitmap s)
       (port_word p := port_decided_bitmap s (port_word p) OR port_bit p)\<rparr>"

definition port_clear :: "u16 \<Rightarrow> pb \<Rightarrow> pb" where
  "port_clear p s = s\<lparr>
     port_decided_bitmap := (port_decided_bitmap s)
       (port_word p := port_decided_bitmap s (port_word p) AND NOT (port_bit p)),
     port_direct_bitmap := (port_direct_bitmap s)
       (port_word p := port_direct_bitmap s (port_word p) AND NOT (port_bit p))\<rparr>"

text \<open>The three states the two bitmaps encode together for a port.\<close>

datatype port_decision = Undecided | Decided_Direct | Decided_Other

definition port_state :: "pb \<Rightarrow> u16 \<Rightarrow> port_decision" where
  "port_state s p =
     (if \<not> port_is_decided s p then Undecided
      else if port_is_direct s p then Decided_Direct else Decided_Other)"

text \<open>A direct bit is only ever set together with the decided bit.\<close>

definition ports_inv :: "pb \<Rightarrow> bool" where
  "ports_inv s \<longleftrightarrow> (\<forall>p. port_is_direct s p \<longrightarrow> port_is_decided s p)"

subsection \<open>The bitmaps as a map from ports to decisions\<close>

lemma drop_bit_and_1: "drop_bit n (w :: u32) AND 1 = 1 \<longleftrightarrow> bit w n"
  by (simp add: bit_iff_odd_drop_bit and_one_eq odd_iff_mod_2_eq_one)

lemma port_and_31: "(p :: u16) AND 31 = take_bit 5 p"
  by (simp add: take_bit_eq_mask mask_eq_exp_minus_1)

lemma port_index_lt: "unat ((p :: u16) AND 31) < 32"
proof -
  have "unat (p AND 31) \<le> unat (31 :: u16)"
    by (rule word_and_le1 [THEN word_le_nat_alt [THEN iffD1]])
  then show ?thesis by simp
qed

lemma port_addr_eq_iff:
  "port_word p = port_word q \<and> unat (p AND 31) = unat (q AND 31) \<longleftrightarrow> p = q"
proof
  assume a: "port_word p = port_word q \<and> unat (p AND 31) = unat (q AND 31)"
  then have "drop_bit 5 p = drop_bit 5 q" and "take_bit 5 p = take_bit 5 q"
    by (simp_all add: word_unat_eq_iff port_word_def port_and_31)
  then show "p = q" by (metis bits_ident)
qed simp

lemma bit_port_bit: "n < 32 \<Longrightarrow> bit (port_bit p) n \<longleftrightarrow> n = unat (p AND 31)"
  by (auto simp: port_bit_def bit_exp_iff)

lemma port_is_decided_bit:
  "port_is_decided s p \<longleftrightarrow> bit (port_decided_bitmap s (port_word p)) (unat (p AND 31))"
  by (simp add: port_is_decided_def drop_bit_and_1)

lemma port_is_direct_bit:
  "port_is_direct s p \<longleftrightarrow> bit (port_direct_bitmap s (port_word p)) (unat (p AND 31))"
  by (simp add: port_is_direct_def drop_bit_and_1)

lemma bitmap_or:
  "bit ((b(port_word p := b (port_word p) OR port_bit p)) (port_word q)) (unat (q AND 31)) \<longleftrightarrow>
     p = q \<or> bit (b (port_word q)) (unat (q AND 31))"
  using port_addr_eq_iff [of p q] by (auto simp: bit_or_iff bit_port_bit port_index_lt)

lemma bitmap_andnot:
  "bit ((b(port_word p := b (port_word p) AND NOT (port_bit p))) (port_word q)) (unat (q AND 31)) \<longleftrightarrow>
     p \<noteq> q \<and> bit (b (port_word q)) (unat (q AND 31))"
  using port_addr_eq_iff [of p q]
  by (auto simp: bit_and_iff bit_not_iff bit_port_bit port_index_lt)

lemmas port_bits = port_is_decided_bit port_is_direct_bit

lemma port_set_direct_bits [simp]:
  "port_is_decided (port_set_direct p s) q \<longleftrightarrow> p = q \<or> port_is_decided s q"
  "port_is_direct (port_set_direct p s) q \<longleftrightarrow> p = q \<or> port_is_direct s q"
  by (simp_all add: port_bits port_set_direct_def bitmap_or del: fun_upd_apply)

lemma port_set_decided_bits [simp]:
  "port_is_decided (port_set_decided p s) q \<longleftrightarrow> p = q \<or> port_is_decided s q"
  "port_is_direct (port_set_decided p s) q \<longleftrightarrow> port_is_direct s q"
  by (simp_all add: port_bits port_set_decided_def bitmap_or del: fun_upd_apply)

lemma port_clear_bits [simp]:
  "port_is_decided (port_clear p s) q \<longleftrightarrow> p \<noteq> q \<and> port_is_decided s q"
  "port_is_direct (port_clear p s) q \<longleftrightarrow> p \<noteq> q \<and> port_is_direct s q"
  by (simp_all add: port_bits port_clear_def bitmap_andnot del: fun_upd_apply)

text \<open>The contract of a per-port decision cache; the packet path only uses these laws.\<close>

locale port_cache =
  fixes state_of :: "'s \<Rightarrow> 'p \<Rightarrow> port_decision"
    and set_direct :: "'p \<Rightarrow> 's \<Rightarrow> 's"
    and set_decided :: "'p \<Rightarrow> 's \<Rightarrow> 's"
    and clear :: "'p \<Rightarrow> 's \<Rightarrow> 's"
    and inv :: "'s \<Rightarrow> bool"
  assumes state_set_direct: "inv s \<Longrightarrow> state_of (set_direct p s) q = (if q = p then Decided_Direct else state_of s q)"
    and state_set_decided: "inv s \<Longrightarrow> state_of s p \<noteq> Decided_Direct \<Longrightarrow>
      state_of (set_decided p s) q = (if q = p then Decided_Other else state_of s q)"
    and state_clear: "inv s \<Longrightarrow> state_of (clear p s) q = (if q = p then Undecided else state_of s q)"
    and inv_set_direct: "inv s \<Longrightarrow> inv (set_direct p s)"
    and inv_set_decided: "inv s \<Longrightarrow> inv (set_decided p s)"
    and inv_clear: "inv s \<Longrightarrow> inv (clear p s)"
begin

lemma clear_set_direct: "inv s \<Longrightarrow> state_of (clear p (set_direct p s)) q = state_of (clear p s) q"
  by (simp add: state_clear state_set_direct inv_set_direct)

lemma clear_then_decide:
  "inv s \<Longrightarrow> state_of (set_decided p (clear p s)) q = (if q = p then Decided_Other else state_of s q)"
  by (simp add: state_clear state_set_decided inv_clear)

end

lemma port_state_simps:
  "port_state s p = Undecided \<longleftrightarrow> \<not> port_is_decided s p"
  "port_state s p = Decided_Direct \<longleftrightarrow> port_is_decided s p \<and> port_is_direct s p"
  "port_state s p = Decided_Other \<longleftrightarrow> port_is_decided s p \<and> \<not> port_is_direct s p"
  by (auto simp: port_state_def)

interpretation ports: port_cache port_state port_set_direct port_set_decided port_clear ports_inv
  by unfold_locales (auto simp: port_state_def ports_inv_def)

end
