(* ===== verification/PB_Util.thy ===== *)
theory PB_Util
  imports PB_Internal
begin

text \<open>
  \<open>pb_util.c\<close>: string and address helpers, the token-list walker every rule filter uses, and
  the looping socket reads and writes. What the sources use of the C library (\<open>strchr\<close>,
  \<open>strrchr\<close>, \<open>strtok_s\<close>, \<open>atoi\<close>, the \<open>%d\<close>/\<open>%u\<close> conversions of \<open>sscanf\<close>) is
  modelled first. \<open>sscanf\<close> leaves a value that does not fit the target type undefined; the
  model reduces it to the target's width. \<open>malloc\<close> is a predicate on the requested size.
  Sockets appear as what their calls return: the results of successive \<open>send\<close> calls, the
  segments successive \<open>recv\<close> calls can draw from.
\<close>

section \<open>C library\<close>

fun strchr :: "string \<Rightarrow> char \<Rightarrow> nat option" where
  "strchr [] c = None"
| "strchr (x # xs) c = (if x = c then Some 0 else map_option Suc (strchr xs c))"

fun strrchr :: "string \<Rightarrow> char \<Rightarrow> nat option" where
  "strrchr [] c = None"
| "strrchr (x # xs) c =
     (case strrchr xs c of Some i \<Rightarrow> Some (Suc i) | None \<Rightarrow> if x = c then Some 0 else None)"

definition is_space :: "char \<Rightarrow> bool" where
  "is_space c \<longleftrightarrow> (let n = (of_char c :: nat) in n = 32 \<or> (9 \<le> n \<and> n \<le> 13))"

definition is_digit :: "char \<Rightarrow> bool" where
  "is_digit c \<longleftrightarrow> (let n = (of_char c :: nat) in 48 \<le> n \<and> n \<le> 57)"

definition digit_val :: "char \<Rightarrow> int" where
  "digit_val c = int (of_char c) - 48"

definition digit_char :: "nat \<Rightarrow> char" where
  "digit_char d = char_of (48 + d)"

text \<open>The longest run of digits: its value (accumulated) and what follows.\<close>

fun scan_digits :: "int \<Rightarrow> string \<Rightarrow> int \<times> string" where
  "scan_digits acc [] = (acc, [])"
| "scan_digits acc (c # cs) =
     (if is_digit c then scan_digits (10 * acc + digit_val c) cs else (acc, c # cs))"

text \<open>White space, an optional sign, at least one digit.\<close>

definition scan_int :: "string \<Rightarrow> (int \<times> string) option" where
  "scan_int s =
     (case dropWhile is_space s of
        [] \<Rightarrow> None
      | c # cs \<Rightarrow>
          let neg = (c = CHR ''-'');
              body = (if c = CHR ''-'' \<or> c = CHR ''+'' then cs else c # cs)
          in case body of
               [] \<Rightarrow> None
             | d # _ \<Rightarrow>
                 if is_digit d
                 then (let (v, rest) = scan_digits 0 body in Some (if neg then - v else v, rest))
                 else None)"

definition atoi :: "string \<Rightarrow> int" where
  "atoi s = (case scan_int s of None \<Rightarrow> 0
     | Some (v, _) \<Rightarrow> max (- 2147483648) (min 2147483647 v))"

text \<open>The integers a \<open>sscanf\<close> with \<open>n\<close> conversions separated by dots assigns.\<close>

fun scan_dotted :: "nat \<Rightarrow> string \<Rightarrow> int list" where
  "scan_dotted 0 s = []"
| "scan_dotted (Suc n) s =
     (case scan_int s of
        None \<Rightarrow> []
      | Some (v, rest) \<Rightarrow>
          v # (case rest of [] \<Rightarrow> [] | c # cs \<Rightarrow> if c = CHR ''.'' then scan_dotted n cs else []))"

text \<open>The tokens successive calls of \<open>strtok_s\<close> return: the maximal runs of characters that
  are not delimiters.\<close>

function strtok_all :: "string \<Rightarrow> string \<Rightarrow> string list" where
  "strtok_all delims s =
     (case dropWhile (\<lambda>c. c \<in> set delims) s of
        [] \<Rightarrow> []
      | c # cs \<Rightarrow>
          takeWhile (\<lambda>x. x \<notin> set delims) (c # cs) #
          strtok_all delims (dropWhile (\<lambda>x. x \<notin> set delims) cs))"
  by pat_completeness auto
termination
proof (relation "measure (\<lambda>(d, s). length s)", goal_cases)
  case (2 delims s c cs)
  have "length (dropWhile (\<lambda>x. x \<notin> set delims) cs) \<le> length cs"
    by (rule length_dropWhile_le)
  also have "length cs < length (dropWhile (\<lambda>c. c \<in> set delims) s)"
    by (simp add: 2)
  also have "\<dots> \<le> length s" by (rule length_dropWhile_le)
  finally show ?case by simp
qed simp

declare strtok_all.simps [simp del]

text \<open>Decimal output of \<open>%d\<close> for a value that is not negative.\<close>

fun decimal :: "nat \<Rightarrow> string" where
  "decimal n = (if n < 10 then [digit_char n] else decimal (n div 10) @ [digit_char (n mod 10)])"

declare decimal.simps [simp del]

section \<open>Helpers of \<open>pb_util.c\<close>\<close>

text \<open>Pointer comparison \<open>a > b\<close> where a null pointer compares below every other.\<close>

definition ptr_gt :: "nat option \<Rightarrow> nat option \<Rightarrow> bool" where
  "ptr_gt a b \<longleftrightarrow> (case a of None \<Rightarrow> False | Some i \<Rightarrow> (case b of None \<Rightarrow> True | Some j \<Rightarrow> j < i))"

definition extract_filename :: "string option \<Rightarrow> string" where
  "extract_filename path =
     (case path of
        None \<Rightarrow> ''''
      | Some p \<Rightarrow>
          let last_backslash = strrchr p (CHR 0x5C);
              last_slash = strrchr p (CHR ''/'');
              last_separator = (if ptr_gt last_backslash last_slash then last_backslash else last_slash)
          in case last_separator of None \<Rightarrow> p | Some i \<Rightarrow> drop (Suc i) p)"

definition is_blank :: "char \<Rightarrow> bool" where
  "is_blank c \<longleftrightarrow> c = CHR '' '' \<or> c = CHR 0x09"

definition skip_whitespace :: "string \<Rightarrow> string" where
  "skip_whitespace s = dropWhile is_blank s"

definition format_ip_address :: "u32 \<Rightarrow> nat \<Rightarrow> string" where
  "format_ip_address ip bufsz = strncpy_trunc bufsz
     (decimal (unat (octet 0 ip)) @ ''.'' @ decimal (unat (octet 1 ip)) @ ''.'' @
      decimal (unat (octet 2 ip)) @ ''.'' @ decimal (unat (octet 3 ip)))"

text \<open>Lists of up to 255 characters are copied to the stack, longer ones to the heap (which can
  fail); at most \<open>MAX_LIST_SIZE\<close> characters are looked at.\<close>

definition parse_token_list ::
  "(nat \<Rightarrow> bool) \<Rightarrow> string option \<Rightarrow> string \<Rightarrow> (string \<Rightarrow> bool) \<Rightarrow> bool" where
  "parse_token_list malloc list delimiters match_func =
     (case list of
        None \<Rightarrow> True
      | Some l \<Rightarrow>
          if l = '''' \<or> l = ''*'' then True
          else
            let len = min (length l) MAX_LIST_SIZE + 1 in
            if len \<le> 256 \<or> malloc len
            then list_ex (\<lambda>token. match_func (skip_whitespace token))
                   (strtok_all delimiters (take MAX_LIST_SIZE l))
            else False)"

definition parse_ipv4 :: "string \<Rightarrow> u32" where
  "parse_ipv4 ip =
     (case map word_of_int (scan_dotted 4 ip) of
        [a, b, c, d] \<Rightarrow>
          if 255 < a \<or> 255 < b \<or> 255 < c \<or> 255 < d then 0
          else a OR push_bit 8 b OR push_bit 16 c OR push_bit 24 d
      | _ \<Rightarrow> 0)"

text \<open>\<open>getaddrinfo\<close> for IPv4 is a parameter: the first address it returns, if any.\<close>

definition resolve_hostname :: "(string \<Rightarrow> u32 option) \<Rightarrow> string option \<Rightarrow> u32" where
  "resolve_hostname getaddrinfo hostname =
     (case hostname of
        None \<Rightarrow> 0
      | Some h \<Rightarrow>
          if h = '''' then 0
          else let ip = parse_ipv4 h in
            if ip \<noteq> 0 then ip
            else (case getaddrinfo h of None \<Rightarrow> 0 | Some resolved_ip \<Rightarrow> resolved_ip))"

section \<open>Socket loops\<close>

text \<open>A receiving socket: the segments still to be delivered. \<open>recv\<close> with room for \<open>n\<close> bytes
  returns at most \<open>n\<close> bytes of the first segment and leaves the rest; the end of the list is
  a peer close, a time-out or an error, for which \<open>recv\<close> returns 0 or a negative value.\<close>

type_synonym inbound = "bytes list"

fun recv_call :: "nat \<Rightarrow> inbound \<Rightarrow> bytes \<times> inbound" where
  "recv_call n [] = ([], [])"
| "recv_call n (seg # segs) =
     (if length seg \<le> n then (seg, segs) else (take n seg, drop n seg # segs))"

function recv_n_loop :: "bytes \<Rightarrow> nat \<Rightarrow> inbound \<Rightarrow> bytes option \<times> inbound" where
  "recv_n_loop buf n inb =
     (if length buf < n
      then let (r, inb') = recv_call (n - length buf) inb in
           if r = [] then (None, inb') else recv_n_loop (buf @ r) n inb'
      else (Some buf, inb))"
  by pat_completeness auto
termination
  by (relation "measure (\<lambda>(buf, n, inb). n - length buf)")
    (auto simp flip: length_greater_0_conv)

declare recv_n_loop.simps [simp del]

text \<open>\<open>recv_n\<close>: the bytes read when it returns \<open>n\<close>, \<open>None\<close> when it returns
  \<open>SOCKET_ERROR\<close>.\<close>

definition recv_n :: "nat \<Rightarrow> inbound \<Rightarrow> bytes option \<times> inbound" where
  "recv_n n inb = recv_n_loop [] n inb"

text \<open>A connected stream socket: what the peer will deliver, how many bytes each further \<open>send\<close>
  accepts at most, and everything sent so far. The end of \<open>sk_accept\<close> is a broken connection or a
  send time-out.\<close>

record sock =
  sk_in :: inbound
  sk_accept :: "nat list"
  sk_out :: bytes

definition send_call :: "bytes \<Rightarrow> 'a sock_scheme \<Rightarrow> int \<times> 'a sock_scheme" where
  "send_call buf sk =
     (case sk_accept sk of
        [] \<Rightarrow> (- 1, sk)
      | k # ks \<Rightarrow> let n = min k (length buf) in
          (int n, sk\<lparr>sk_accept := ks, sk_out := sk_out sk @ take n buf\<rparr>))"

function send_all_loop :: "nat \<Rightarrow> bytes \<Rightarrow> 'a sock_scheme \<Rightarrow> int \<times> 'a sock_scheme" where
  "send_all_loop sent buf sk =
     (if sent < length buf
      then let (n, sk') = send_call (drop sent buf) sk in
           if n \<le> 0 then (- 1, sk') else send_all_loop (sent + nat n) buf sk'
      else (int sent, sk))"
  by pat_completeness auto
termination
  by (relation "measure (\<lambda>(sent, buf, sk). length buf - sent)") auto

declare send_all_loop.simps [simp del]

definition send_all :: "bytes \<Rightarrow> 'a sock_scheme \<Rightarrow> int \<times> 'a sock_scheme" where
  "send_all buf sk = send_all_loop 0 buf sk"

text \<open>\<open>recv_n\<close> and a single \<open>recv\<close> on such a socket.\<close>

definition sock_recv_n :: "nat \<Rightarrow> 'a sock_scheme \<Rightarrow> bytes option \<times> 'a sock_scheme" where
  "sock_recv_n n sk = (let (r, inb) = recv_n n (sk_in sk) in (r, sk\<lparr>sk_in := inb\<rparr>))"

definition sock_recv :: "nat \<Rightarrow> 'a sock_scheme \<Rightarrow> bytes \<times> 'a sock_scheme" where
  "sock_recv n sk = (let (r, inb) = recv_call n (sk_in sk) in (r, sk\<lparr>sk_in := inb\<rparr>))"

text \<open>\<open>connect_with_timeout\<close> as a function of what the socket calls report.\<close>

record connect_outcome =
  co_connected :: bool
  co_would_block :: bool
  co_select :: int
  co_in_efds :: bool
  co_so_error :: int

definition connect_with_timeout :: "connect_outcome \<Rightarrow> int" where
  "connect_with_timeout out =
     (if \<not> co_connected out
      then if \<not> co_would_block out then - 1
           else if co_select out \<le> 0 \<or> co_in_efds out then - 1
           else if co_so_error out \<noteq> 0 then - 1 else 0
      else 0)"

text \<open>The options of a socket; a call the system refuses leaves the option as it was, and nobody looks at the result.\<close>

datatype sock_option = TCP_NODELAY | SO_RCVBUF | SO_SNDBUF | SO_RCVTIMEO | SO_SNDTIMEO | SIO_UDP_CONNRESET

definition setsockopt :: "(sock_option \<Rightarrow> bool) \<Rightarrow> sock_option \<Rightarrow> int \<Rightarrow> (sock_option \<rightharpoonup> int) \<Rightarrow> (sock_option \<rightharpoonup> int)" where
  "setsockopt accepted opt v sock = (if accepted opt then sock(opt \<mapsto> v) else sock)"

definition set_buffers :: "(sock_option \<Rightarrow> bool) \<Rightarrow> int \<Rightarrow> int \<Rightarrow> (sock_option \<rightharpoonup> int) \<Rightarrow> (sock_option \<rightharpoonup> int)" where
  "set_buffers accepted bufsize timeout sock =
     setsockopt accepted SO_SNDTIMEO timeout (setsockopt accepted SO_RCVTIMEO timeout
       (setsockopt accepted SO_SNDBUF bufsize (setsockopt accepted SO_RCVBUF bufsize sock)))"

definition configure_tcp_socket :: "(sock_option \<Rightarrow> bool) \<Rightarrow> int \<Rightarrow> int \<Rightarrow> (sock_option \<rightharpoonup> int) \<Rightarrow> (sock_option \<rightharpoonup> int)" where
  "configure_tcp_socket accepted bufsize timeout sock = set_buffers accepted bufsize timeout (setsockopt accepted TCP_NODELAY 1 sock)"

definition configure_udp_socket :: "(sock_option \<Rightarrow> bool) \<Rightarrow> int \<Rightarrow> int \<Rightarrow> (sock_option \<rightharpoonup> int) \<Rightarrow> (sock_option \<rightharpoonup> int)" where
  "configure_udp_socket accepted bufsize timeout sock = setsockopt accepted SIO_UDP_CONNRESET 0 (set_buffers accepted bufsize timeout sock)"

section \<open>Lemmas\<close>

text \<open>A configured socket cannot block a thread for longer than the timeout, in either direction, and an ICMP error does not
  make a UDP socket fail.\<close>

lemma configured_socket:
  assumes "\<And>opt. accepted opt"
  shows "configure_tcp_socket accepted bufsize timeout sock SO_RCVTIMEO = Some timeout"
    and "configure_tcp_socket accepted bufsize timeout sock SO_SNDTIMEO = Some timeout"
    and "configure_udp_socket accepted bufsize timeout sock SO_RCVTIMEO = Some timeout"
    and "configure_udp_socket accepted bufsize timeout sock SIO_UDP_CONNRESET = Some 0"
  using assms by (simp_all add: configure_tcp_socket_def configure_udp_socket_def set_buffers_def setsockopt_def)

definition no_digit :: "string \<Rightarrow> bool" where
  "no_digit rest \<longleftrightarrow> (case rest of [] \<Rightarrow> True | c # _ \<Rightarrow> \<not> is_digit c)"

lemma recv_call_spec:
  assumes "[] \<notin> set inb" and "0 < n" and "recv_call n inb = (r, inb')"
  shows "concat inb = r @ concat inb' \<and> length r \<le> n \<and> [] \<notin> set inb' \<and> (r = [] \<longleftrightarrow> inb = [])"
  using assms by (cases inb) (auto split: if_splits)

lemma recv_n_loop_spec:
  assumes "[] \<notin> set inb" and "length buf \<le> n"
  shows "if n \<le> length buf + length (concat inb)
     then fst (recv_n_loop buf n inb) = Some (buf @ take (n - length buf) (concat inb)) \<and>
          concat (snd (recv_n_loop buf n inb)) = drop (n - length buf) (concat inb) \<and>
          [] \<notin> set (snd (recv_n_loop buf n inb))
     else fst (recv_n_loop buf n inb) = None"
  using assms
proof (induction buf n inb rule: recv_n_loop.induct)
  case (1 buf n inb)
  obtain r inb' where call: "recv_call (n - length buf) inb = (r, inb')" by force
  show ?case
  proof (cases "length buf < n")
    case False
    with "1.prems" show ?thesis by (simp add: recv_n_loop.simps [of buf n inb])
  next
    case True
    then have spec: "concat inb = r @ concat inb'" "length r \<le> n - length buf" "[] \<notin> set inb'"
      "r = [] \<longleftrightarrow> inb = []"
      using recv_call_spec [OF "1.prems"(1) _ call] by simp_all
    show ?thesis
    proof (cases "r = []")
      case True
      with spec(1,4) call \<open>length buf < n\<close> show ?thesis
        by (subst recv_n_loop.simps, auto simp: recv_n_loop.simps [of buf n])
    next
      case False
      have "recv_n_loop buf n inb = recv_n_loop (buf @ r) n inb'"
        using False True call by (simp add: recv_n_loop.simps [of buf n inb])
      with "1.IH" [OF True call [symmetric] refl False spec(3)] spec(1,2) True show ?thesis
        by (auto simp: take_append drop_append)
    qed
  qed
qed

lemma recv_n_enough:
  assumes "[] \<notin> set inb" and "n \<le> length (concat inb)"
  obtains inb' where "recv_n n inb = (Some (take n (concat inb)), inb')"
    and "concat inb' = drop n (concat inb)" and "[] \<notin> set inb'"
  using recv_n_loop_spec [of inb "[]" n] assms
  by (cases "recv_n n inb") (auto simp: recv_n_def)

lemma recv_n_short:
  "[] \<notin> set inb \<Longrightarrow> length (concat inb) < n \<Longrightarrow> fst (recv_n n inb) = None"
  using recv_n_loop_spec [of inb "[]" n] by (auto simp: recv_n_def)

text \<open>\<open>recv_n\<close> returns exactly the next \<open>n\<close> bytes of the stream however the peer's
  bytes are cut into segments, and fails exactly when the stream ends before \<open>n\<close> bytes.\<close>

theorem recv_n_segmentation:
  assumes "[] \<notin> set inb"
  shows "fst (recv_n n inb) =
     (if n \<le> length (concat inb) then Some (take n (concat inb)) else None)"
proof (cases "n \<le> length (concat inb)")
  case True
  with assms obtain inb' where "recv_n n inb = (Some (take n (concat inb)), inb')"
    by (rule recv_n_enough)
  with True show ?thesis by simp
next
  case False
  with assms recv_n_short show ?thesis by simp
qed

theorem recv_n_segmentation_witness:
  "fst (recv_n 4 [[1], [2, 3], [4, 5 :: u8]]) = Some [1, 2, 3, 4]"
  using recv_n_segmentation [of "[[1], [2, 3], [4, 5 :: u8]]" 4] by simp

text \<open>\<open>send_all\<close> either sends the whole buffer, or fails having sent a prefix of it; it never
  reads.\<close>

lemma send_call_spec:
  assumes "send_call buf sk = (n, sk')"
  shows "n \<le> int (length buf) \<and> sk_in sk' = sk_in sk \<and> sk_out sk' = sk_out sk @ take (nat n) buf"
  using assms by (auto simp: send_call_def Let_def min_def split: list.splits if_splits)

lemma send_all_loop_spec:
  assumes "sent \<le> length buf" and "send_all_loop sent buf sk = (r, sk')"
  shows "sk_in sk' = sk_in sk \<and>
     (r = int (length buf) \<and> sk_out sk' = sk_out sk @ drop sent buf \<or>
      r = - 1 \<and> (\<exists>m. sk_out sk' = sk_out sk @ take m (drop sent buf)))"
  using assms
proof (induction sent buf sk rule: send_all_loop.induct)
  case (1 sent buf sk)
  obtain n sk1 where call: "send_call (drop sent buf) sk = (n, sk1)" by force
  note c = send_call_spec [OF call]
  show ?case
  proof (cases "sent < length buf")
    case False
    with "1.prems" show ?thesis by (subst (asm) send_all_loop.simps) simp
  next
    case True
    show ?thesis
    proof (cases "n \<le> 0")
      case True
      with "1.prems" call c \<open>sent < length buf\<close> show ?thesis
        by (subst (asm) send_all_loop.simps) auto
    next
      case False
      then have step: "send_all_loop (sent + nat n) buf sk1 = (r, sk')"
        using "1.prems" call True by (subst (asm) send_all_loop.simps) simp
      have le: "sent + nat n \<le> length buf" using c [THEN conjunct1] True False by simp
      have cut: "sk_out sk1 @ drop (sent + nat n) buf = sk_out sk @ drop sent buf"
        using c append_take_drop_id [of "nat n" "drop sent buf"] by (simp add: add.commute)
      have pre: "sk_out sk1 @ take m (drop (sent + nat n) buf) = sk_out sk @ take (nat n + m) (drop sent buf)" for m
        using c take_add [of "nat n" m "drop sent buf"] by (simp add: add.commute [of "nat n" sent])
      from "1.IH" [OF True call [symmetric] refl False le step] c cut pre show ?thesis by metis
    qed
  qed
qed

lemma send_all_spec:
  assumes "send_all buf sk = (r, sk')"
  shows "sk_in sk' = sk_in sk \<and>
     (r = int (length buf) \<and> sk_out sk' = sk_out sk @ buf \<or>
      r = - 1 \<and> (\<exists>m. sk_out sk' = sk_out sk @ take m buf))"
  using send_all_loop_spec [of 0 buf sk r sk'] assms by (simp add: send_all_def)

lemma of_char_digit: "d < 10 \<Longrightarrow> of_char (digit_char d) = 48 + d"
  by (simp add: digit_char_def)

lemma is_digit_digit_char: "d < 10 \<Longrightarrow> is_digit (digit_char d)"
  by (simp add: is_digit_def of_char_digit)

lemma digit_val_digit_char: "d < 10 \<Longrightarrow> digit_val (digit_char d) = int d"
  by (simp add: digit_val_def of_char_digit)

lemma scan_digits_stop: "no_digit rest \<Longrightarrow> scan_digits acc rest = (acc, rest)"
  by (cases rest) (auto simp: no_digit_def)

lemma scan_digits_append:
  "\<forall>c \<in> set ds. is_digit c \<Longrightarrow>
   scan_digits acc (ds @ rest) = scan_digits (fst (scan_digits acc ds)) rest"
  by (induction ds arbitrary: acc) auto

lemma decimal_digits: "\<forall>c \<in> set (decimal n). is_digit c"
proof (induction n rule: decimal.induct)
  case (1 n)
  then show ?case
    by (subst decimal.simps) (auto simp: is_digit_digit_char)
qed

lemma scan_digits_decimal: "fst (scan_digits 0 (decimal n)) = int n"
proof (induction n rule: decimal.induct)
  case (1 n)
  show ?case
  proof (cases "n < 10")
    case True
    then show ?thesis
      by (subst decimal.simps) (simp add: is_digit_digit_char digit_val_digit_char)
  next
    case False
    with 1 have "fst (scan_digits 0 (decimal (n div 10))) = int (n div 10)" by simp
    with False show ?thesis
      by (subst decimal.simps)
        (simp add: scan_digits_append decimal_digits is_digit_digit_char digit_val_digit_char,
          presburger)
  qed
qed

lemma decimal_head: "\<exists>d ds. decimal n = d # ds \<and> is_digit d"
proof -
  have "decimal n \<noteq> []" by (subst decimal.simps) simp
  with decimal_digits [of n] show ?thesis by (cases "decimal n") auto
qed

lemma digit_not_space: "is_digit c \<Longrightarrow> \<not> is_space c \<and> c \<noteq> CHR ''-'' \<and> c \<noteq> CHR ''+''"
  by (auto simp: is_digit_def is_space_def Let_def)

lemma scan_int_decimal:
  assumes "no_digit rest"
  shows "scan_int (decimal n @ rest) = Some (int n, rest)"
proof -
  obtain d ds where d: "decimal n = d # ds" "is_digit d" using decimal_head by blast
  have sd: "scan_digits 0 (decimal n @ rest) = (int n, rest)"
    using assms by (simp add: scan_digits_append decimal_digits scan_digits_decimal scan_digits_stop)
  have "dropWhile is_space (decimal n @ rest) = decimal n @ rest"
    using d digit_not_space by simp
  with sd d digit_not_space [OF d(2)] show ?thesis
    by (simp add: scan_int_def Let_def)
qed

lemma no_digit_dot: "no_digit (CHR ''.'' # s)" and no_digit_Nil: "no_digit []"
  by (simp_all add: no_digit_def is_digit_def)

lemma scan_dotted_decimal:
  assumes "no_digit rest"
  shows "scan_dotted 4
       (decimal a @ ''.'' @ decimal b @ ''.'' @ decimal c @ ''.'' @ decimal d @ rest) =
     [int a, int b, int c, int d]"
  using assms by (simp add: eval_nat_numeral scan_int_decimal no_digit_dot split: list.split)

lemma length_decimal_octet: "n < 256 \<Longrightarrow> length (decimal n) \<le> 3"
  by (subst decimal.simps, subst decimal.simps, subst decimal.simps) simp

lemma unat_octet_less: "unat (octet i ip) < 256"
  using unsigned_less [of "octet i ip", where 'a = nat] by simp

lemma format_ip_address_full:
  assumes "16 \<le> bufsz"
  shows "format_ip_address ip bufsz =
     decimal (unat (octet 0 ip)) @ ''.'' @ decimal (unat (octet 1 ip)) @ ''.'' @
     decimal (unat (octet 2 ip)) @ ''.'' @ decimal (unat (octet 3 ip))"
proof -
  have "length (decimal (unat (octet i ip))) \<le> 3" for i
    by (rule length_decimal_octet) (rule unat_octet_less)
  from this [of 0] this [of 1] this [of 2] this [of 3] assms show ?thesis
    by (simp add: format_ip_address_def strncpy_trunc_def)
qed

lemma ucast_octet_le: "ucast (octet i ip) \<le> (255 :: u32)"
proof -
  have "unat (ucast (octet i ip) :: u32) = unat (octet i ip)"
    by (simp add: unsigned_ucast_eq take_bit_eq_mod unat_octet_less [THEN order.strict_trans])
  with unat_octet_less [of i ip] show ?thesis by (simp add: word_le_nat_alt)
qed

lemma word_of_int_unat_octet: "(word_of_int (int (unat (octet i ip))) :: u32) = ucast (octet i ip)"
  by (metis of_int_of_nat_eq of_nat_unat ucast_id word_of_int_uint)

lemma parse_ipv4_format_prefix:
  assumes "16 \<le> bufsz" and "no_digit rest"
  shows "parse_ipv4 (format_ip_address ip bufsz @ rest) = ip"
proof -
  have "parse_ipv4 (format_ip_address ip bufsz @ rest) = bytes_to_u32 (u32_to_bytes ip)"
    using ucast_octet_le [of _ ip]
    by (simp add: parse_ipv4_def format_ip_address_full [OF assms(1)]
        scan_dotted_decimal [OF assms(2), simplified] word_of_int_unat_octet bytes_to_u32_def
        u32_to_bytes_def not_less flip: linorder_not_le)
  then show ?thesis by (simp add: bytes_to_u32_to_bytes)
qed

text \<open>Printing an IPv4 address with \<open>format_ip_address\<close> and parsing the text with
  \<open>parse_ipv4\<close> gives the address back, for every address and every buffer that can hold the
  text.\<close>

theorem parse_format_ipv4:
  assumes "16 \<le> bufsz"
  shows "parse_ipv4 (format_ip_address ip bufsz) = ip"
  using parse_ipv4_format_prefix [OF assms no_digit_Nil] by simp

theorem parse_format_ipv4_witness:
  "(16 :: nat) \<le> 32 \<and> parse_ipv4 (format_ip_address 0x0100A8C0 32) = 0x0100A8C0"
  using parse_format_ipv4 [of 32 "0x0100A8C0"] by simp

text \<open>A host name that merely starts with a dotted quad is taken for the address: the text
  after the fourth number is ignored and name resolution is never asked.\<close>

theorem resolve_hostname_dotted_prefix:
  assumes "ip \<noteq> 0" and "no_digit rest"
  shows "resolve_hostname getaddrinfo (Some (format_ip_address ip 32 @ rest)) = ip"
proof -
  have "parse_ipv4 (format_ip_address ip 32 @ rest) = ip"
    using assms(2) by (intro parse_ipv4_format_prefix) simp_all
  moreover have "format_ip_address ip 32 \<noteq> ''''"
    by (simp add: format_ip_address_full)
  ultimately show ?thesis
    using assms(1) by (simp add: resolve_hostname_def)
qed

theorem resolve_hostname_dotted_prefix_witness:
  "resolve_hostname (\<lambda>h. Some 7) (Some (format_ip_address 0x0100000A 32 @ ''.evil.example'')) =
     0x0100000A"
  using resolve_hostname_dotted_prefix [of "0x0100000A" "''.evil.example''" "\<lambda>h. Some 7"]
  by (simp add: no_digit_def is_digit_def)

end
