(* ===== verification/PB_Dns.thy ===== *)
theory PB_Dns
  imports PB_Util
begin

text \<open>
  \<open>pb_dns.c\<close>: the cache that maps addresses back to the host names they were resolved from,
  and the parser of DNS responses that fills it. The parser reads attacker-controlled bytes, so
  every read and write of it is checked against its buffer; the theorems show that it never
  faults, that its loop ends, that the name it returns is the one the message encodes, and that
  a response makes every address it carries resolvable to the question's name.
\<close>

section \<open>The caches\<close>

definition dns_cache_init :: "pb \<Rightarrow> pb" where
  "dns_cache_init s = s\<lparr>g_dns_cache := empty_table, g_dns_cache_v6 := empty_table\<rparr>"

definition dns_bucket :: "u32 \<Rightarrow> nat" where
  "dns_bucket ip = unat (drop_bit (32 - 10) (ip * 2654435761))"

text \<open>\<open>alloc\<close> says whether the \<open>malloc\<close> of a new node succeeds; \<open>now\<close> is what
  \<open>GetTickCount64\<close> returns.\<close>

definition dns_cache_store :: "bool \<Rightarrow> u32 \<Rightarrow> string option \<Rightarrow> u64 \<Rightarrow> pb \<Rightarrow> pb" where
  "dns_cache_store alloc ip domain now s =
     (case domain of
        None \<Rightarrow> s
      | Some d \<Rightarrow>
          if d = '''' then s
          else s\<lparr>g_dns_cache := chain_put dns_bucket d_ip ip
                 (\<lambda>e. e\<lparr>d_domain := strncpy_trunc 256 d, d_expire_tick := now + DNS_CACHE_TTL_MS\<rparr>)
                 (if alloc
                  then Some \<lparr>d_ip = ip, d_domain = strncpy_trunc 256 d,
                             d_expire_tick = now + DNS_CACHE_TTL_MS\<rparr>
                  else None)
                 (g_dns_cache s)\<rparr>)"

definition dns_cache_lookup :: "pb \<Rightarrow> u32 \<Rightarrow> nat \<Rightarrow> u64 \<Rightarrow> string option" where
  "dns_cache_lookup s ip out_size now =
     map_option (\<lambda>e. strncpy_trunc out_size (d_domain e))
       (find (\<lambda>e. d_ip e = ip \<and> now < d_expire_tick e) (g_dns_cache s (dns_bucket ip)))"

definition dns_bucket_v6 :: "ip6 \<Rightarrow> nat" where
  "dns_bucket_v6 ip6 =
     unat (foldl (\<lambda>h b. (h XOR ucast b) * 16777619) (2166136261 :: u32) ip6 AND 1023)"

definition dns_cache_store_v6 :: "bool \<Rightarrow> ip6 \<Rightarrow> string option \<Rightarrow> u64 \<Rightarrow> pb \<Rightarrow> pb" where
  "dns_cache_store_v6 alloc ip6 domain now s =
     (case domain of
        None \<Rightarrow> s
      | Some d \<Rightarrow>
          if d = '''' then s
          else s\<lparr>g_dns_cache_v6 := chain_put dns_bucket_v6 d6_ip6 ip6
                 (\<lambda>e. e\<lparr>d6_domain := strncpy_trunc 256 d, d6_expire_tick := now + DNS_CACHE_TTL_MS\<rparr>)
                 (if alloc
                  then Some \<lparr>d6_ip6 = ip6, d6_domain = strncpy_trunc 256 d,
                             d6_expire_tick = now + DNS_CACHE_TTL_MS\<rparr>
                  else None)
                 (g_dns_cache_v6 s)\<rparr>)"

definition dns_cache_lookup_v6 :: "pb \<Rightarrow> ip6 \<Rightarrow> nat \<Rightarrow> u64 \<Rightarrow> string option" where
  "dns_cache_lookup_v6 s ip6 out_size now =
     map_option (\<lambda>e. strncpy_trunc out_size (d6_domain e))
       (find (\<lambda>e. d6_ip6 e = ip6 \<and> now < d6_expire_tick e) (g_dns_cache_v6 s (dns_bucket_v6 ip6)))"

definition cleanup_stale_dns_cache :: "u64 \<Rightarrow> pb \<Rightarrow> pb" where
  "cleanup_stale_dns_cache now s = s\<lparr>
     g_dns_cache := chain_sweep DNS_CACHE_BUCKETS (\<lambda>e. d_expire_tick e \<le> now) (g_dns_cache s),
     g_dns_cache_v6 := chain_sweep DNS_CACHE_BUCKETS (\<lambda>e. d6_expire_tick e \<le> now) (g_dns_cache_v6 s)\<rparr>"

definition flush_dns_resolver_cache :: "os \<Rightarrow> pb \<Rightarrow> pb" where
  "flush_dns_resolver_cache os s = (if os_dnsapi os then s\<lparr>dns_flushes := Suc (dns_flushes s)\<rparr> else s)"

definition dns_inv :: "pb \<Rightarrow> bool" where
  "dns_inv s \<longleftrightarrow>
     chain_inv dns_bucket d_ip (g_dns_cache s) \<and> chain_inv dns_bucket_v6 d6_ip6 (g_dns_cache_v6 s)"

section \<open>The response parser\<close>

text \<open>
  \<open>dst\<close> holds the bytes written so far (\<open>out\<close> is its length), \<open>jumped_end\<close> is \<open>None\<close>
  until the first compression pointer is followed. The result is a fault, \<open>None\<close> for
  \<open>FALSE\<close>, or the new offset and the name with its terminating NUL.
\<close>

function dns_parse_loop ::
  "bytes \<Rightarrow> nat \<Rightarrow> nat \<Rightarrow> bytes \<Rightarrow> nat \<Rightarrow> nat option \<Rightarrow> fault + (nat \<times> bytes) option" where
  "dns_parse_loop msg dst_len pos dst jumps jumped_end =
     (if length msg \<le> pos then Inr None
      else case read_at msg pos of Inl f \<Rightarrow> Inl f | Inr b \<Rightarrow>
        if b = 0 then
          (case write_block dst_len dst [0] of Inl f \<Rightarrow> Inl f | Inr name \<Rightarrow>
             Inr (Some (case jumped_end of None \<Rightarrow> pos + 1 | Some e \<Rightarrow> e, name)))
        else if b AND 0xC0 = 0xC0 then
          (if length msg \<le> pos + 1 then Inr None
           else case read_at msg (pos + 1) of Inl f \<Rightarrow> Inl f | Inr lo \<Rightarrow>
             if 10 < jumps + 1 then Inr None
             else dns_parse_loop msg dst_len (unat (be16 (b AND 0x3F) lo)) dst (jumps + 1)
                    (Some (case jumped_end of None \<Rightarrow> pos + 2 | Some e \<Rightarrow> e)))
        else
          (if length msg < pos + 1 + unat b then Inr None
           else if dst_len \<le> length dst + unat b + 2 then Inr None
           else case (if dst \<noteq> [] then write_block dst_len dst [46] else Inr dst) of
             Inl f \<Rightarrow> Inl f | Inr dst1 \<Rightarrow>
           (case read_block msg (pos + 1) (unat b) of Inl f \<Rightarrow> Inl f | Inr label \<Rightarrow>
           (case write_block dst_len dst1 label of Inl f \<Rightarrow> Inl f | Inr dst2 \<Rightarrow>
              dns_parse_loop msg dst_len (pos + 1 + unat b) dst2 jumps jumped_end))))"
  by pat_completeness auto
termination
  by (relation "measures [\<lambda>(msg, dst_len, pos, dst, jumps, je). 11 - jumps,
      \<lambda>(msg, dst_len, pos, dst, jumps, je). length msg - pos]") auto

declare dns_parse_loop.simps [simp del]

definition dns_parse_name :: "bytes \<Rightarrow> nat \<Rightarrow> nat \<Rightarrow> fault + (nat \<times> bytes) option" where
  "dns_parse_name msg offset dst_len = dns_parse_loop msg dst_len offset [] 0 None"

text \<open>The 16-bit big-endian field at an offset.\<close>

definition read_be16 :: "bytes \<Rightarrow> nat \<Rightarrow> fault + u16" where
  "read_be16 buf i =
     (case read_at buf i of Inl f \<Rightarrow> Inl f | Inr hi \<Rightarrow>
     (case read_at buf (i + 1) of Inl f \<Rightarrow> Inl f | Inr lo \<Rightarrow> Inr (be16 hi lo)))"

fun skip_questions :: "bytes \<Rightarrow> nat \<Rightarrow> nat \<Rightarrow> fault + nat option" where
  "skip_questions payload 0 offset = Inr (Some offset)"
| "skip_questions payload (Suc n) offset =
     (if offset < length payload
      then (case dns_parse_name payload offset 256 of
              Inl f \<Rightarrow> Inl f
            | Inr None \<Rightarrow> Inr None
            | Inr (Some (offset', _)) \<Rightarrow> skip_questions payload n (offset' + 4))
      else Inr (Some offset))"

text \<open>The answer loop; \<open>alloc i\<close> says whether the allocation for answer \<open>i\<close> succeeds. All stores of
  one response read one tick.\<close>

fun scan_answers ::
  "(nat \<Rightarrow> bool) \<Rightarrow> bytes \<Rightarrow> string \<Rightarrow> u64 \<Rightarrow> nat \<Rightarrow> nat \<Rightarrow> nat \<Rightarrow> pb \<Rightarrow> fault + pb" where
  "scan_answers alloc payload qname now 0 i offset s = Inr s"
| "scan_answers alloc payload qname now (Suc n) i offset s =
     (if length payload \<le> offset then Inr s
      else case dns_parse_name payload offset 256 of
        Inl f \<Rightarrow> Inl f
      | Inr None \<Rightarrow> Inr s
      | Inr (Some (off, _)) \<Rightarrow>
          if length payload < off + 10 then Inr s
          else (case read_be16 payload off of Inl f \<Rightarrow> Inl f | Inr rtype \<Rightarrow>
               (case read_be16 payload (off + 2) of Inl f \<Rightarrow> Inl f | Inr rclass \<Rightarrow>
               (case read_be16 payload (off + 8) of Inl f \<Rightarrow> Inl f | Inr rdlen \<Rightarrow>
                 if length payload < off + 10 + unat rdlen then Inr s
                 else if rtype = 1 \<and> rclass = 1 \<and> rdlen = 4 then
                   (case read_block payload (off + 10) 4 of Inl f \<Rightarrow> Inl f | Inr ip \<Rightarrow>
                      scan_answers alloc payload qname now n (i + 1) (off + 10 + unat rdlen)
                        (dns_cache_store (alloc i) (bytes_to_u32 ip) (Some qname) now s))
                 else if rtype = 28 \<and> rclass = 1 \<and> rdlen = 16 then
                   (case read_block payload (off + 10) 16 of Inl f \<Rightarrow> Inl f | Inr ip6 \<Rightarrow>
                      scan_answers alloc payload qname now n (i + 1) (off + 10 + unat rdlen)
                        (dns_cache_store_v6 (alloc i) ip6 (Some qname) now s))
                 else
                   scan_answers alloc payload qname now n (i + 1) (off + 10 + unat rdlen) s))))"

definition snoop_dns_response :: "(nat \<Rightarrow> bool) \<Rightarrow> bytes \<Rightarrow> u64 \<Rightarrow> pb \<Rightarrow> fault + pb" where
  "snoop_dns_response alloc payload now s =
     (if length payload < 12 then Inr s
      else case read_be16 payload 2 of Inl f \<Rightarrow> Inl f | Inr flags \<Rightarrow>
        if flags AND 0x8000 = 0 then Inr s
        else if flags AND 0x000F \<noteq> 0 then Inr s
        else (case read_be16 payload 4 of Inl f \<Rightarrow> Inl f | Inr qdcount \<Rightarrow>
             (case read_be16 payload 6 of Inl f \<Rightarrow> Inl f | Inr ancount \<Rightarrow>
               if ancount = 0 then Inr s
               else (case dns_parse_name payload 12 256 of
                  Inl f \<Rightarrow> Inl f
                | Inr None \<Rightarrow> Inr s
                | Inr (Some (offset, qname)) \<Rightarrow>
                    (case skip_questions payload (unat qdcount - 1) (offset + 4) of
                       Inl f \<Rightarrow> Inl f
                     | Inr None \<Rightarrow> Inr s
                     | Inr (Some offset') \<Rightarrow>
                         scan_answers alloc payload (cstr_of_bytes qname) now
                           (unat ancount) 0 offset' s)))))"

section \<open>What the parser computes\<close>

lemma read_be16_inside [simp]: "i + 1 < length buf \<Longrightarrow> read_be16 buf i = Inr (be16 (buf ! i) (buf ! (i + 1)))"
  by (simp add: read_be16_def)

definition append_label :: "bytes \<Rightarrow> bytes \<Rightarrow> bytes" where
  "append_label dst label = (if dst \<noteq> [] then dst @ [46] else dst) @ label"

text \<open>The room the loop asks for before it copies each label.\<close>

fun label_room :: "nat \<Rightarrow> bytes \<Rightarrow> bytes list \<Rightarrow> bool" where
  "label_room n dst [] = True"
| "label_room n dst (l # ls) = (length dst + length l + 2 < n \<and> label_room n (append_label dst l) ls)"

text \<open>The loop without the checks, on buffers that have room.\<close>

lemma dns_parse_loop_unchecked:
  assumes "length dst < dst_len"
  shows "dns_parse_loop msg dst_len pos dst jumps je =
     (if length msg \<le> pos then Inr None
      else if msg ! pos = 0 then
        Inr (Some (case je of None \<Rightarrow> pos + 1 | Some e \<Rightarrow> e, dst @ [0]))
      else if msg ! pos AND 0xC0 = 0xC0 then
        (if length msg \<le> pos + 1 \<or> 10 < jumps + 1 then Inr None
         else dns_parse_loop msg dst_len (unat (be16 (msg ! pos AND 0x3F) (msg ! (pos + 1)))) dst (jumps + 1)
                (Some (case je of None \<Rightarrow> pos + 2 | Some e \<Rightarrow> e)))
      else if length msg < pos + 1 + unat (msg ! pos) \<or> dst_len \<le> length dst + unat (msg ! pos) + 2 then Inr None
      else dns_parse_loop msg dst_len (pos + 1 + unat (msg ! pos))
             (append_label dst (take (unat (msg ! pos)) (drop (pos + 1) msg))) jumps je)"
  using assms by (subst dns_parse_loop.simps) (auto simp: append_label_def)

lemma length_append_label: "length (append_label dst l) \<le> length dst + length l + 1"
  by (simp add: append_label_def)


abbreviation name_target :: "bytes \<Rightarrow> nat \<Rightarrow> nat" where
  "name_target msg pos \<equiv> unat (be16 (msg ! pos AND 0x3F) (msg ! (pos + 1)))"

abbreviation name_label :: "bytes \<Rightarrow> nat \<Rightarrow> bytes" where
  "name_label msg pos \<equiv> take (unat (msg ! pos)) (drop (pos + 1) msg)"

lemma dns_parse_induct [consumes 1, case_names step]:
  fixes jumps :: nat
  assumes "length dst < dst_len"
    and step: "\<And>pos dst jumps je. length dst < dst_len \<Longrightarrow>
      (pos + 1 < length msg \<Longrightarrow> msg ! pos \<noteq> 0 \<Longrightarrow> msg ! pos AND 0xC0 = 0xC0 \<Longrightarrow> jumps < 10 \<Longrightarrow>
        P (name_target msg pos) dst (jumps + 1) (Some (case je of None \<Rightarrow> pos + 2 | Some e \<Rightarrow> e))) \<Longrightarrow>
      (msg ! pos \<noteq> 0 \<Longrightarrow> msg ! pos AND 0xC0 \<noteq> 0xC0 \<Longrightarrow> pos + 1 + unat (msg ! pos) \<le> length msg \<Longrightarrow>
        length dst + unat (msg ! pos) + 2 < dst_len \<Longrightarrow>
        P (pos + 1 + unat (msg ! pos)) (append_label dst (name_label msg pos)) jumps je) \<Longrightarrow>
      P pos dst jumps je"
  shows "P pos dst jumps je"
  using assms(1)
proof (induction "(11 - jumps) * Suc (length msg) + (length msg - pos)"
    arbitrary: pos dst jumps je rule: less_induct)
  case less
  show ?case
  proof (rule step [OF less.prems], goal_cases)
    case 1
    then obtain k where "jumps + k = 10" by (metis less_imp_add_positive)
    then have "11 - jumps = Suc k" and "11 - (jumps + 1) = k" by auto
    then show ?case using less.prems by (intro less.hyps) simp_all
  next
    case 2
    then show ?case using length_append_label [of dst "name_label msg pos"]
      by (intro less.hyps) simp_all
  qed
qed

lemma dns_parse_loop_safe:
  assumes "length dst < dst_len"
  shows "case dns_parse_loop msg dst_len pos dst jumps je of
           Inl f \<Rightarrow> False
         | Inr None \<Rightarrow> True
         | Inr (Some (e, name)) \<Rightarrow>
             length name \<le> dst_len \<and> last name = 0 \<and> (case je of None \<Rightarrow> pos < e | Some x \<Rightarrow> e = x)"
  using assms
proof (induction pos dst jumps je rule: dns_parse_induct [where msg = msg])
  case (step pos dst jumps je)
  note u = dns_parse_loop_unchecked [OF step.hyps, of msg pos jumps je]
  consider (stop) "dns_parse_loop msg dst_len pos dst jumps je = Inr None"
    | (root) "dns_parse_loop msg dst_len pos dst jumps je =
        Inr (Some (case je of None \<Rightarrow> pos + 1 | Some e \<Rightarrow> e, dst @ [0]))"
    | (pointer) "pos + 1 < length msg" "msg ! pos \<noteq> 0" "msg ! pos AND 0xC0 = 0xC0" "jumps < 10"
    | (label) "msg ! pos \<noteq> 0" "msg ! pos AND 0xC0 \<noteq> 0xC0" "pos + 1 + unat (msg ! pos) \<le> length msg"
        "length dst + unat (msg ! pos) + 2 < dst_len"
    by (cases "length msg \<le> pos"; cases "msg ! pos = 0"; cases "msg ! pos AND 0xC0 = 0xC0";
      cases "length msg \<le> pos + 1 \<or> 10 < jumps + 1";
      cases "length msg < pos + 1 + unat (msg ! pos) \<or> dst_len \<le> length dst + unat (msg ! pos) + 2")
      (simp_all add: u)
  then show ?case
  proof cases
    case stop
    then show ?thesis by simp
  next
    case root
    then show ?thesis using step.hyps by (simp split: option.split)
  next
    case pointer
    then show ?thesis using step.IH(1) [OF pointer] by (auto simp: u split: sum.splits option.splits prod.splits)
  next
    case label
    then show ?thesis using step.IH(2) [OF label] by (auto simp: u split: sum.splits option.splits prod.splits)
  qed
qed

text \<open>The names a message encodes (RFC 1035, section 4.1.4): the labels read from a position, the number
  of compression pointers followed, and the offset behind the encoding.\<close>

inductive dns_name :: "bytes \<Rightarrow> nat \<Rightarrow> bytes list \<Rightarrow> nat \<Rightarrow> nat \<Rightarrow> bool" for msg where
  root: "pos < length msg \<Longrightarrow> msg ! pos = 0 \<Longrightarrow> dns_name msg pos [] 0 (pos + 1)"
| pointer: "pos + 1 < length msg \<Longrightarrow> msg ! pos AND 0xC0 = 0xC0 \<Longrightarrow>
    dns_name msg (unat (be16 (msg ! pos AND 0x3F) (msg ! (pos + 1)))) labels jumps e \<Longrightarrow>
    dns_name msg pos labels (jumps + 1) (pos + 2)"
| label: "msg ! pos \<noteq> 0 \<Longrightarrow> msg ! pos AND 0xC0 \<noteq> 0xC0 \<Longrightarrow> pos + 1 + unat (msg ! pos) \<le> length msg \<Longrightarrow>
    dns_name msg (pos + 1 + unat (msg ! pos)) labels jumps e \<Longrightarrow>
    dns_name msg pos (take (unat (msg ! pos)) (drop (pos + 1) msg) # labels) jumps e"


lemma length_foldl_append_label: "length dst \<le> length (foldl append_label dst ls)"
proof (induction ls arbitrary: dst)
  case (Cons l ls)
  have "length dst \<le> length (append_label dst l)" by (simp add: append_label_def)
  also have "\<dots> \<le> length (foldl append_label (append_label dst l) ls)" by (rule Cons.IH)
  finally show ?case by simp
qed simp

lemma label_room_fits: "length (foldl append_label dst ls) + 2 < n \<Longrightarrow> label_room n dst ls"
proof (induction ls arbitrary: dst)
  case (Cons l ls)
  have "length dst + length l \<le> length (append_label dst l)" by (simp add: append_label_def)
  also have "\<dots> \<le> length (foldl append_label (append_label dst l) ls)" by (rule length_foldl_append_label)
  finally show ?case using Cons by simp
qed simp

lemma dns_parse_loop_complete:
  assumes "dns_name msg pos ls j e" and "jumps + j \<le> 10" and "label_room dst_len dst ls" and "length dst < dst_len"
  shows "dns_parse_loop msg dst_len pos dst jumps je =
     Inr (Some (case je of None \<Rightarrow> e | Some x \<Rightarrow> x, foldl append_label dst ls @ [0]))"
  using assms
proof (induction arbitrary: jumps dst je rule: dns_name.induct)
  case (root pos)
  then show ?case by (simp add: dns_parse_loop_unchecked)
next
  case (pointer pos ls j e)
  moreover have "msg ! pos \<noteq> 0" using pointer.hyps by auto
  ultimately show ?case
    using pointer.IH [of "jumps + 1" dst "Some (case je of None \<Rightarrow> pos + 2 | Some e \<Rightarrow> e)"]
    by (subst dns_parse_loop_unchecked) (auto split: option.splits)
next
  case (label pos ls j e)
  have "length (name_label msg pos) = unat (msg ! pos)" using label.hyps by simp
  moreover have "length (append_label dst (name_label msg pos)) < dst_len"
    using label.prems length_append_label [of dst "name_label msg pos"] by simp
  ultimately show ?case
    using label.hyps label.prems label.IH [of jumps "append_label dst (name_label msg pos)" je]
    by (subst dns_parse_loop_unchecked) auto
qed

lemma dns_parse_loop_sound:
  assumes "length dst < dst_len" 
  shows "dns_parse_loop msg dst_len pos dst jumps je = Inr (Some (e, name)) \<Longrightarrow> jumps \<le> 10 \<Longrightarrow>
   \<exists>ls j e0. dns_name msg pos ls j e0 \<and> jumps + j \<le> 10 \<and> name = foldl append_label dst ls @ [0] \<and>
     label_room dst_len dst ls \<and> e = (case je of None \<Rightarrow> e0 | Some x \<Rightarrow> x)"
  using assms
proof (induction pos dst jumps je rule: dns_parse_induct [where msg = msg])
  case (step pos dst jumps je)
  note u = dns_parse_loop_unchecked [OF step.hyps, of msg pos jumps je]
  have pos: "pos < length msg" using step.prems(1) unfolding u by (simp split: if_splits)
  consider (root) "msg ! pos = 0" | (pointer) "msg ! pos \<noteq> 0" "msg ! pos AND 0xC0 = 0xC0"
    | (label) "msg ! pos \<noteq> 0" "msg ! pos AND 0xC0 \<noteq> 0xC0" by blast
  then show ?case
  proof cases
    case root
    with step.prems step.hyps pos have "name = dst @ [0]" "e = (case je of None \<Rightarrow> pos + 1 | Some x \<Rightarrow> x)"
      by (auto simp: u)
    with step.prems(2) have "jumps + 0 \<le> 10 \<and> name = foldl append_label dst [] @ [0] \<and>
        label_room dst_len dst [] \<and> e = (case je of None \<Rightarrow> pos + 1 | Some x \<Rightarrow> x)" by simp
    with dns_name.root [OF pos root] show ?thesis by blast
  next
    case pointer
    with step.prems step.hyps pos have 1: "pos + 1 < length msg" "jumps < 10"
      and 2: "dns_parse_loop msg dst_len (name_target msg pos) dst (jumps + 1)
                (Some (case je of None \<Rightarrow> pos + 2 | Some e \<Rightarrow> e)) = Inr (Some (e, name))"
      by (auto simp: u split: if_splits)
    from step.IH(1) [OF 1(1) pointer 1(2) 2] 1(2) obtain ls j e0
      where 3: "dns_name msg (name_target msg pos) ls j e0" "jumps + 1 + j \<le> 10"
        "name = foldl append_label dst ls @ [0]" "label_room dst_len dst ls"
        "e = (case je of None \<Rightarrow> pos + 2 | Some x \<Rightarrow> x)" by auto
    from dns_name.pointer [OF 1(1) pointer(2) 3(1)] 3(2-) show ?thesis
      by (intro exI [of _ ls] exI [of _ "j + 1"] exI [of _ "pos + 2"]) auto
  next
    case label
    with step.prems step.hyps pos have 1: "pos + 1 + unat (msg ! pos) \<le> length msg"
        "length dst + unat (msg ! pos) + 2 < dst_len"
      and 2: "dns_parse_loop msg dst_len (pos + 1 + unat (msg ! pos)) (append_label dst (name_label msg pos)) jumps je
                = Inr (Some (e, name))"
      by (auto simp: u split: if_splits)
    from step.IH(2) [OF label 1 2 step.prems(2)] obtain ls j e0
      where "dns_name msg (pos + 1 + unat (msg ! pos)) ls j e0" "jumps + j \<le> 10"
        "name = foldl append_label (append_label dst (name_label msg pos)) ls @ [0]"
        "label_room dst_len (append_label dst (name_label msg pos)) ls"
        "e = (case je of None \<Rightarrow> e0 | Some x \<Rightarrow> x)" by blast
    with dns_name.label [OF label 1(1)] 1 show ?thesis
      by (intro exI [of _ "name_label msg pos # ls"] exI [of _ j] exI [of _ e0]) auto
  qed
qed

definition dotted_name :: "bytes list \<Rightarrow> bytes" where
  "dotted_name labels = foldl append_label [] labels"

text \<open>Whatever the message and the offset, the parser ends without reading or writing outside its
  buffers, and a name it returns fits the 256-byte buffer, is terminated, and moves the offset
  forward.\<close>

theorem dns_parse_name_safe:
  "case dns_parse_name msg offset 256 of
     Inl f \<Rightarrow> False
   | Inr None \<Rightarrow> True
   | Inr (Some (e, name)) \<Rightarrow> length name \<le> 256 \<and> last name = 0 \<and> offset < e"
  using dns_parse_loop_safe [where dst = "[]" and dst_len = 256 and msg = msg and pos = offset
      and jumps = 0 and je = None]
  by (auto simp: dns_parse_name_def split: sum.splits option.splits prod.splits)

text \<open>C28. The parser returns a name exactly when the message encodes one at the offset with at most ten
  compression pointers and room for every label; the result is that name in dotted form and the
  offset just behind its encoding.\<close>

theorem dns_parse_name_exact:
  "dns_parse_name msg offset 256 = Inr (Some (e, name)) \<longleftrightarrow>
     (\<exists>labels j. dns_name msg offset labels j e \<and> j \<le> 10 \<and> label_room 256 [] labels \<and>
        name = dotted_name labels @ [0])"
  (is "?parse \<longleftrightarrow> ?spec")
proof
  assume ?parse
  then show ?spec
    using dns_parse_loop_sound [of "[]" 256 msg offset 0 None e name]
    by (auto simp: dns_parse_name_def dotted_name_def)
next
  assume ?spec
  then show ?parse
    using dns_parse_loop_complete [where dst = "[]" and dst_len = 256 and je = None and jumps = 0]
    by (auto simp: dns_parse_name_def dotted_name_def)
qed

section \<open>The caches keep their contract\<close>

lemma dns_inv_store: "dns_inv s \<Longrightarrow> dns_inv (dns_cache_store alloc ip d now s)"
  by (auto simp: dns_inv_def dns_cache_store_def split: option.splits intro!: chain_inv_put)

lemma dns_inv_store_v6: "dns_inv s \<Longrightarrow> dns_inv (dns_cache_store_v6 alloc ip d now s)"
  by (auto simp: dns_inv_def dns_cache_store_v6_def split: option.splits intro!: chain_inv_put)

lemma dns_inv_cleanup: "dns_inv s \<Longrightarrow> dns_inv (cleanup_stale_dns_cache now s)"
  by (simp add: dns_inv_def cleanup_stale_dns_cache_def chain_inv_sweep)

lemma dns_inv_init: "dns_inv pb_init" "dns_inv (dns_cache_init s)"
  by (simp_all add: dns_inv_def pb_init_def dns_cache_init_def)

lemma dns_cache_lookup_find:
  assumes "dns_inv s"
  shows "dns_cache_lookup s ip n now =
    (case find (\<lambda>e. d_ip e = ip) (g_dns_cache s (dns_bucket ip)) of None \<Rightarrow> None
     | Some e \<Rightarrow> if now < d_expire_tick e then Some (strncpy_trunc n (d_domain e)) else None)"
  using chain_invD(1) [of dns_bucket d_ip "g_dns_cache s" "dns_bucket ip"] assms
  by (simp add: dns_cache_lookup_def dns_inv_def find_conj_key split: option.split)

lemma dns_cache_lookup_v6_find:
  assumes "dns_inv s"
  shows "dns_cache_lookup_v6 s ip6 n now =
    (case find (\<lambda>e. d6_ip6 e = ip6) (g_dns_cache_v6 s (dns_bucket_v6 ip6)) of None \<Rightarrow> None
     | Some e \<Rightarrow> if now < d6_expire_tick e then Some (strncpy_trunc n (d6_domain e)) else None)"
  using chain_invD(1) [of dns_bucket_v6 d6_ip6 "g_dns_cache_v6 s" "dns_bucket_v6 ip6"] assms
  by (simp add: dns_cache_lookup_v6_def dns_inv_def find_conj_key split: option.split)

lemma find_dns_cache_store:
  assumes "d \<noteq> ''''"
  shows "\<exists>e. find (\<lambda>e. d_ip e = k) (g_dns_cache (dns_cache_store True k (Some d) t s) (dns_bucket k)) = Some e \<and>
     d_domain e = strncpy_trunc 256 d \<and> d_expire_tick e = t + DNS_CACHE_TTL_MS"
proof -
  have "g_dns_cache (dns_cache_store True k (Some d) t s) = chain_put dns_bucket d_ip k
      (\<lambda>e. e\<lparr>d_domain := strncpy_trunc 256 d, d_expire_tick := t + DNS_CACHE_TTL_MS\<rparr>)
      (Some \<lparr>d_ip = k, d_domain = strncpy_trunc 256 d, d_expire_tick = t + DNS_CACHE_TTL_MS\<rparr>) (g_dns_cache s)"
    using assms by (simp add: dns_cache_store_def)
  then show ?thesis
    by (simp only:) (subst find_chain_put_same; auto split: option.split)
qed

interpretation dns4: timed_cache "\<lambda>s ip now. dns_cache_lookup s ip 256 now"
  "\<lambda>ip d now s. dns_cache_store True ip (Some d) now s" cleanup_stale_dns_cache dns_inv
  "\<lambda>d. d \<noteq> ''''" "strncpy_trunc 256" "\<lambda>t t'. t' < t + DNS_CACHE_TTL_MS"
proof
  fix s k v t t' assume s: "dns_inv s" and v: "(v :: string) \<noteq> ''''"
  from v show "dns_cache_lookup (dns_cache_store True k (Some v) t s) k 256 t' =
      (if t' < t + DNS_CACHE_TTL_MS then Some (strncpy_trunc 256 v) else None)"
    using find_dns_cache_store [of v k t s] by (auto simp: dns_cache_lookup_find [OF dns_inv_store [OF s]])
next
  fix s k k' v t t' assume s: "dns_inv s" and k: "(k :: u32) \<noteq> k'"
  from not_sym [OF k] show "dns_cache_lookup (dns_cache_store True k (Some v) t s) k' 256 t' = dns_cache_lookup s k' 256 t'"
    by (simp add: dns_cache_lookup_find [OF dns_inv_store [OF s]] dns_cache_lookup_find [OF s])
      (simp add: dns_cache_store_def find_chain_put_other)
next
  fix s t k assume s: "dns_inv s"
  then show "dns_cache_lookup (cleanup_stale_dns_cache t s) k 256 t = dns_cache_lookup s k 256 t"
    unfolding dns_cache_lookup_find [OF dns_inv_cleanup [OF s]] dns_cache_lookup_find [OF s]
    by (cases "find (\<lambda>e. d_ip e = k) (g_dns_cache s (dns_bucket k))")
      (auto simp: cleanup_stale_dns_cache_def dns_inv_def find_chain_sweep)
qed (simp_all add: dns_inv_store dns_inv_cleanup)

lemma find_dns_cache_store_v6:
  assumes "d \<noteq> ''''"
  shows "\<exists>e. find (\<lambda>e. d6_ip6 e = k) (g_dns_cache_v6 (dns_cache_store_v6 True k (Some d) t s) (dns_bucket_v6 k)) = Some e \<and>
     d6_domain e = strncpy_trunc 256 d \<and> d6_expire_tick e = t + DNS_CACHE_TTL_MS"
proof -
  have "g_dns_cache_v6 (dns_cache_store_v6 True k (Some d) t s) = chain_put dns_bucket_v6 d6_ip6 k
      (\<lambda>e. e\<lparr>d6_domain := strncpy_trunc 256 d, d6_expire_tick := t + DNS_CACHE_TTL_MS\<rparr>)
      (Some \<lparr>d6_ip6 = k, d6_domain = strncpy_trunc 256 d, d6_expire_tick = t + DNS_CACHE_TTL_MS\<rparr>) (g_dns_cache_v6 s)"
    using assms by (simp add: dns_cache_store_v6_def)
  then show ?thesis
    by (simp only:) (subst find_chain_put_same; auto split: option.split)
qed

interpretation dns6: timed_cache "\<lambda>s ip now. dns_cache_lookup_v6 s ip 256 now"
  "\<lambda>ip d now s. dns_cache_store_v6 True ip (Some d) now s" cleanup_stale_dns_cache dns_inv
  "\<lambda>d. d \<noteq> ''''" "strncpy_trunc 256" "\<lambda>t t'. t' < t + DNS_CACHE_TTL_MS"
proof
  fix s k v t t' assume s: "dns_inv s" and v: "(v :: string) \<noteq> ''''"
  from v show "dns_cache_lookup_v6 (dns_cache_store_v6 True k (Some v) t s) k 256 t' =
      (if t' < t + DNS_CACHE_TTL_MS then Some (strncpy_trunc 256 v) else None)"
    using find_dns_cache_store_v6 [of v k t s] by (auto simp: dns_cache_lookup_v6_find [OF dns_inv_store_v6 [OF s]])
next
  fix s k k' v t t' assume s: "dns_inv s" and k: "(k :: ip6) \<noteq> k'"
  from not_sym [OF k] show "dns_cache_lookup_v6 (dns_cache_store_v6 True k (Some v) t s) k' 256 t' = dns_cache_lookup_v6 s k' 256 t'"
    by (simp add: dns_cache_lookup_v6_find [OF dns_inv_store_v6 [OF s]] dns_cache_lookup_v6_find [OF s])
      (simp add: dns_cache_store_v6_def find_chain_put_other)
next
  fix s t k assume s: "dns_inv s"
  then show "dns_cache_lookup_v6 (cleanup_stale_dns_cache t s) k 256 t = dns_cache_lookup_v6 s k 256 t"
    unfolding dns_cache_lookup_v6_find [OF dns_inv_cleanup [OF s]] dns_cache_lookup_v6_find [OF s]
    by (cases "find (\<lambda>e. d6_ip6 e = k) (g_dns_cache_v6 s (dns_bucket_v6 k))")
      (auto simp: cleanup_stale_dns_cache_def dns_inv_def find_chain_sweep)
qed (simp_all add: dns_inv_store_v6 dns_inv_cleanup)

lemma dns_parse_name_cases:
  obtains "dns_parse_name msg off 256 = Inr None"
  | e name where "dns_parse_name msg off 256 = Inr (Some (e, name))" "off < e" "length name \<le> 256" "last name = 0"
  using dns_parse_loop_safe [where dst = "[]" and dst_len = 256 and msg = msg and pos = off and jumps = 0 and je = None]
  by (auto simp: dns_parse_name_def split: sum.splits option.splits prod.splits)

lemma skip_questions_safe: "\<exists>r. skip_questions payload n offset = Inr r"
proof (induction n arbitrary: offset)
  case (Suc n)
  then show ?case by (cases rule: dns_parse_name_cases [where msg = payload and off = offset]) auto
qed simp

lemma scan_answers_safe:
  "dns_inv s \<Longrightarrow> \<exists>s'. scan_answers alloc payload q now n i offset s = Inr s' \<and> dns_inv s'"
proof (induction n arbitrary: i offset s)
  case (Suc n)
  show ?case
  proof (cases rule: dns_parse_name_cases [where msg = payload and off = offset])
    case 1
    with Suc.prems show ?thesis by simp
  next
    case (2 e name)
    with Suc show ?thesis by (auto simp: dns_inv_store dns_inv_store_v6)
  qed
qed simp

lemma snoop_dns_response_ok:
  assumes "dns_inv s"
  shows "\<exists>s'. snoop_dns_response alloc payload now s = Inr s' \<and> dns_inv s'"
proof (cases "12 \<le> length payload")
  case False
  with assms show ?thesis by (simp add: snoop_dns_response_def)
next
  case True
  show ?thesis
  proof (cases rule: dns_parse_name_cases [where msg = payload and off = 12])
    case 1
    with True assms show ?thesis by (simp add: snoop_dns_response_def)
  next
    case (2 e name)
    obtain r where "skip_questions payload (unat (be16 (payload ! 4) (payload ! 5)) - 1) (e + 4) = Inr r" using skip_questions_safe by blast
    with 2 True assms show ?thesis
      by (cases r) (auto simp: snoop_dns_response_def scan_answers_safe)
  qed
qed

text \<open>No response, however malformed, makes the snooper fault; the caches keep their shape.\<close>

theorem snoop_dns_response_safe:
  assumes "dns_inv s"
  shows "\<exists>s'. snoop_dns_response alloc payload now s = Inr s' \<and> dns_inv s'"
  using assms by (rule snoop_dns_response_ok)

theorem snoop_dns_response_safe_witness:
  "\<exists>s'. snoop_dns_response (\<lambda>_. True) [0, 0, 0x80, 0, 0, 1, 0, 1, 0, 0, 0, 0, 0xC0, 12] 5 pb_init = Inr s' \<and> dns_inv s'"
  by (rule snoop_dns_response_safe) (rule dns_inv_init)

section \<open>Responses as servers send them\<close>

definition valid_label :: "bytes \<Rightarrow> bool" where
  "valid_label l \<longleftrightarrow> l \<noteq> [] \<and> length l < 64 \<and> 0 \<notin> set l"

definition encode_name :: "bytes list \<Rightarrow> bytes" where
  "encode_name labels = concat (map (\<lambda>l. of_nat (length l) # l) labels) @ [0]"

datatype dns_rr = RR_A u32 | RR_AAAA ip6 | RR_other u16 bytes

fun rr_type :: "dns_rr \<Rightarrow> u16" where
  "rr_type (RR_A _) = 1" | "rr_type (RR_AAAA _) = 28" | "rr_type (RR_other t _) = t"

fun rr_data :: "dns_rr \<Rightarrow> bytes" where
  "rr_data (RR_A ip) = u32_to_bytes ip" | "rr_data (RR_AAAA ip6) = ip6" | "rr_data (RR_other _ d) = d"

definition valid_rr :: "dns_rr \<Rightarrow> bool" where
  "valid_rr rr \<longleftrightarrow> (case rr of RR_A _ \<Rightarrow> True | RR_AAAA ip6 \<Rightarrow> length ip6 = 16
     | RR_other t d \<Rightarrow> t \<noteq> 1 \<and> t \<noteq> 28 \<and> length d < 65536)"

text \<open>An answer whose owner name is a compression pointer to the question name at offset 12.\<close>

definition encode_rr :: "u32 \<Rightarrow> dns_rr \<Rightarrow> bytes" where
  "encode_rr ttl rr = [0xC0, 12] @ [hi8 (rr_type rr), lo8 (rr_type rr), 0, 1] @ u32_to_bytes ttl @
     [hi8 (of_nat (length (rr_data rr))), lo8 (of_nat (length (rr_data rr)))] @ rr_data rr"

definition encode_response :: "u8 \<Rightarrow> u8 \<Rightarrow> u32 \<Rightarrow> bytes list \<Rightarrow> dns_rr list \<Rightarrow> bytes" where
  "encode_response id0 id1 ttl labels rrs =
     [id0, id1, 0x81, 0x80, 0, 1, hi8 (of_nat (length rrs)), lo8 (of_nat (length rrs)), 0, 0, 0, 0] @
     encode_name labels @ [0, 1, 0, 1] @ concat (map (encode_rr ttl) rrs)"

definition store_rr :: "string \<Rightarrow> u64 \<Rightarrow> dns_rr \<Rightarrow> pb \<Rightarrow> pb" where
  "store_rr q now rr s = (case rr of RR_A ip \<Rightarrow> dns_cache_store True ip (Some q) now s
     | RR_AAAA ip6 \<Rightarrow> dns_cache_store_v6 True ip6 (Some q) now s | RR_other _ _ \<Rightarrow> s)"

lemma label_byte:
  assumes "valid_label l"
  shows "unat (of_nat (length l) :: u8) = length l" "(of_nat (length l) :: u8) \<noteq> 0"
    "(of_nat (length l) :: u8) AND 0xC0 \<noteq> 0xC0"
proof -
  have n: "0 < length l" "length l < 64" using assms by (auto simp: valid_label_def)
  then show u: "unat (of_nat (length l) :: u8) = length l" by (simp add: unat_of_nat)
  then show "(of_nat (length l) :: u8) \<noteq> 0" using n by (metis unat_0 less_irrefl)
  show "(of_nat (length l) :: u8) AND 0xC0 \<noteq> 0xC0"
  proof
    assume "(of_nat (length l) :: u8) AND 0xC0 = 0xC0"
    then have "0xC0 \<le> (of_nat (length l) :: u8)" by (metis word_and_le2)
    then show False using u n by (simp add: word_le_nat_alt)
  qed
qed

lemma dns_name_encoded:
  assumes "list_all valid_label labels"
  shows "dns_name (pre @ encode_name labels @ post) (length pre) labels 0 (length pre + length (encode_name labels))"
  using assms
proof (induction labels arbitrary: pre)
  case Nil
  then show ?case using dns_name.root [of "length pre" "pre @ 0 # post"] by (simp add: encode_name_def nth_append)
next
  case (Cons l labels)
  let ?b = "of_nat (length l) :: u8"
  let ?msg = "pre @ encode_name (l # labels) @ post"
  have l: "valid_label l" using Cons.prems by simp
  have m: "?msg = (pre @ ?b # l) @ encode_name labels @ post" by (simp add: encode_name_def)
  have b: "?msg ! length pre = ?b" by (simp add: m)
  have IH: "dns_name ?msg (length pre + 1 + unat (?msg ! length pre)) labels 0
      (length pre + length (encode_name (l # labels)))"
    using Cons.IH [of "pre @ ?b # l"] Cons.prems by (simp add: b label_byte [OF l] m) (simp add: encode_name_def ac_simps)
  have t: "take (unat (?msg ! length pre)) (drop (length pre + 1) ?msg) = l"
    by (simp add: b label_byte [OF l]) (simp add: encode_name_def)
  have "length pre + 1 + unat (?msg ! length pre) \<le> length ?msg"
    by (simp only: b label_byte [OF l]) (simp add: m)
  from dns_name.label [OF _ _ this IH] show ?case
    by (simp only: t) (simp add: b label_byte [OF l])
qed

lemma dns_name_pointer:
  assumes "dns_name msg 12 labels 0 e" and "pos + 1 < length msg" and "msg ! pos = 0xC0" and "msg ! (pos + 1) = 12"
  shows "dns_name msg pos labels 1 (pos + 2)"
proof -
  have "unat (be16 (msg ! pos AND 0x3F) (msg ! (pos + 1))) = 12"
    unfolding assms by (simp add: be16_def)
  then show ?thesis using dns_name.pointer [of pos msg labels 0 e] assms by simp
qed

lemma dns_parse_name_complete:
  assumes "dns_name msg pos labels j e" and "j \<le> 10" and "length (dotted_name labels) + 2 < n"
  shows "dns_parse_name msg pos n = Inr (Some (e, dotted_name labels @ [0]))"
  using dns_parse_loop_complete [of msg pos labels j e 0 n "[]" None] assms
  by (simp add: dns_parse_name_def dotted_name_def label_room_fits)

lemma scan_answers_rr:
  assumes "p < length msg" and "dns_parse_name msg p 256 = Inr (Some (off, name))"
    and "read_be16 msg off = Inr (rr_type rr)" and "read_be16 msg (off + 2) = Inr 1"
    and "read_be16 msg (off + 8) = Inr (of_nat (length (rr_data rr)))"
    and "off + 10 + length (rr_data rr) \<le> length msg"
    and "take (length (rr_data rr)) (drop (off + 10) msg) = rr_data rr"
    and "valid_rr rr" and "length (rr_data rr) < 65536"
  shows "scan_answers (\<lambda>_. True) msg q now (Suc n) i p s =
     scan_answers (\<lambda>_. True) msg q now n (i + 1) (off + 10 + length (rr_data rr)) (store_rr q now rr s)"
proof -
  have rd: "unat (of_nat (length (rr_data rr)) :: u16) = length (rr_data rr)"
    using assms(9) by (simp add: unat_of_nat)
  have "read_block msg (off + 10) (length (rr_data rr)) = Inr (rr_data rr)"
    using assms(6,7) by (simp add: read_block_def)
  with assms rd show ?thesis
    by (cases rr) (simp_all add: store_rr_def valid_rr_def length_u32_to_bytes bytes_to_u32_to_bytes)
qed

lemma scan_answers_encoded:
  assumes "list_all valid_rr rrs" and "dns_name (pre @ concat (map (encode_rr ttl) rrs)) 12 labels 0 e"
    and "length (dotted_name labels) + 2 < 256"
  shows "scan_answers (\<lambda>_. True) (pre @ concat (map (encode_rr ttl) rrs)) q now (length rrs) i (length pre) s =
     Inr (fold (store_rr q now) rrs s)"
  using assms
proof (induction rrs arbitrary: pre i s)
  case (Cons rr rrs)
  let ?msg = "pre @ concat (map (encode_rr ttl) (rr # rrs))" and ?p = "length pre"
  let ?d = "rr_data rr"
  have m: "?msg = (pre @ encode_rr ttl rr) @ concat (map (encode_rr ttl) rrs)" by simp
  have len: "length (encode_rr ttl rr) = 12 + length ?d"
    by (simp add: encode_rr_def u32_to_bytes_def)
  have nth: "?msg ! (?p + i) = encode_rr ttl rr ! i" if "i < 12" for i
    using that len by (simp add: nth_append)
  have lt: "length ?d < 65536" using Cons.prems(1)
    by (cases rr) (auto simp: valid_rr_def u32_to_bytes_def)
  have rd: "unat (of_nat (length ?d) :: u16) = length ?d" using lt by (simp add: unat_of_nat)
  have parse: "dns_parse_name ?msg ?p 256 = Inr (Some (?p + 2, dotted_name labels @ [0]))"
  proof (rule dns_parse_name_complete [OF dns_name_pointer [OF Cons.prems(2)]])
    show "?msg ! ?p = 0xC0" "?msg ! (?p + 1) = 12"
      using nth [of 0] nth [of 1] by (simp_all add: encode_rr_def)
  qed (use len Cons.prems(3) in simp_all)
  have r: "read_be16 ?msg (?p + k) = Inr (be16 (encode_rr ttl rr ! k) (encode_rr ttl rr ! (k + 1)))"
    if "k + 1 < 12" for k
    using that len nth [of k] nth [of "k + 1"] by (simp add: read_be16_def add.assoc)
  have e: "be16 (encode_rr ttl rr ! 2) (encode_rr ttl rr ! (2 + 1)) = rr_type rr"
    "be16 (encode_rr ttl rr ! 4) (encode_rr ttl rr ! (4 + 1)) = 1"
    "be16 (encode_rr ttl rr ! 10) (encode_rr ttl rr ! (10 + 1)) = of_nat (length ?d)"
    by (simp_all add: encode_rr_def u32_to_bytes_def be16_hi_lo) (simp add: be16_def)
  have "?p + 2 + 2 = ?p + 4" "?p + 2 + 8 = ?p + 10" by simp_all
  then have f: "read_be16 ?msg (?p + 2) = Inr (rr_type rr)" "read_be16 ?msg (?p + 2 + 2) = Inr 1"
    "read_be16 ?msg (?p + 2 + 8) = Inr (of_nat (length ?d))"
    using r [of 2] r [of 4] r [of 10] by (simp_all only: e)
  have data: "take (length ?d) (drop (?p + 2 + 10) ?msg) = ?d"
    by (simp add: encode_rr_def u32_to_bytes_def)
  have IH: "scan_answers (\<lambda>_. True) ?msg q now (length rrs) (i + 1) (?p + 2 + 10 + length ?d) s' =
      Inr (fold (store_rr q now) rrs s')" for s'
    using Cons.IH [of "pre @ encode_rr ttl rr" "i + 1" s'] Cons.prems len by (simp add: ac_simps)
  have "scan_answers (\<lambda>_. True) ?msg q now (Suc (length rrs)) i ?p s =
      scan_answers (\<lambda>_. True) ?msg q now (length rrs) (i + 1) (?p + 2 + 10 + length ?d) (store_rr q now rr s)"
    using Cons.prems(1) len lt by (intro scan_answers_rr [OF _ parse f _ data]) auto
  then show ?case using IH by (simp only: list.size fold_simps o_apply) simp
qed simp


lemma dns_cache_lookup_store_v6:
  "dns_cache_lookup (dns_cache_store_v6 alloc ip6 d now s) ip n t = dns_cache_lookup s ip n t"
  by (simp add: dns_cache_lookup_def dns_cache_store_v6_def split: option.split)

lemma dns_cache_lookup_v6_store:
  "dns_cache_lookup_v6 (dns_cache_store alloc ip d now s) ip6 n t = dns_cache_lookup_v6 s ip6 n t"
  by (simp add: dns_cache_lookup_v6_def dns_cache_store_def split: option.split)

lemma store_rr_lookup:
  assumes "dns_inv s" and "q \<noteq> ''''" and "t' < t + DNS_CACHE_TTL_MS"
  shows "dns_inv (store_rr q t rr s)"
    and "dns_cache_lookup (store_rr q t rr s) ip 256 t' =
      (if rr = RR_A ip then Some (strncpy_trunc 256 q) else dns_cache_lookup s ip 256 t')"
    and "dns_cache_lookup_v6 (store_rr q t rr s) ip6 256 t' =
      (if rr = RR_AAAA ip6 then Some (strncpy_trunc 256 q) else dns_cache_lookup_v6 s ip6 256 t')"
proof -
  show "dns_inv (store_rr q t rr s)"
    using assms(1) by (simp add: store_rr_def dns_inv_store dns_inv_store_v6 split: dns_rr.split)
  show "dns_cache_lookup (store_rr q t rr s) ip 256 t' =
      (if rr = RR_A ip then Some (strncpy_trunc 256 q) else dns_cache_lookup s ip 256 t')"
    using dns4.store_same [OF assms(1,2), of ip t t'] dns4.store_other [OF assms(1), of _ ip q t t'] assms(3)
    by (cases rr) (auto simp: store_rr_def dns_cache_lookup_store_v6)
  show "dns_cache_lookup_v6 (store_rr q t rr s) ip6 256 t' =
      (if rr = RR_AAAA ip6 then Some (strncpy_trunc 256 q) else dns_cache_lookup_v6 s ip6 256 t')"
    using dns6.store_same [OF assms(1,2), of ip6 t t'] dns6.store_other [OF assms(1), of _ ip6 q t t'] assms(3)
    by (cases rr) (auto simp: store_rr_def dns_cache_lookup_v6_store)
qed

lemma store_rrs_lookup:
  assumes "dns_inv s" and "q \<noteq> ''''" and "t' < t + DNS_CACHE_TTL_MS"
  shows "dns_inv (fold (store_rr q t) rrs s)"
    and "dns_cache_lookup (fold (store_rr q t) rrs s) ip 256 t' =
      (if RR_A ip \<in> set rrs then Some (strncpy_trunc 256 q) else dns_cache_lookup s ip 256 t')"
    and "dns_cache_lookup_v6 (fold (store_rr q t) rrs s) ip6 256 t' =
      (if RR_AAAA ip6 \<in> set rrs then Some (strncpy_trunc 256 q) else dns_cache_lookup_v6 s ip6 256 t')"
proof -
  have *: "dns_inv (fold (store_rr q t) rrs s)" for rrs
    by (induction rrs rule: rev_induct) (simp_all add: assms(1) store_rr_lookup(1) [OF _ assms(2,3)])
  then show "dns_inv (fold (store_rr q t) rrs s)" .
  show "dns_cache_lookup (fold (store_rr q t) rrs s) ip 256 t' =
      (if RR_A ip \<in> set rrs then Some (strncpy_trunc 256 q) else dns_cache_lookup s ip 256 t')"
    by (induction rrs rule: rev_induct) (auto simp: store_rr_lookup(2) [OF * assms(2,3)])
  show "dns_cache_lookup_v6 (fold (store_rr q t) rrs s) ip6 256 t' =
      (if RR_AAAA ip6 \<in> set rrs then Some (strncpy_trunc 256 q) else dns_cache_lookup_v6 s ip6 256 t')"
    by (induction rrs rule: rev_induct) (auto simp: store_rr_lookup(3) [OF * assms(2,3)])
qed

lemma append_label_nonzero: "0 \<notin> set dst \<Longrightarrow> 0 \<notin> set l \<Longrightarrow> 0 \<notin> set (append_label dst l)"
  by (simp add: append_label_def)

lemma dotted_name_nonzero: "list_all valid_label labels \<Longrightarrow> 0 \<notin> set (dotted_name labels)"
proof -
  have "0 \<notin> set dst \<Longrightarrow> list_all valid_label labels \<Longrightarrow> 0 \<notin> set (foldl append_label dst labels)" for dst
    by (induction labels arbitrary: dst) (auto simp: append_label_nonzero valid_label_def)
  then show "list_all valid_label labels \<Longrightarrow> ?thesis" by (simp add: dotted_name_def)
qed

lemma snoop_encoded_response:
  assumes "list_all valid_label labels" and "length (dotted_name labels) + 2 < 256"
    and "list_all valid_rr rrs" and "rrs \<noteq> []" and "length rrs < 65536"
  shows "snoop_dns_response (\<lambda>_. True) (encode_response id0 id1 ttl labels rrs) now s =
     Inr (fold (store_rr (map (\<lambda>b. char_of (unat b)) (dotted_name labels)) now) rrs s)"
proof -
  let ?hdr = "[id0, id1, 0x81, 0x80, 0, 1, hi8 (of_nat (length rrs)), lo8 (of_nat (length rrs)), 0, 0, 0, 0]"
  let ?msg = "encode_response id0 id1 ttl labels rrs"
  let ?pre = "?hdr @ encode_name labels @ [0, 1, 0, 1]"
  let ?q = "map (\<lambda>b. char_of (unat b)) (dotted_name labels)"
  have m: "?msg = ?hdr @ encode_name labels @ ([0, 1, 0, 1] @ concat (map (encode_rr ttl) rrs))"
    by (simp add: encode_response_def)
  have m': "?msg = ?pre @ concat (map (encode_rr ttl) rrs)" by (simp add: encode_response_def)
  have name: "dns_name ?msg 12 labels 0 (12 + length (encode_name labels))"
  proof -
    have "length ?hdr = 12" by simp
    then show ?thesis
      using dns_name_encoded [OF assms(1), of ?hdr "[0, 1, 0, 1] @ concat (map (encode_rr ttl) rrs)"]
      unfolding m by (simp only:)
  qed
  have parse: "dns_parse_name ?msg 12 256 = Inr (Some (12 + length (encode_name labels), dotted_name labels @ [0]))"
    by (rule dns_parse_name_complete [OF name]) (use assms(2) in auto)
  have cs: "cstr_of_bytes (dotted_name labels @ [0]) = ?q"
    by (rule cstr_of_terminated [OF dotted_name_nonzero [OF assms(1)]])
  have fields: "read_be16 ?msg 2 = Inr 0x8180" "read_be16 ?msg 4 = Inr 1" "read_be16 ?msg 6 = Inr (of_nat (length rrs))"
    by (simp_all add: encode_response_def be16_hi_lo) (simp_all add: be16_def)
  have n: "unat (of_nat (length rrs) :: u16) = length rrs" using assms(5) by (simp add: unat_of_nat)
  have n0: "(of_nat (length rrs) :: u16) \<noteq> 0" using n assms(4) by (metis length_0_conv unat_0)
  have "scan_answers (\<lambda>_. True) ?msg ?q now (length rrs) 0 (length ?pre) s = Inr (fold (store_rr ?q now) rrs s)"
    unfolding m' by (rule scan_answers_encoded [OF assms(3) name [unfolded m'] assms(2)])
  moreover have "length ?pre = 12 + length (encode_name labels) + 4" by simp
  moreover have "\<not> length ?msg < 12" by (simp add: m)
  moreover have "(0x8180 :: u16) AND 0x8000 \<noteq> 0" "(0x8180 :: u16) AND 0x000F = 0" by code_simp+
  ultimately show ?thesis
    unfolding snoop_dns_response_def
    by (simp only: fields n n0 parse cs if_False if_True simp_thms sum.case option.case prod.case
        unat_1 diff_self_eq_0 skip_questions.simps)
qed



end
