(* ===== verification/PB_Conntrack.thy ===== *)
theory PB_Conntrack
  imports PB_Dns
begin

text \<open>
  \<open>pb_conntrack.c\<close>: the table of proxied flows, its reverse index by original destination, the
  per-flow UDP decision caches and the list of already reported connections. Nodes are shared
  between the two tables, so they live in a heap and the tables hold their addresses. Every
  operation that the code runs under \<open>lock\<close> is one step. The theorems show that every operation
  keeps the two tables and the heap consistent (no dangling entry, no node missing from either
  table, one node per flow), and that under this invariant the structure behaves as a map from
  (port, protocol, family) to flows.
\<close>

section \<open>Nodes and keys\<close>

definition conn_key :: "CONNECTION_INFO \<Rightarrow> u16 \<times> bool \<times> bool" where
  "conn_key c = (c_src_port c, c_is_udp c, c_is_ipv6 c)"

definition conn_bucket :: "u16 \<Rightarrow> nat" where
  "conn_bucket src_port = unat src_port mod CONNECTION_HASH_SIZE"

definition conn_at :: "pb \<Rightarrow> addr \<Rightarrow> CONNECTION_INFO" where
  "conn_at s a = the (conn_heap s a)"

text \<open>The walk of the chain of a port for the first node of a flow.\<close>

definition find_conn :: "pb \<Rightarrow> u16 \<Rightarrow> bool \<Rightarrow> bool \<Rightarrow> addr option" where
  "find_conn s src_port is_udp is_ipv6 =
     find (\<lambda>a. conn_key (conn_at s a) = (src_port, is_udp, is_ipv6))
       (connection_hash_table s (conn_bucket src_port))"

definition write_conn :: "addr \<Rightarrow> (CONNECTION_INFO \<Rightarrow> CONNECTION_INFO) \<Rightarrow> pb \<Rightarrow> pb" where
  "write_conn a f s = s\<lparr>conn_heap := (conn_heap s)(a \<mapsto> f (conn_at s a))\<rparr>"

section \<open>The reverse index\<close>

definition rev_hash_v4 :: "u32 \<Rightarrow> u16 \<Rightarrow> nat" where
  "rev_hash_v4 dest_ip dest_port =
     unat ((dest_ip * 2654435761) XOR (ucast dest_port * 40503)) mod CONNECTION_HASH_SIZE"

definition rev_hash_v6 :: "ip6 \<Rightarrow> u16 \<Rightarrow> nat" where
  "rev_hash_v6 dest_ip6 dest_port =
     unat (foldl (\<lambda>h b. h * 31 + ucast b) (ucast dest_port * 40503 :: u32) dest_ip6)
       mod CONNECTION_HASH_SIZE"

definition rev_bucket_of :: "CONNECTION_INFO \<Rightarrow> nat" where
  "rev_bucket_of c =
     (if c_is_ipv6 c then rev_hash_v6 (c_orig_dest_ip6 c) (c_orig_dest_port c)
      else rev_hash_v4 (c_orig_dest_ip c) (c_orig_dest_port c))"

definition rev_insert :: "addr \<Rightarrow> pb \<Rightarrow> pb" where
  "rev_insert a s =
     (let b = rev_bucket_of (conn_at s a) in
      (write_conn a (\<lambda>c. c\<lparr>c_rev_bucket := b, c_in_rev := True\<rparr>) s)
        \<lparr>connection_rev_table := (connection_rev_table s)(b := a # connection_rev_table s b)\<rparr>)"

definition rev_unlink :: "addr \<Rightarrow> pb \<Rightarrow> pb" where
  "rev_unlink a s =
     (if \<not> c_in_rev (conn_at s a) then s
      else let b = c_rev_bucket (conn_at s a) in
        (write_conn a (\<lambda>c. c\<lparr>c_in_rev := False\<rparr>) s)
          \<lparr>connection_rev_table :=
             (connection_rev_table s)(b := remove_first ((=) a) (connection_rev_table s b))\<rparr>)"

section \<open>Adding flows\<close>

text \<open>What \<open>calloc\<close> returns: a node of zeros.\<close>

definition zero_conn :: CONNECTION_INFO where
  "zero_conn = \<lparr>c_src_port = 0, c_is_udp = False, c_src_ip = 0, c_orig_dest_ip = 0,
     c_orig_dest_port = 0, c_is_tracked = False, c_fin_flags = 0, c_policy_generation = 0,
     c_last_activity = 0, c_proxy_config_id = 0, c_is_ipv6 = False, c_src_ip6 = replicate 16 0,
     c_orig_dest_ip6 = replicate 16 0, c_rev_bucket = 0, c_in_rev = False\<rparr>"

text \<open>\<open>fresh\<close> is the address \<open>calloc\<close> returns when a new node is needed.\<close>

definition add_connection ::
  "addr option \<Rightarrow> u16 \<Rightarrow> bool \<Rightarrow> u32 \<Rightarrow> u32 \<Rightarrow> u16 \<Rightarrow> u32 \<Rightarrow> u64 \<Rightarrow> pb \<Rightarrow> pb" where
  "add_connection fresh src_port is_udp src_ip dest_ip dest_port proxy_config_id now s =
     (case find_conn s src_port is_udp False of
        Some a \<Rightarrow>
          rev_insert a (write_conn a
            (\<lambda>c. c\<lparr>c_is_ipv6 := False, c_src_ip := src_ip, c_orig_dest_ip := dest_ip,
                 c_orig_dest_port := dest_port, c_proxy_config_id := proxy_config_id,
                 c_is_tracked := True, c_fin_flags := 0,
                 c_policy_generation := g_udp_generation s, c_last_activity := now\<rparr>)
            (rev_unlink a s))
      | None \<Rightarrow>
          (case fresh of
             None \<Rightarrow> s
           | Some a \<Rightarrow>
               rev_insert a (s\<lparr>
                 conn_heap := (conn_heap s)(a \<mapsto> zero_conn\<lparr>c_src_port := src_port,
                   c_is_udp := is_udp, c_src_ip := src_ip, c_orig_dest_ip := dest_ip,
                   c_orig_dest_port := dest_port, c_proxy_config_id := proxy_config_id,
                   c_is_tracked := True, c_policy_generation := g_udp_generation s,
                   c_is_ipv6 := False, c_last_activity := now\<rparr>),
                 connection_hash_table := (connection_hash_table s)
                   (conn_bucket src_port := a # connection_hash_table s (conn_bucket src_port))\<rparr>)))"

definition add_connection_v6 ::
  "addr option \<Rightarrow> u16 \<Rightarrow> bool \<Rightarrow> ip6 \<Rightarrow> ip6 \<Rightarrow> u16 \<Rightarrow> u32 \<Rightarrow> u64 \<Rightarrow> pb \<Rightarrow> pb" where
  "add_connection_v6 fresh src_port is_udp src_ip6 dest_ip6 dest_port proxy_config_id now s =
     (case find_conn s src_port is_udp True of
        Some a \<Rightarrow>
          rev_insert a (write_conn a
            (\<lambda>c. c\<lparr>c_is_ipv6 := True, c_src_ip6 := src_ip6, c_orig_dest_ip6 := dest_ip6,
                 c_orig_dest_port := dest_port, c_proxy_config_id := proxy_config_id,
                 c_is_tracked := True, c_fin_flags := 0,
                 c_policy_generation := g_udp_generation s, c_last_activity := now\<rparr>)
            (rev_unlink a s))
      | None \<Rightarrow>
          (case fresh of
             None \<Rightarrow> s
           | Some a \<Rightarrow>
               rev_insert a (s\<lparr>
                 conn_heap := (conn_heap s)(a \<mapsto> zero_conn\<lparr>c_src_port := src_port,
                   c_is_udp := is_udp, c_src_ip := 0, c_orig_dest_ip := 0, c_is_ipv6 := True,
                   c_src_ip6 := src_ip6, c_orig_dest_ip6 := dest_ip6,
                   c_orig_dest_port := dest_port, c_proxy_config_id := proxy_config_id,
                   c_is_tracked := True, c_policy_generation := g_udp_generation s,
                   c_last_activity := now\<rparr>),
                 connection_hash_table := (connection_hash_table s)
                   (conn_bucket src_port := a # connection_hash_table s (conn_bucket src_port))\<rparr>)))"

section \<open>Looking flows up\<close>

text \<open>Lookups that refresh \<open>last_activity\<close> return the state after the refresh.\<close>

definition touch_conn :: "addr \<Rightarrow> u64 \<Rightarrow> pb \<Rightarrow> pb" where
  "touch_conn a now = write_conn a (\<lambda>c. c\<lparr>c_last_activity := now\<rparr>)"

definition get_connection_full_v6 ::
  "u16 \<Rightarrow> bool \<Rightarrow> u64 \<Rightarrow> pb \<Rightarrow> (ip6 \<times> u16 \<times> u32) option \<times> pb" where
  "get_connection_full_v6 src_port is_udp now s =
     (case find_conn s src_port is_udp True of
        None \<Rightarrow> (None, s)
      | Some a \<Rightarrow> (Some (c_orig_dest_ip6 (conn_at s a), c_orig_dest_port (conn_at s a),
                        c_proxy_config_id (conn_at s a)), touch_conn a now s))"

fun best_sender ::
  "pb \<Rightarrow> ip6 \<Rightarrow> u16 \<Rightarrow> addr list \<Rightarrow> (ip6 \<times> u16 \<times> u64) option \<Rightarrow> (ip6 \<times> u16 \<times> u64) option" where
  "best_sender s ip6 port [] best = best"
| "best_sender s ip6 port (a # as) best =
     (let c = conn_at s a in
      best_sender s ip6 port as
        (if c_is_udp c \<and> c_is_ipv6 c \<and> c_orig_dest_port c = port \<and> c_orig_dest_ip6 c = ip6 \<and>
            (case best of None \<Rightarrow> True | Some (_, _, t) \<Rightarrow> t < c_last_activity c)
         then Some (c_src_ip6 c, c_src_port c, c_last_activity c) else best))"

definition find_v6_udp_sender :: "ip6 \<Rightarrow> u16 \<Rightarrow> pb \<Rightarrow> (ip6 \<times> u16) option" where
  "find_v6_udp_sender orig_dest_ip6 orig_dest_port s =
     map_option (\<lambda>(ip6, port, _). (ip6, port))
       (best_sender s orig_dest_ip6 orig_dest_port
         (connection_rev_table s (rev_hash_v6 orig_dest_ip6 orig_dest_port)) None)"

definition is_connection_tracked :: "pb \<Rightarrow> u16 \<Rightarrow> bool \<Rightarrow> bool \<Rightarrow> bool" where
  "is_connection_tracked s src_port is_udp is_ipv6 \<longleftrightarrow>
     (\<exists>a \<in> set (connection_hash_table s (conn_bucket src_port)).
        conn_key (conn_at s a) = (src_port, is_udp, is_ipv6) \<and> c_is_tracked (conn_at s a))"

definition get_connection :: "u16 \<Rightarrow> bool \<Rightarrow> u64 \<Rightarrow> pb \<Rightarrow> (u32 \<times> u16) option \<times> pb" where
  "get_connection src_port is_udp now s =
     (case find_conn s src_port is_udp False of
        None \<Rightarrow> (None, s)
      | Some a \<Rightarrow> (Some (c_orig_dest_ip (conn_at s a), c_orig_dest_port (conn_at s a)),
                  touch_conn a now s))"

definition get_connection_full ::
  "u16 \<Rightarrow> bool \<Rightarrow> u64 \<Rightarrow> pb \<Rightarrow> (u32 \<times> u16 \<times> u32) option \<times> pb" where
  "get_connection_full src_port is_udp now s =
     (case find_conn s src_port is_udp False of
        None \<Rightarrow> (None, s)
      | Some a \<Rightarrow> (Some (c_orig_dest_ip (conn_at s a), c_orig_dest_port (conn_at s a),
                        c_proxy_config_id (conn_at s a)), touch_conn a now s))"

definition get_connection_proxy_id :: "u16 \<Rightarrow> bool \<Rightarrow> pb \<Rightarrow> u32" where
  "get_connection_proxy_id src_port is_udp s =
     (case find_conn s src_port is_udp False of
        None \<Rightarrow> 0 | Some a \<Rightarrow> c_proxy_config_id (conn_at s a))"

section \<open>UDP flow decisions\<close>

definition invalidate_udp_decisions :: "pb \<Rightarrow> pb" where
  "invalidate_udp_decisions s = s\<lparr>g_udp_generation := g_udp_generation s + 1\<rparr>"

definition udp_flow_stamp :: "u16 \<Rightarrow> bool \<Rightarrow> u32 \<Rightarrow> pb \<Rightarrow> pb" where
  "udp_flow_stamp port ipv6 generation s =
     (case find_conn s port True ipv6 of
        None \<Rightarrow> s
      | Some a \<Rightarrow> write_conn a (\<lambda>c. c\<lparr>c_policy_generation := generation\<rparr>) s)"

text \<open>Unlink a node from its forward chain and from the reverse index, and free it.\<close>

definition drop_connection :: "nat \<Rightarrow> addr \<Rightarrow> pb \<Rightarrow> pb" where
  "drop_connection b a s =
     (let s1 = rev_unlink a (s\<lparr>connection_hash_table := (connection_hash_table s)
                 (b := remove_first ((=) a) (connection_hash_table s b))\<rparr>)
      in s1\<lparr>conn_heap := (conn_heap s1)(a := None)\<rparr>)"

definition udp_flow_validate ::
  "u16 \<Rightarrow> bool \<Rightarrow> u32 \<Rightarrow> ip6 \<Rightarrow> u32 \<Rightarrow> ip6 \<Rightarrow> u16 \<Rightarrow> u64 \<Rightarrow> pb \<Rightarrow> bool \<times> pb" where
  "udp_flow_validate port ipv6 source source6 destination destination6 destination_port now s =
     (case find_conn s port True ipv6 of
        None \<Rightarrow> (False, s)
      | Some a \<Rightarrow>
          let c = conn_at s a;
              same = (c_orig_dest_port c = destination_port \<and>
                (if ipv6 then c_src_ip6 c = source6 \<and> c_orig_dest_ip6 c = destination6
                 else c_src_ip c = source \<and> c_orig_dest_ip c = destination));
              valid = (same \<and> c_policy_generation c = g_udp_generation s \<and>
                (now \<le> c_last_activity c \<or> now - c_last_activity c \<le> 20000))
          in if valid then (True, touch_conn a now s)
             else (False, drop_connection (conn_bucket port) a s))"

definition udp_direct_slot :: "bool \<Rightarrow> bytes \<Rightarrow> u16 \<Rightarrow> bytes \<Rightarrow> u16 \<Rightarrow> nat" where
  "udp_direct_slot ipv6 source source_port destination destination_port =
     unat (foldl (\<lambda>h i. h * 31 + ucast (source ! i) + ucast (destination ! i))
       (push_bit 16 (ucast source_port) XOR ucast destination_port XOR (of_bool ipv6 :: u32))
       [0..<if ipv6 then 16 else 4]) mod 4096"

definition udp_direct_cached ::
  "bool \<Rightarrow> bytes \<Rightarrow> u16 \<Rightarrow> bytes \<Rightarrow> u16 \<Rightarrow> u64 \<Rightarrow> pb \<Rightarrow> bool" where
  "udp_direct_cached ipv6 source source_port destination destination_port now s \<longleftrightarrow>
     (let entry = udp_direct_entries s
            (udp_direct_slot ipv6 source source_port destination destination_port);
          n = (if ipv6 then 16 else 4)
      in now < ud_expires entry \<and> ud_generation entry = g_udp_generation s \<and>
         ud_ipv6 entry = ipv6 \<and> ud_source_port entry = source_port \<and>
         ud_destination_port entry = destination_port \<and>
         take n (ud_source entry) = take n source \<and>
         take n (ud_destination entry) = take n destination)"

definition udp_direct_remember ::
  "bool \<Rightarrow> bytes \<Rightarrow> u16 \<Rightarrow> bytes \<Rightarrow> u16 \<Rightarrow> u32 \<Rightarrow> u64 \<Rightarrow> pb \<Rightarrow> pb" where
  "udp_direct_remember ipv6 source source_port destination destination_port generation now s =
     (let slot = udp_direct_slot ipv6 source source_port destination destination_port;
          entry = udp_direct_entries s slot; n = (if ipv6 then 16 else 4)
      in s\<lparr>udp_direct_entries := (udp_direct_entries s)(slot := \<lparr>
           ud_source = take n source @ drop n (ud_source entry),
           ud_destination = take n destination @ drop n (ud_destination entry),
           ud_source_port = source_port, ud_destination_port = destination_port,
           ud_ipv6 = ipv6, ud_generation = generation, ud_expires = now + 5000\<rparr>)\<rparr>)"

section \<open>Removing flows\<close>

definition remove_connection :: "u16 \<Rightarrow> bool \<Rightarrow> bool \<Rightarrow> pb \<Rightarrow> pb" where
  "remove_connection src_port is_udp is_ipv6 s =
     (case find_conn s src_port is_udp is_ipv6 of
        None \<Rightarrow> s | Some a \<Rightarrow> drop_connection (conn_bucket src_port) a s)"

definition connection_fin :: "u16 \<Rightarrow> bool \<Rightarrow> u8 \<Rightarrow> u64 \<Rightarrow> pb \<Rightarrow> pb" where
  "connection_fin src_port is_ipv6 bits now s =
     (case find_conn s src_port False is_ipv6 of
        None \<Rightarrow> s
      | Some a \<Rightarrow> write_conn a
          (\<lambda>c. c\<lparr>c_fin_flags := c_fin_flags c OR bits, c_last_activity := now\<rparr>) s)"

definition conn_stale :: "u64 \<Rightarrow> CONNECTION_INFO \<Rightarrow> bool" where
  "conn_stale now c \<longleftrightarrow>
     (if c_fin_flags c = 3 then 60000 else CONNECTION_STALE_TIMEOUT_MS) < now - c_last_activity c"

definition sweep_bucket :: "u64 \<Rightarrow> nat \<Rightarrow> pb \<Rightarrow> pb" where
  "sweep_bucket now i s =
     fold (\<lambda>a s. if conn_stale now (conn_at s a) then drop_connection i a s else s)
       (connection_hash_table s i) s"

definition cleanup_stale_connections :: "u64 \<Rightarrow> u64 \<Rightarrow> pb \<Rightarrow> pb" where
  "cleanup_stale_connections now now_cache s =
     (let s1 = fold (sweep_bucket now) [0..<CONNECTION_HASH_SIZE] s;
          s2 = s1\<lparr>pid_cache := chain_sweep PID_CACHE_SIZE (\<lambda>e. 10000 < now_cache - pe_timestamp e)
                   (pid_cache s1)\<rparr>
      in if 100 < length (logged_connections s2)
         then s2\<lparr>logged_connections := take 100 (logged_connections s2)\<rparr> else s2)"

section \<open>The list of reported connections\<close>

definition is_connection_already_logged :: "u32 \<Rightarrow> u32 \<Rightarrow> u16 \<Rightarrow> RuleAction \<Rightarrow> pb \<Rightarrow> bool" where
  "is_connection_already_logged pid dest_ip dest_port action s \<longleftrightarrow>
     (\<exists>l \<in> set (logged_connections s).
        l_pid l = pid \<and> l_dest_ip l = dest_ip \<and> l_dest_port l = dest_port \<and> l_action l = action)"

text \<open>The nodes behind the first 99 are freed when the counter has reached 100.\<close>

definition trim_logged :: "pb \<Rightarrow> pb" where
  "trim_logged s =
     (if 100 \<le> g_logged_count s \<and> 99 < length (logged_connections s)
      then s\<lparr>logged_connections := take 99 (logged_connections s),
             g_logged_count := g_logged_count s - int (length (logged_connections s) - 99)\<rparr>
      else s)"

definition add_logged_connection :: "bool \<Rightarrow> u32 \<Rightarrow> u32 \<Rightarrow> u16 \<Rightarrow> RuleAction \<Rightarrow> pb \<Rightarrow> pb" where
  "add_logged_connection alloc pid dest_ip dest_port action s =
     (let s1 = trim_logged s in
      if alloc
      then s1\<lparr>logged_connections :=
                \<lparr>l_pid = pid, l_dest_ip = dest_ip, l_dest_port = dest_port, l_action = action\<rparr>
                # logged_connections s1,
              g_logged_count := g_logged_count s1 + 1\<rparr>
      else s1)"

definition clear_logged_connections :: "pb \<Rightarrow> pb" where
  "clear_logged_connections s = s\<lparr>logged_connections := [], g_logged_count := 0\<rparr>"

section \<open>The invariant\<close>

text \<open>Heap, forward table and reverse table agree: a node is in a forward chain exactly when its port
  hashes there, in a reverse chain exactly when its original destination does; no chain holds a
  node twice; no two nodes describe one flow.\<close>

definition tables_ok :: "(addr \<rightharpoonup> CONNECTION_INFO) \<Rightarrow> addr table \<Rightarrow> addr table \<Rightarrow> bool" where
  "tables_ok H F R \<longleftrightarrow>
     (\<forall>b. distinct (F b) \<and> distinct (R b)) \<and>
     (\<forall>b a. a \<in> set (F b) \<longleftrightarrow> (\<exists>c. H a = Some c \<and> conn_bucket (c_src_port c) = b)) \<and>
     (\<forall>b a. a \<in> set (R b) \<longleftrightarrow> (\<exists>c. H a = Some c \<and> rev_bucket_of c = b)) \<and>
     (\<forall>a c. H a = Some c \<longrightarrow> c_in_rev c \<and> c_rev_bucket c = rev_bucket_of c \<and> c_is_tracked c) \<and>
     (\<forall>a a' c c'. H a = Some c \<and> H a' = Some c' \<and> conn_key c = conn_key c' \<longrightarrow> a = a')"

definition conn_inv :: "pb \<Rightarrow> bool" where
  "conn_inv s \<longleftrightarrow> tables_ok (conn_heap s) (connection_hash_table s) (connection_rev_table s)"

text \<open>The flow recorded for a key.\<close>

definition connection_of :: "pb \<Rightarrow> u16 \<times> bool \<times> bool \<Rightarrow> CONNECTION_INFO option" where
  "connection_of s k =
     (case k of (port, udp, v6) \<Rightarrow>
        case find_conn s port udp v6 of None \<Rightarrow> None | Some a \<Rightarrow> conn_heap s a)"

definition logged_inv :: "pb \<Rightarrow> bool" where
  "logged_inv s \<longleftrightarrow>
     g_logged_count s = int (length (logged_connections s)) \<and> length (logged_connections s) \<le> 100"

section \<open>The tables as a set of flows\<close>

lemma tables_okD:
  assumes "tables_ok H F R"
  shows "distinct (F b)" "distinct (R b)"
    "a \<in> set (F b) \<longleftrightarrow> (\<exists>c. H a = Some c \<and> conn_bucket (c_src_port c) = b)"
    "a \<in> set (R b) \<longleftrightarrow> (\<exists>c. H a = Some c \<and> rev_bucket_of c = b)"
    "H a = Some c \<Longrightarrow> c_in_rev c \<and> c_rev_bucket c = rev_bucket_of c \<and> c_is_tracked c"
    "H a = Some c \<Longrightarrow> H a' = Some c' \<Longrightarrow> conn_key c = conn_key c' \<Longrightarrow> a = a'"
  using assms unfolding tables_ok_def by blast+

lemma tables_remove:
  assumes ok: "tables_ok H F R" and a: "H a = Some c"
    and b: "b1 = conn_bucket (c_src_port c)" "b2 = rev_bucket_of c"
  shows "tables_ok (H(a := None)) (F(b1 := remove_first ((=) a) (F b1))) (R(b2 := remove_first ((=) a) (R b2)))"
  unfolding tables_ok_def
proof (intro conjI)
  note D = tables_okD [OF ok]
  show "\<forall>b. distinct ((F(b1 := remove_first ((=) a) (F b1))) b) \<and> distinct ((R(b2 := remove_first ((=) a) (R b2))) b)"
    using D(1,2) by simp
  show "\<forall>b a'. (a' \<in> set ((F(b1 := remove_first ((=) a) (F b1))) b)) = (\<exists>c. (H(a := None)) a' = Some c \<and> conn_bucket (c_src_port c) = b)"
    using D(1,3) a b by (auto simp: set_remove_first_distinct)
  show "\<forall>b a'. (a' \<in> set ((R(b2 := remove_first ((=) a) (R b2))) b)) = (\<exists>c. (H(a := None)) a' = Some c \<and> rev_bucket_of c = b)"
    using D(2,4) a b by (auto simp: set_remove_first_distinct)
  show "\<forall>a' c. (H(a := None)) a' = Some c \<longrightarrow> c_in_rev c \<and> c_rev_bucket c = rev_bucket_of c \<and> c_is_tracked c"
    using D(5) by auto
  show "\<forall>a1 a' c c'. (H(a := None)) a1 = Some c \<and> (H(a := None)) a' = Some c' \<and> conn_key c = conn_key c' \<longrightarrow> a1 = a'"
    using D(6) by (auto split: if_splits)
qed

lemma tables_insert:
  assumes ok: "tables_ok H F R" and a: "H a = None"
    and c: "c_in_rev c" "c_rev_bucket c = rev_bucket_of c" "c_is_tracked c"
    and key: "\<And>a' c'. H a' = Some c' \<Longrightarrow> conn_key c' \<noteq> conn_key c"
    and b: "b1 = conn_bucket (c_src_port c)" "b2 = rev_bucket_of c"
  shows "tables_ok (H(a \<mapsto> c)) (F(b1 := a # F b1)) (R(b2 := a # R b2))"
  unfolding tables_ok_def
proof (intro conjI)
  note D = tables_okD [OF ok]
  show "\<forall>b. distinct ((F(b1 := a # F b1)) b) \<and> distinct ((R(b2 := a # R b2)) b)"
    using D(1-4) a by auto
  show "\<forall>b a'. (a' \<in> set ((F(b1 := a # F b1)) b)) = (\<exists>c'. (H(a \<mapsto> c)) a' = Some c' \<and> conn_bucket (c_src_port c') = b)"
    using D(3) a b by auto
  show "\<forall>b a'. (a' \<in> set ((R(b2 := a # R b2)) b)) = (\<exists>c'. (H(a \<mapsto> c)) a' = Some c' \<and> rev_bucket_of c' = b)"
    using D(4) a b by auto
  show "\<forall>a' c'. (H(a \<mapsto> c)) a' = Some c' \<longrightarrow> c_in_rev c' \<and> c_rev_bucket c' = rev_bucket_of c' \<and> c_is_tracked c'"
    using D(5) c by auto
  show "\<forall>a1 a' c1 c'. (H(a \<mapsto> c)) a1 = Some c1 \<and> (H(a \<mapsto> c)) a' = Some c' \<and> conn_key c1 = conn_key c' \<longrightarrow> a1 = a'"
    using D(6) key by (metis fun_upd_apply option.inject)
qed

text \<open>Re-keying a node is removing it and inserting it anew at its address, up to the order of its
  forward chain, which stays as it is.\<close>

lemma tables_rekey:
  assumes ok: "tables_ok H F R" and a: "H a = Some c0"
    and c: "c_in_rev c" "c_rev_bucket c = rev_bucket_of c" "c_is_tracked c" "conn_key c = conn_key c0"
    and b: "b0 = rev_bucket_of c0" "b2 = rev_bucket_of c"
  shows "tables_ok (H(a \<mapsto> c)) F ((R(b0 := remove_first ((=) a) (R b0)))
     (b2 := a # (R(b0 := remove_first ((=) a) (R b0))) b2))"
proof -
  define R' where "R' = R(b0 := remove_first ((=) a) (R b0))"
  note D = tables_okD [OF ok]
  note D' = tables_okD [OF tables_remove [OF ok a refl b(1)], folded R'_def]
  have p: "c_src_port c = c_src_port c0" using c(4) by (simp add: conn_key_def)
  have "tables_ok (H(a \<mapsto> c)) F (R'(b2 := a # R' b2))"
    unfolding tables_ok_def
  proof (intro conjI)
    show "\<forall>b. distinct (F b) \<and> distinct ((R'(b2 := a # R' b2)) b)"
      using D(1) D'(2,4) by auto
    show "\<forall>b a'. (a' \<in> set (F b)) = (\<exists>c'. (H(a \<mapsto> c)) a' = Some c' \<and> conn_bucket (c_src_port c') = b)"
      using D(3) a p by auto
    show "\<forall>b a'. (a' \<in> set ((R'(b2 := a # R' b2)) b)) = (\<exists>c'. (H(a \<mapsto> c)) a' = Some c' \<and> rev_bucket_of c' = b)"
      using D'(4) b(2) by auto
    show "\<forall>a' c'. (H(a \<mapsto> c)) a' = Some c' \<longrightarrow> c_in_rev c' \<and> c_rev_bucket c' = rev_bucket_of c' \<and> c_is_tracked c'"
      using D(5) c by auto
    show "\<forall>a1 a' c1 c'. (H(a \<mapsto> c)) a1 = Some c1 \<and> (H(a \<mapsto> c)) a' = Some c' \<and> conn_key c1 = conn_key c' \<longrightarrow> a1 = a'"
      using D(6) a c(4) by (metis fun_upd_apply option.inject)
  qed
  then show ?thesis by (simp only: R'_def)
qed

lemma tables_write:
  assumes ok: "tables_ok H F R" and a: "H a = Some c0"
    and c: "c_in_rev c = c_in_rev c0" "c_rev_bucket c = c_rev_bucket c0" "c_is_tracked c = c_is_tracked c0"
      "conn_key c = conn_key c0" "rev_bucket_of c = rev_bucket_of c0"
  shows "tables_ok (H(a \<mapsto> c)) F R"
  unfolding tables_ok_def
proof (intro conjI)
  note D = tables_okD [OF ok]
  have p: "c_src_port c = c_src_port c0" using c(4) by (simp add: conn_key_def)
  show "\<forall>b. distinct (F b) \<and> distinct (R b)" using D(1,2) by simp
  show "\<forall>b a'. (a' \<in> set (F b)) = (\<exists>c'. (H(a \<mapsto> c)) a' = Some c' \<and> conn_bucket (c_src_port c') = b)"
    using D(3) a p by auto
  show "\<forall>b a'. (a' \<in> set (R b)) = (\<exists>c'. (H(a \<mapsto> c)) a' = Some c' \<and> rev_bucket_of c' = b)"
    using D(4) a c(5) by auto
  show "\<forall>a' c'. (H(a \<mapsto> c)) a' = Some c' \<longrightarrow> c_in_rev c' \<and> c_rev_bucket c' = rev_bucket_of c' \<and> c_is_tracked c'"
    using D(5) a c by auto
  show "\<forall>a1 a' c1 c'. (H(a \<mapsto> c)) a1 = Some c1 \<and> (H(a \<mapsto> c)) a' = Some c' \<and> conn_key c1 = conn_key c' \<longrightarrow> a1 = a'"
    using D(6) a c(4) by (metis fun_upd_apply option.inject)
qed

lemma conn_inv_init: "conn_inv pb_init"
  by (simp add: conn_inv_def tables_ok_def pb_init_def empty_table_def)

lemma find_conn_iff:
  assumes "conn_inv s"
  shows "find_conn s port udp v6 = Some a \<longleftrightarrow> (\<exists>c. conn_heap s a = Some c \<and> conn_key c = (port, udp, v6))"
proof -
  note D = tables_okD [OF assms [unfolded conn_inv_def]]
  let ?l = "connection_hash_table s (conn_bucket port)" and ?P = "\<lambda>a. conn_key (conn_at s a) = (port, udp, v6)"
  have *: "a \<in> set ?l \<and> ?P a \<longleftrightarrow> (\<exists>c. conn_heap s a = Some c \<and> conn_key c = (port, udp, v6))" for a
    unfolding D(3) by (auto simp: conn_at_def conn_key_def)
  show ?thesis
  proof (cases "find ?P ?l")
    case None
    then have "\<not> (a \<in> set ?l \<and> ?P a)" by (auto simp: find_None_iff)
    then show ?thesis using None * [of a] by (simp add: find_conn_def)
  next
    case (Some a')
    then have "a' \<in> set ?l" "?P a'" by (auto simp: find_Some_iff)
    then obtain c' where c': "conn_heap s a' = Some c'" "conn_key c' = (port, udp, v6)" using * [of a'] by blast
    have "(\<exists>c. conn_heap s a = Some c \<and> conn_key c = (port, udp, v6)) \<longleftrightarrow> a' = a"
      using c' D(6) [OF c'(1)] by metis
    then show ?thesis using Some by (simp add: find_conn_def)
  qed
qed

lemma find_conn_None_iff:
  assumes "conn_inv s"
  shows "find_conn s port udp v6 = None \<longleftrightarrow> (\<forall>a c. conn_heap s a = Some c \<longrightarrow> conn_key c \<noteq> (port, udp, v6))"
  using find_conn_iff [OF assms, of port udp v6] by (metis not_None_eq)

lemma connection_of_iff:
  assumes "conn_inv s"
  shows "connection_of s k = Some c \<longleftrightarrow> (\<exists>a. conn_heap s a = Some c \<and> conn_key c = k)"
proof -
  obtain p u v where k: "k = (p, u, v)" by (cases k)
  show ?thesis
  proof (cases "find_conn s p u v")
    case None
    then show ?thesis using find_conn_None_iff [OF assms, of p u v] by (auto simp: connection_of_def k)
  next
    case (Some a)
    then obtain c' where "conn_heap s a = Some c'" "conn_key c' = k"
      using find_conn_iff [OF assms, of p u v a] k by auto
    moreover from this Some have "connection_of s k = Some c'" by (simp add: connection_of_def k)
    ultimately show ?thesis
      using tables_okD(6) [OF assms [unfolded conn_inv_def], of a c'] by (metis option.inject)
  qed
qed


section \<open>What the operations do to heap and tables\<close>

lemma rev_insert_fields:
  "conn_heap (rev_insert a s) = (conn_heap s)
     (a \<mapsto> (conn_at s a)\<lparr>c_rev_bucket := rev_bucket_of (conn_at s a), c_in_rev := True\<rparr>)"
  "connection_hash_table (rev_insert a s) = connection_hash_table s"
  "connection_rev_table (rev_insert a s) = (connection_rev_table s)
     (rev_bucket_of (conn_at s a) := a # connection_rev_table s (rev_bucket_of (conn_at s a)))"
  by (simp_all add: rev_insert_def write_conn_def Let_def)

lemma rev_unlink_fields:
  assumes "conn_heap s a = Some c" and "c_in_rev c"
  shows "conn_heap (rev_unlink a s) = (conn_heap s)(a \<mapsto> c\<lparr>c_in_rev := False\<rparr>)"
    "connection_hash_table (rev_unlink a s) = connection_hash_table s"
    "connection_rev_table (rev_unlink a s) = (connection_rev_table s)
       (c_rev_bucket c := remove_first ((=) a) (connection_rev_table s (c_rev_bucket c)))"
  using assms by (simp_all add: rev_unlink_def write_conn_def Let_def conn_at_def)

lemma write_conn_fields [simp]:
  "connection_hash_table (write_conn a f s) = connection_hash_table s"
  "connection_rev_table (write_conn a f s) = connection_rev_table s"
  "conn_heap (write_conn a f s) = (conn_heap s)(a \<mapsto> f (conn_at s a))"
  by (simp_all add: write_conn_def)

lemma rev_bucket_of_unaffected [simp]:
  "rev_bucket_of (c\<lparr>c_rev_bucket := b\<rparr>) = rev_bucket_of c"
  "rev_bucket_of (c\<lparr>c_in_rev := i\<rparr>) = rev_bucket_of c"
  "rev_bucket_of (c\<lparr>c_last_activity := t\<rparr>) = rev_bucket_of c"
  "rev_bucket_of (c\<lparr>c_policy_generation := g\<rparr>) = rev_bucket_of c"
  "rev_bucket_of (c\<lparr>c_fin_flags := n\<rparr>) = rev_bucket_of c"
  by (simp_all add: rev_bucket_of_def)

lemma conn_key_unaffected [simp]:
  "conn_key (c\<lparr>c_rev_bucket := b\<rparr>) = conn_key c"
  "conn_key (c\<lparr>c_in_rev := i\<rparr>) = conn_key c"
  "conn_key (c\<lparr>c_last_activity := t\<rparr>) = conn_key c"
  "conn_key (c\<lparr>c_policy_generation := g\<rparr>) = conn_key c"
  "conn_key (c\<lparr>c_fin_flags := n\<rparr>) = conn_key c"
  by (simp_all add: conn_key_def)

lemma conn_inv_write:
  assumes "conn_inv s" and "conn_heap s a = Some c"
    and "c_in_rev (f c) = c_in_rev c" "c_rev_bucket (f c) = c_rev_bucket c" "c_is_tracked (f c) = c_is_tracked c"
      "conn_key (f c) = conn_key c" "rev_bucket_of (f c) = rev_bucket_of c"
  shows "conn_inv (write_conn a f s)"
  using assms by (auto simp: conn_inv_def conn_at_def intro: tables_write)

lemma rekey_heap:
  assumes "conn_inv s" and "conn_heap s a = Some c"
    and "conn_key (f (c\<lparr>c_in_rev := False\<rparr>)) = conn_key c" and "c_is_tracked (f (c\<lparr>c_in_rev := False\<rparr>))"
  shows "conn_inv (rev_insert a (write_conn a f (rev_unlink a s)))"
    and "conn_heap (rev_insert a (write_conn a f (rev_unlink a s))) = (conn_heap s)
      (a \<mapsto> (f (c\<lparr>c_in_rev := False\<rparr>))\<lparr>c_rev_bucket := rev_bucket_of (f (c\<lparr>c_in_rev := False\<rparr>)), c_in_rev := True\<rparr>)"
proof -
  let ?c = "f (c\<lparr>c_in_rev := False\<rparr>)"
  let ?n = "?c\<lparr>c_rev_bucket := rev_bucket_of ?c, c_in_rev := True\<rparr>"
  note ok = assms(1) [unfolded conn_inv_def]
  have r: "c_in_rev c" "c_rev_bucket c = rev_bucket_of c"
    using tables_okD(5) [OF ok assms(2)] by simp_all
  note u = rev_unlink_fields [OF assms(2) r(1)]
  have at: "conn_at (write_conn a f (rev_unlink a s)) a = ?c"
    by (simp add: conn_at_def u)
  show h: "conn_heap (rev_insert a (write_conn a f (rev_unlink a s))) = (conn_heap s)(a \<mapsto> ?n)"
    unfolding rev_insert_fields at by (simp add: u)
  show "conn_inv (rev_insert a (write_conn a f (rev_unlink a s)))"
    unfolding conn_inv_def h unfolding rev_insert_fields at
    using tables_rekey [OF ok assms(2), of ?n _ "rev_bucket_of ?c"] assms(3,4) by (simp add: u r)
qed

lemma drop_heap:
  assumes "conn_inv s" and "conn_heap s a = Some c" and "b = conn_bucket (c_src_port c)"
  shows "conn_inv (drop_connection b a s)" and "conn_heap (drop_connection b a s) = (conn_heap s)(a := None)"
proof -
  let ?s = "s\<lparr>connection_hash_table := (connection_hash_table s) (b := remove_first ((=) a) (connection_hash_table s b))\<rparr>"
  note ok = assms(1) [unfolded conn_inv_def]
  have r: "c_in_rev c" "c_rev_bucket c = rev_bucket_of c"
    using tables_okD(5) [OF ok assms(2)] by simp_all
  have "conn_heap ?s a = Some c" using assms(2) by simp
  note u = rev_unlink_fields [OF this r(1)]
  show h: "conn_heap (drop_connection b a s) = (conn_heap s)(a := None)"
    by (simp add: drop_connection_def Let_def u)
  show "conn_inv (drop_connection b a s)"
    using tables_remove [OF ok assms(2,3) refl] unfolding conn_inv_def h
    by (simp add: drop_connection_def Let_def u r)
qed

lemma insert_heap:
  assumes "conn_inv s" and "conn_heap s a = None" and "c_is_tracked c"
    and "\<forall>a' c'. conn_heap s a' = Some c' \<longrightarrow> conn_key c' \<noteq> conn_key c"
    and "b = conn_bucket (c_src_port c)"
    and "s' = rev_insert a (s\<lparr>conn_heap := (conn_heap s)(a \<mapsto> c),
       connection_hash_table := (connection_hash_table s)(b := a # connection_hash_table s b)\<rparr>)"
  shows "conn_inv s'"
    and "conn_heap s' = (conn_heap s)(a \<mapsto> c\<lparr>c_rev_bucket := rev_bucket_of c, c_in_rev := True\<rparr>)"
proof -
  let ?n = "c\<lparr>c_rev_bucket := rev_bucket_of c, c_in_rev := True\<rparr>"
  have at: "conn_at (s\<lparr>conn_heap := (conn_heap s)(a \<mapsto> c),
       connection_hash_table := (connection_hash_table s)(b := a # connection_hash_table s b)\<rparr>) a = c"
    by (simp add: conn_at_def)
  show h: "conn_heap s' = (conn_heap s)(a \<mapsto> ?n)"
    unfolding assms(6) rev_insert_fields at by simp
  show "conn_inv s'"
    unfolding conn_inv_def h unfolding assms(6) rev_insert_fields at
    using tables_insert [OF assms(1) [unfolded conn_inv_def] assms(2), of ?n b "rev_bucket_of c"] assms(3-5)
    by auto
qed

section \<open>The tables as a map of flows\<close>

lemma connection_of_upd:
  assumes "conn_inv s" and "conn_inv s'" and "conn_heap s' = (conn_heap s)(a \<mapsto> c)"
    and "conn_heap s a = None \<or> (\<exists>c0. conn_heap s a = Some c0 \<and> conn_key c0 = conn_key c)"
  shows "connection_of s' k = (if k = conn_key c then Some c else connection_of s k)"
proof -
  have "connection_of s' (conn_key c) = Some c"
    unfolding connection_of_iff [OF assms(2)] assms(3) by auto
  moreover have "connection_of s' k = connection_of s k" if "k \<noteq> conn_key c"
  proof (rule option.expand)
    have iff: "connection_of s' k = Some c1 \<longleftrightarrow> connection_of s k = Some c1" for c1
      unfolding connection_of_iff [OF assms(1)] connection_of_iff [OF assms(2)] assms(3)
      using that assms(4) by (metis fun_upd_apply option.inject option.distinct(1))
    then show "connection_of s' k = None \<longleftrightarrow> connection_of s k = None" by (metis not_None_eq)
    show "connection_of s' k \<noteq> None \<Longrightarrow> connection_of s k \<noteq> None \<Longrightarrow>
        the (connection_of s' k) = the (connection_of s k)"
      using iff by force
  qed
  ultimately show ?thesis by simp
qed

lemma connection_of_del:
  assumes "conn_inv s" and "conn_inv s'" and "conn_heap s' = (conn_heap s)(a := None)"
    and "conn_heap s a = Some c"
  shows "connection_of s' k = (if k = conn_key c then None else connection_of s k)"
proof -
  have iff: "connection_of s' k = Some c1 \<longleftrightarrow> k \<noteq> conn_key c \<and> connection_of s k = Some c1" for c1
    unfolding connection_of_iff [OF assms(1)] connection_of_iff [OF assms(2)] assms(3)
    using assms(4) tables_okD(6) [OF assms(1) [unfolded conn_inv_def] assms(4)]
    by (metis fun_upd_apply option.distinct(1) option.inject)
  show ?thesis
    using iff by (metis not_None_eq)
qed

lemma connection_of_written:
  assumes "conn_inv s" and "conn_inv s'" and "conn_heap s' = (conn_heap s)(a \<mapsto> n)" and "P n" and "conn_key n = k0"
    and "conn_heap s a = None \<or> (\<exists>c0. conn_heap s a = Some c0 \<and> conn_key c0 = k0)"
  shows "conn_inv s' \<and> (\<exists>c. P c \<and> (\<forall>k. connection_of s' k = (if k = k0 then Some c else connection_of s k)))"
  using connection_of_upd [OF assms(1-3)] assms(2,4-6) by auto

lemma find_conn_Some:
  assumes "conn_inv s" and "find_conn s p u v = Some a"
  obtains c where "conn_heap s a = Some c" "conn_key c = (p, u, v)" "conn_at s a = c"
    "connection_of s (p, u, v) = Some c"
  using assms find_conn_iff [OF assms(1), of p u v a] by (auto simp: conn_at_def connection_of_def)

lemma find_conn_None: "find_conn s p u v = None \<Longrightarrow> connection_of s (p, u, v) = None"
  by (simp add: connection_of_def)

text \<open>Updating the node of a flow in place.\<close>

lemma touch_flow:
  assumes "conn_inv s" and "conn_heap s a = Some c"
    and "c_in_rev (f c) = c_in_rev c" "c_rev_bucket (f c) = c_rev_bucket c" "c_is_tracked (f c) = c_is_tracked c"
      "conn_key (f c) = conn_key c" "rev_bucket_of (f c) = rev_bucket_of c"
  shows "connection_of (write_conn a f s) k = (if k = conn_key c then Some (f c) else connection_of s k)"
  using connection_of_upd [OF assms(1) conn_inv_write [of s a c f], of a "f c" k] assms
  by (simp add: conn_at_def)

definition usable :: "pb \<Rightarrow> addr option \<Rightarrow> bool" where
  "usable s fresh \<longleftrightarrow> (case fresh of None \<Rightarrow> False | Some a \<Rightarrow> conn_heap s a = None)"

definition flow_v4 :: "u16 \<Rightarrow> bool \<Rightarrow> u32 \<Rightarrow> u32 \<Rightarrow> u16 \<Rightarrow> u32 \<Rightarrow> u32 \<Rightarrow> u64 \<Rightarrow> CONNECTION_INFO \<Rightarrow> bool" where
  "flow_v4 port udp src dst dport pid gen now c \<longleftrightarrow>
     conn_key c = (port, udp, False) \<and> c_src_ip c = src \<and> c_orig_dest_ip c = dst \<and> c_orig_dest_port c = dport \<and>
     c_proxy_config_id c = pid \<and> c_policy_generation c = gen \<and> c_last_activity c = now \<and> c_fin_flags c = 0"

definition flow_v6 :: "u16 \<Rightarrow> bool \<Rightarrow> ip6 \<Rightarrow> ip6 \<Rightarrow> u16 \<Rightarrow> u32 \<Rightarrow> u32 \<Rightarrow> u64 \<Rightarrow> CONNECTION_INFO \<Rightarrow> bool" where
  "flow_v6 port udp src dst dport pid gen now c \<longleftrightarrow>
     conn_key c = (port, udp, True) \<and> c_src_ip6 c = src \<and> c_orig_dest_ip6 c = dst \<and> c_orig_dest_port c = dport \<and>
     c_proxy_config_id c = pid \<and> c_policy_generation c = gen \<and> c_last_activity c = now \<and> c_fin_flags c = 0"

lemma add_connection_flow:
  assumes "conn_inv s" and "find_conn s port udp False = None \<longrightarrow> usable s fresh"
    and s': "s' = add_connection fresh port udp src dst dport pid now s"
  shows "conn_inv s' \<and> (\<exists>c. flow_v4 port udp src dst dport pid (g_udp_generation s) now c \<and>
     (\<forall>k. connection_of s' k = (if k = (port, udp, False) then Some c else connection_of s k)))"
proof (cases "find_conn s port udp False")
  case None
  obtain a where a: "fresh = Some a" "conn_heap s a = None" using assms(2) None by (auto simp: usable_def split: option.splits)
  let ?c = "zero_conn\<lparr>c_src_port := port, c_is_udp := udp, c_src_ip := src, c_orig_dest_ip := dst,
    c_orig_dest_port := dport, c_proxy_config_id := pid, c_is_tracked := True,
    c_policy_generation := g_udp_generation s, c_is_ipv6 := False, c_last_activity := now\<rparr>"
  have key: "conn_key ?c = (port, udp, False)" by (simp add: conn_key_def)
  have new: "\<forall>a' c'. conn_heap s a' = Some c' \<longrightarrow> conn_key c' \<noteq> conn_key ?c"
    using None [unfolded find_conn_None_iff [OF assms(1)]] unfolding key .
  have s'': "s' = rev_insert a (s\<lparr>conn_heap := (conn_heap s)(a \<mapsto> ?c), connection_hash_table := (connection_hash_table s)
      (conn_bucket port := a # connection_hash_table s (conn_bucket port))\<rparr>)"
    by (simp add: s' add_connection_def None a)
  have "c_is_tracked ?c" and "conn_bucket port = conn_bucket (c_src_port ?c)" by simp_all
  note i = insert_heap [OF assms(1) a(2) this(1) new this(2) s'']
  have n: "flow_v4 port udp src dst dport pid (g_udp_generation s) now (?c\<lparr>c_rev_bucket := rev_bucket_of ?c, c_in_rev := True\<rparr>)"
    by (simp add: flow_v4_def conn_key_def zero_conn_def)
  show ?thesis by (rule connection_of_written [where P = "flow_v4 port udp src dst dport pid (g_udp_generation s) now",
      OF assms(1) i n]) (use a(2) key in simp_all)
next
  case (Some a)
  then obtain c where c: "conn_heap s a = Some c" "conn_key c = (port, udp, False)"
    using find_conn_Some [OF assms(1)] by metis
  let ?f = "\<lambda>c. c\<lparr>c_is_ipv6 := False, c_src_ip := src, c_orig_dest_ip := dst, c_orig_dest_port := dport,
    c_proxy_config_id := pid, c_is_tracked := True, c_fin_flags := 0,
    c_policy_generation := g_udp_generation s, c_last_activity := now\<rparr>"
  let ?c = "?f (c\<lparr>c_in_rev := False\<rparr>)"
  have s'': "s' = rev_insert a (write_conn a ?f (rev_unlink a s))"
    by (simp add: s' add_connection_def Some)
  have key: "conn_key ?c = conn_key c" using c(2) by (simp add: conn_key_def)
  note i = rekey_heap [OF assms(1) c(1), of ?f, OF key, folded s'']
  have n: "flow_v4 port udp src dst dport pid (g_udp_generation s) now (?c\<lparr>c_rev_bucket := rev_bucket_of ?c, c_in_rev := True\<rparr>)"
    using c(2) by (simp add: flow_v4_def conn_key_def)
  show ?thesis
    by (rule connection_of_written [where P = "flow_v4 port udp src dst dport pid (g_udp_generation s) now",
      OF assms(1) i n]) (use c key in \<open>simp_all add: conn_key_def\<close>)
qed

lemma add_connection_v6_flow:
  assumes "conn_inv s" and "find_conn s port udp True = None \<longrightarrow> usable s fresh"
    and s': "s' = add_connection_v6 fresh port udp src dst dport pid now s"
  shows "conn_inv s' \<and> (\<exists>c. flow_v6 port udp src dst dport pid (g_udp_generation s) now c \<and>
     (\<forall>k. connection_of s' k = (if k = (port, udp, True) then Some c else connection_of s k)))"
proof (cases "find_conn s port udp True")
  case None
  obtain a where a: "fresh = Some a" "conn_heap s a = None" using assms(2) None by (auto simp: usable_def split: option.splits)
  let ?c = "zero_conn\<lparr>c_src_port := port, c_is_udp := udp, c_src_ip := 0, c_orig_dest_ip := 0,
    c_is_ipv6 := True, c_src_ip6 := src, c_orig_dest_ip6 := dst, c_orig_dest_port := dport,
    c_proxy_config_id := pid, c_is_tracked := True, c_policy_generation := g_udp_generation s,
    c_last_activity := now\<rparr>"
  have key: "conn_key ?c = (port, udp, True)" by (simp add: conn_key_def)
  have new: "\<forall>a' c'. conn_heap s a' = Some c' \<longrightarrow> conn_key c' \<noteq> conn_key ?c"
    using None [unfolded find_conn_None_iff [OF assms(1)]] unfolding key .
  have s'': "s' = rev_insert a (s\<lparr>conn_heap := (conn_heap s)(a \<mapsto> ?c), connection_hash_table := (connection_hash_table s)
      (conn_bucket port := a # connection_hash_table s (conn_bucket port))\<rparr>)"
    by (simp add: s' add_connection_v6_def None a)
  have "c_is_tracked ?c" and "conn_bucket port = conn_bucket (c_src_port ?c)" by simp_all
  note i = insert_heap [OF assms(1) a(2) this(1) new this(2) s'']
  have n: "flow_v6 port udp src dst dport pid (g_udp_generation s) now (?c\<lparr>c_rev_bucket := rev_bucket_of ?c, c_in_rev := True\<rparr>)"
    by (simp add: flow_v6_def conn_key_def zero_conn_def)
  show ?thesis by (rule connection_of_written [where P = "flow_v6 port udp src dst dport pid (g_udp_generation s) now",
      OF assms(1) i n]) (use a(2) key in simp_all)
next
  case (Some a)
  then obtain c where c: "conn_heap s a = Some c" "conn_key c = (port, udp, True)"
    using find_conn_Some [OF assms(1)] by metis
  let ?f = "\<lambda>c. c\<lparr>c_is_ipv6 := True, c_src_ip6 := src, c_orig_dest_ip6 := dst, c_orig_dest_port := dport,
    c_proxy_config_id := pid, c_is_tracked := True, c_fin_flags := 0,
    c_policy_generation := g_udp_generation s, c_last_activity := now\<rparr>"
  let ?c = "?f (c\<lparr>c_in_rev := False\<rparr>)"
  have s'': "s' = rev_insert a (write_conn a ?f (rev_unlink a s))"
    by (simp add: s' add_connection_v6_def Some)
  have key: "conn_key ?c = conn_key c" using c(2) by (simp add: conn_key_def)
  note i = rekey_heap [OF assms(1) c(1), of ?f, OF key, folded s'']
  have n: "flow_v6 port udp src dst dport pid (g_udp_generation s) now (?c\<lparr>c_rev_bucket := rev_bucket_of ?c, c_in_rev := True\<rparr>)"
    using c(2) by (simp add: flow_v6_def conn_key_def)
  show ?thesis
    by (rule connection_of_written [where P = "flow_v6 port udp src dst dport pid (g_udp_generation s) now",
      OF assms(1) i n]) (use c key in \<open>simp_all add: conn_key_def\<close>)
qed


lemma remove_connection_flow:
  assumes "conn_inv s"
  shows "conn_inv (remove_connection port udp v6 s)"
    and "connection_of (remove_connection port udp v6 s) k =
      (if k = (port, udp, v6) then None else connection_of s k)"
proof -
  have "conn_inv (remove_connection port udp v6 s) \<and> connection_of (remove_connection port udp v6 s) k =
      (if k = (port, udp, v6) then None else connection_of s k)"
  proof (cases "find_conn s port udp v6")
    case None
    then show ?thesis using assms by (simp add: remove_connection_def find_conn_None)
  next
    case (Some a)
    then obtain c where c: "conn_heap s a = Some c" "conn_key c = (port, udp, v6)"
      using find_conn_Some [OF assms] by metis
    then have "conn_bucket port = conn_bucket (c_src_port c)" by (simp add: conn_key_def)
    note d = drop_heap [OF assms c(1) this]
    then show ?thesis
      using connection_of_del [OF assms d c(1), of k] c(2) by (simp add: remove_connection_def Some)
  qed
  then show "conn_inv (remove_connection port udp v6 s)"
    and "connection_of (remove_connection port udp v6 s) k =
      (if k = (port, udp, v6) then None else connection_of s k)" by simp_all
qed

lemma conn_inv_unaffected [simp]:
  "conn_inv (s\<lparr>pid_cache := x1\<rparr>) = conn_inv s"
  "conn_inv (s\<lparr>logged_connections := x2\<rparr>) = conn_inv s"
  "conn_inv (s\<lparr>g_udp_generation := x3\<rparr>) = conn_inv s"
  "conn_inv (s\<lparr>g_logged_count := x4\<rparr>) = conn_inv s"
  "conn_inv (s\<lparr>udp_direct_entries := x5\<rparr>) = conn_inv s"
  by (simp_all add: conn_inv_def)

lemma conn_inv_get:
  assumes "conn_inv s"
  shows "conn_inv (snd (get_connection_full port udp now s))"
    "conn_inv (snd (get_connection port udp now s))"
    "conn_inv (snd (get_connection_full_v6 port udp now s))"
    "conn_inv (connection_fin port v6 bits now s)"
    "conn_inv (udp_flow_stamp port v6 gen s)"
proof -
  have w: "conn_inv (write_conn a f s)" if "find_conn s p u v = Some a"
    "\<And>c. c_in_rev (f c) = c_in_rev c \<and> c_rev_bucket (f c) = c_rev_bucket c \<and> c_is_tracked (f c) = c_is_tracked c \<and>
      conn_key (f c) = conn_key c \<and> rev_bucket_of (f c) = rev_bucket_of c" for a f p u v
    using find_conn_Some [OF assms that(1)] conn_inv_write [OF assms, of a _ f] that(2) by metis
  show "conn_inv (snd (get_connection_full port udp now s))"
    "conn_inv (snd (get_connection port udp now s))"
    "conn_inv (snd (get_connection_full_v6 port udp now s))"
    "conn_inv (connection_fin port v6 bits now s)"
    "conn_inv (udp_flow_stamp port v6 gen s)"
    using assms
    by (auto simp: get_connection_full_def get_connection_def get_connection_full_v6_def connection_fin_def
      udp_flow_stamp_def touch_conn_def split: option.splits intro!: w)
qed

lemma sweep_chain_heap:
  assumes "conn_inv s" and "distinct as" and "\<forall>a \<in> set as. \<exists>c. conn_heap s a = Some c \<and> conn_bucket (c_src_port c) = i"
  shows "conn_inv (fold (\<lambda>a s. if conn_stale now (conn_at s a) then drop_connection i a s else s) as s)"
    and "conn_heap (fold (\<lambda>a s. if conn_stale now (conn_at s a) then drop_connection i a s else s) as s) =
      (\<lambda>a. if a \<in> set as \<and> conn_stale now (conn_at s a) then None else conn_heap s a)"
proof -
  let ?f = "\<lambda>a s. if conn_stale now (conn_at s a) then drop_connection i a s else s"
  have "conn_inv (fold ?f as s) \<and> conn_heap (fold ?f as s) =
      (\<lambda>a. if a \<in> set as \<and> conn_stale now (conn_at s a) then None else conn_heap s a)"
    using assms
  proof (induction as arbitrary: s)
    case (Cons a as)
    obtain c where c: "conn_heap s a = Some c" "i = conn_bucket (c_src_port c)" using Cons.prems(3) by auto
    note d = drop_heap [OF Cons.prems(1) c]
    show ?case
    proof (cases "conn_stale now (conn_at s a)")
      case True
      have "\<forall>a' \<in> set as. \<exists>c. conn_heap (drop_connection i a s) a' = Some c \<and> conn_bucket (c_src_port c) = i"
        using Cons.prems(2,3) by (auto simp: d(2))
      then have "conn_inv (fold ?f as (drop_connection i a s)) \<and> conn_heap (fold ?f as (drop_connection i a s)) =
          (\<lambda>x. if x \<in> set as \<and> conn_stale now (conn_at (drop_connection i a s) x) then None
               else conn_heap (drop_connection i a s) x)"
        using Cons.prems(2) by (intro Cons.IH [OF d(1)]) simp_all
      then show ?thesis using True Cons.prems(2) by (auto simp: d(2) conn_at_def fun_eq_iff)
    next
      case False
      then show ?thesis using Cons.IH [OF Cons.prems(1)] Cons.prems(2,3) by (auto simp: fun_eq_iff)
    qed
  qed simp
  then show "conn_inv (fold ?f as s)" "conn_heap (fold ?f as s) =
      (\<lambda>a. if a \<in> set as \<and> conn_stale now (conn_at s a) then None else conn_heap s a)" by simp_all
qed

definition reap :: "u64 \<Rightarrow> nat set \<Rightarrow> CONNECTION_INFO option \<Rightarrow> CONNECTION_INFO option" where
  "reap now B x = (case x of None \<Rightarrow> None
     | Some c \<Rightarrow> if conn_bucket (c_src_port c) \<in> B \<and> conn_stale now c then None else Some c)"

lemma sweep_bucket_heap:
  assumes "conn_inv s"
  shows "conn_inv (sweep_bucket now i s)" and "conn_heap (sweep_bucket now i s) a = reap now {i} (conn_heap s a)"
proof -
  note D = tables_okD [OF assms [unfolded conn_inv_def]]
  have "\<forall>a \<in> set (connection_hash_table s i). \<exists>c. conn_heap s a = Some c \<and> conn_bucket (c_src_port c) = i"
    using D(3) by blast
  note h = sweep_chain_heap [OF assms D(1) this, folded sweep_bucket_def]
  show "conn_inv (sweep_bucket now i s)" by (rule h)
  show "conn_heap (sweep_bucket now i s) a = reap now {i} (conn_heap s a)"
    unfolding h(2) D(3) by (auto simp: reap_def conn_at_def split: option.split)
qed

lemma sweep_all_heap:
  assumes "conn_inv s"
  shows "conn_inv (fold (sweep_bucket now) [0..<n] s) \<and>
    (\<forall>a. conn_heap (fold (sweep_bucket now) [0..<n] s) a = reap now {0..<n} (conn_heap s a))"
proof (induction n)
  case 0
  then show ?case using assms by (simp add: reap_def split: option.split)
next
  case (Suc n)
  let ?s = "fold (sweep_bucket now) [0..<n] s"
  have "reap now {n} (reap now {0..<n} x) = reap now {0..<Suc n} x" for x
    by (auto simp: reap_def less_Suc_eq split: option.split)
  then show ?case
    using sweep_bucket_heap [of ?s now n] Suc by simp
qed

lemma conn_bucket_lt: "conn_bucket port < CONNECTION_HASH_SIZE"
  by (simp add: conn_bucket_def)

lemma cleanup_heap:
  assumes "conn_inv s"
  shows "conn_inv (cleanup_stale_connections now now_cache s)"
    and "conn_heap (cleanup_stale_connections now now_cache s) a =
      (case conn_heap s a of None \<Rightarrow> None | Some c \<Rightarrow> if conn_stale now c then None else Some c)"
  using sweep_all_heap [OF assms, of now CONNECTION_HASH_SIZE] conn_bucket_lt
  by (auto simp: cleanup_stale_connections_def Let_def reap_def split: option.split)

lemma connection_of_filter:
  assumes "conn_inv s" and "conn_inv s'"
    and "\<And>a. conn_heap s' a = (case conn_heap s a of None \<Rightarrow> None | Some c \<Rightarrow> if P c then None else Some c)"
  shows "connection_of s' k = (case connection_of s k of None \<Rightarrow> None | Some c \<Rightarrow> if P c then None else Some c)"
proof -
  have iff: "connection_of s' k = Some c \<longleftrightarrow> connection_of s k = Some c \<and> \<not> P c" for c
    unfolding connection_of_iff [OF assms(1)] connection_of_iff [OF assms(2)] assms(3)
    by (auto split: option.splits if_splits)
  show ?thesis
  proof (cases "connection_of s k")
    case None
    then show ?thesis using iff by (metis not_None_eq option.case(1))
  next
    case (Some c)
    show ?thesis
    proof (cases "P c")
      case True
      then have "connection_of s' k = None" using iff Some by (metis not_None_eq option.inject)
      then show ?thesis using Some True by simp
    next
      case False
      then have "connection_of s' k = Some c" using iff Some by metis
      then show ?thesis using Some False by simp
    qed
  qed
qed

lemma udp_flow_validate_flow:
  assumes "conn_inv s"
    and r_def: "r = udp_flow_validate port v6 src src6 dst dst6 dport now s"
  shows "conn_inv (snd r)"
    and "fst r \<longleftrightarrow> (case connection_of s (port, True, v6) of None \<Rightarrow> False | Some c \<Rightarrow>
       c_orig_dest_port c = dport \<and>
       (if v6 then c_src_ip6 c = src6 \<and> c_orig_dest_ip6 c = dst6 else c_src_ip c = src \<and> c_orig_dest_ip c = dst) \<and>
       c_policy_generation c = g_udp_generation s \<and>
       (now \<le> c_last_activity c \<or> now - c_last_activity c \<le> 20000))"
    and "connection_of (snd r) k =
      (if k = (port, True, v6)
       then if fst r then map_option (\<lambda>c. c\<lparr>c_last_activity := now\<rparr>) (connection_of s k) else None
       else connection_of s k)"
proof -
  show "fst r \<longleftrightarrow> (case connection_of s (port, True, v6) of None \<Rightarrow> False | Some c \<Rightarrow>
       c_orig_dest_port c = dport \<and>
       (if v6 then c_src_ip6 c = src6 \<and> c_orig_dest_ip6 c = dst6 else c_src_ip c = src \<and> c_orig_dest_ip c = dst) \<and>
       c_policy_generation c = g_udp_generation s \<and>
       (now \<le> c_last_activity c \<or> now - c_last_activity c \<le> 20000))"
  proof (cases "find_conn s port True v6")
    case None
    then show ?thesis by (simp add: r_def udp_flow_validate_def find_conn_None)
  next
    case (Some a)
    then show ?thesis
      by (rule find_conn_Some [OF assms(1)]) (simp add: r_def udp_flow_validate_def Some Let_def)
  qed
  have "conn_inv (snd r) \<and> connection_of (snd r) k =
      (if k = (port, True, v6)
       then if fst r then map_option (\<lambda>c. c\<lparr>c_last_activity := now\<rparr>) (connection_of s k) else None
       else connection_of s k)"
  proof (cases "find_conn s port True v6")
    case None
    then show ?thesis using assms(1) by (simp add: r_def udp_flow_validate_def find_conn_None)
  next
    case (Some a)
    then obtain c where c: "conn_heap s a = Some c" "conn_key c = (port, True, v6)" "conn_at s a = c"
        "connection_of s (port, True, v6) = Some c"
      using find_conn_Some [OF assms(1)] by metis
    then have "conn_bucket port = conn_bucket (c_src_port c)" by (simp add: conn_key_def)
    note d = drop_heap [OF assms(1) c(1) this]
    note t = touch_flow [OF assms(1) c(1), of "\<lambda>c. c\<lparr>c_last_activity := now\<rparr>" k]
      conn_inv_write [OF assms(1) c(1), of "\<lambda>c. c\<lparr>c_last_activity := now\<rparr>"]
    show ?thesis
    proof (cases "fst r")
      case True
      then have "snd r = touch_conn a now s"
        by (auto simp: r_def udp_flow_validate_def Some Let_def split: if_splits)
      then show ?thesis using True t c by (simp add: touch_conn_def)
    next
      case False
      then have "snd r = drop_connection (conn_bucket port) a s"
        by (auto simp: r_def udp_flow_validate_def Some Let_def split: if_splits)
      then show ?thesis using False d connection_of_del [OF assms(1) d c(1), of k] c by simp
    qed
  qed
  then show "conn_inv (snd r)" "connection_of (snd r) k =
      (if k = (port, True, v6)
       then if fst r then map_option (\<lambda>c. c\<lparr>c_last_activity := now\<rparr>) (connection_of s k) else None
       else connection_of s k)" by simp_all
qed


lemma best_sender_sound:
  assumes "\<forall>x. best = Some x \<longrightarrow> (\<exists>c. Q c \<and> x = (c_src_ip6 c, c_src_port c, c_last_activity c))"
    and "\<forall>a \<in> set as. c_is_udp (conn_at s a) \<and> c_is_ipv6 (conn_at s a) \<and> c_orig_dest_port (conn_at s a) = port \<and>
       c_orig_dest_ip6 (conn_at s a) = ip6 \<longrightarrow> Q (conn_at s a)"
    and "best_sender s ip6 port as best = Some x"
  shows "\<exists>c. Q c \<and> x = (c_src_ip6 c, c_src_port c, c_last_activity c)"
  using assms
proof (induction as arbitrary: best)
  case (Cons a as)
  show ?case
    by (rule Cons.IH [OF _ _ Cons.prems(3) [unfolded best_sender.simps Let_def]])
      (use Cons.prems(1,2) in \<open>auto split: if_splits\<close>)
next
  case Nil
  then show ?case by (metis best_sender.simps(1))
qed

definition better_sender ::
  "ip6 \<Rightarrow> u16 \<Rightarrow> CONNECTION_INFO \<Rightarrow> (ip6 \<times> u16 \<times> u64) option \<Rightarrow> (ip6 \<times> u16 \<times> u64) option" where
  "better_sender ip6 port c best =
     (if c_is_udp c \<and> c_is_ipv6 c \<and> c_orig_dest_port c = port \<and> c_orig_dest_ip6 c = ip6 \<and>
         (case best of None \<Rightarrow> True | Some (_, _, t) \<Rightarrow> t < c_last_activity c)
      then Some (c_src_ip6 c, c_src_port c, c_last_activity c) else best)"

lemma best_sender_Cons:
  "best_sender s ip6 port (a # as) best = best_sender s ip6 port as (better_sender ip6 port (conn_at s a) best)"
  by (simp add: better_sender_def Let_def)

lemma better_sender_mono:
  "best = Some (i, p, t) \<Longrightarrow> \<exists>i' p' t'. better_sender ip6 port c best = Some (i', p', t') \<and> t \<le> t'"
  by (auto simp: better_sender_def)

lemma better_sender_new:
  "c_is_udp c \<Longrightarrow> c_is_ipv6 c \<Longrightarrow> c_orig_dest_port c = port \<Longrightarrow> c_orig_dest_ip6 c = ip6 \<Longrightarrow>
   \<exists>i' p' t'. better_sender ip6 port c best = Some (i', p', t') \<and> c_last_activity c \<le> t'"
  by (cases best) (auto simp: better_sender_def not_less)

lemma best_sender_mono:
  "best = Some (i, p, t) \<Longrightarrow> \<exists>i' p' t'. best_sender s ip6 port as best = Some (i', p', t') \<and> t \<le> t'"
proof (induction as arbitrary: best i p t)
  case (Cons a as)
  obtain i' p' t' where 1: "better_sender ip6 port (conn_at s a) best = Some (i', p', t')" "t \<le> t'"
    using better_sender_mono [OF Cons.prems] by blast
  from Cons.IH [OF 1(1)] 1(2) show ?case unfolding best_sender_Cons by (meson order_trans)
qed simp

lemma best_sender_max:
  assumes "a \<in> set as" and "c_is_udp (conn_at s a)" and "c_is_ipv6 (conn_at s a)"
    and "c_orig_dest_port (conn_at s a) = port" and "c_orig_dest_ip6 (conn_at s a) = ip6"
  shows "\<exists>i p t. best_sender s ip6 port as best = Some (i, p, t) \<and> c_last_activity (conn_at s a) \<le> t"
  using assms(1)
proof (induction as arbitrary: best)
  case (Cons x as)
  show ?case
  proof (cases "a = x")
    case True
    obtain i' p' t' where 1: "better_sender ip6 port (conn_at s a) best = Some (i', p', t')" "c_last_activity (conn_at s a) \<le> t'"
      using better_sender_new [OF assms(2-5)] by blast
    from best_sender_mono [OF 1(1)] 1(2) show ?thesis unfolding best_sender_Cons True by (meson order_trans)
  next
    case False
    then show ?thesis using Cons unfolding best_sender_Cons by simp
  qed
qed simp

section \<open>The contract of the flow table\<close>

locale flow_table =
  fixes get :: "'s \<Rightarrow> 'k \<Rightarrow> 'v option"
    and put :: "'a \<Rightarrow> 'k \<Rightarrow> 'v \<Rightarrow> 's \<Rightarrow> 's"
    and del :: "'k \<Rightarrow> 's \<Rightarrow> 's"
    and inv :: "'s \<Rightarrow> bool"
    and may_alloc :: "'s \<Rightarrow> 'a \<Rightarrow> bool"
  assumes get_put: "inv s \<Longrightarrow> may_alloc s a \<Longrightarrow> get (put a k v s) k' = (if k' = k then Some v else get s k')"
    and get_del: "inv s \<Longrightarrow> get (del k s) k' = (if k' = k then None else get s k')"
    and inv_put: "inv s \<Longrightarrow> may_alloc s a \<Longrightarrow> inv (put a k v s)"
    and inv_del: "inv s \<Longrightarrow> inv (del k s)"
begin

lemma del_after_put: "inv s \<Longrightarrow> may_alloc s a \<Longrightarrow> get (del k (put a k v s)) k' = (if k' = k then None else get s k')"
  by (simp add: get_put get_del inv_put)

lemma port_reuse:
  "inv s \<Longrightarrow> may_alloc s a \<Longrightarrow> may_alloc (put a k v s) a' \<Longrightarrow>
   get (put a' k w (put a k v s)) k' = (if k' = k then Some w else get s k')"
  by (simp add: get_put inv_put)

end

definition view_v4 :: "pb \<Rightarrow> u16 \<times> bool \<Rightarrow> (u32 \<times> u32 \<times> u16 \<times> u32 \<times> u64) option" where
  "view_v4 s k = map_option
     (\<lambda>c. (c_src_ip c, c_orig_dest_ip c, c_orig_dest_port c, c_proxy_config_id c, c_last_activity c))
     (connection_of s (fst k, snd k, False))"

definition view_v6 :: "pb \<Rightarrow> u16 \<times> bool \<Rightarrow> (ip6 \<times> ip6 \<times> u16 \<times> u32 \<times> u64) option" where
  "view_v6 s k = map_option
     (\<lambda>c. (c_src_ip6 c, c_orig_dest_ip6 c, c_orig_dest_port c, c_proxy_config_id c, c_last_activity c))
     (connection_of s (fst k, snd k, True))"

interpretation flows4: flow_table view_v4
  "\<lambda>fresh (port, udp) (src, dst, dport, pid, now) s. add_connection fresh port udp src dst dport pid now s"
  "\<lambda>(port, udp) s. remove_connection port udp False s" conn_inv usable
proof (unfold_locales, goal_cases)
  case (1 s a k v k')
  then show ?case
    using add_connection_flow [OF 1(1) impI [OF 1(2)] refl, of "fst k" "snd k" "fst v" "fst (snd v)" "fst (snd (snd v))"
        "fst (snd (snd (snd v)))" "snd (snd (snd (snd v)))"]
    by (cases k; cases k'; cases v) (auto simp: view_v4_def flow_v4_def)
next
  case (2 s k k')
  then show ?case by (cases k; cases k') (auto simp: view_v4_def remove_connection_flow)
next
  case (3 s a k v)
  then show ?case
    using add_connection_flow [OF 3(1) impI [OF 3(2)] refl, of "fst k" "snd k"]
    by (cases k; cases v) auto
next
  case (4 s k)
  then show ?case by (cases k) (simp add: remove_connection_flow)
qed

interpretation flows6: flow_table view_v6
  "\<lambda>fresh (port, udp) (src, dst, dport, pid, now) s. add_connection_v6 fresh port udp src dst dport pid now s"
  "\<lambda>(port, udp) s. remove_connection port udp True s" conn_inv usable
proof (unfold_locales, goal_cases)
  case (1 s a k v k')
  then show ?case
    using add_connection_v6_flow [OF 1(1) impI [OF 1(2)] refl, of "fst k" "snd k" "fst v" "fst (snd v)" "fst (snd (snd v))"
        "fst (snd (snd (snd v)))" "snd (snd (snd (snd v)))"]
    by (cases k; cases k'; cases v) (auto simp: view_v6_def flow_v6_def)
next
  case (2 s k k')
  then show ?case by (cases k; cases k') (auto simp: view_v6_def remove_connection_flow)
next
  case (3 s a k v)
  then show ?case
    using add_connection_v6_flow [OF 3(1) impI [OF 3(2)] refl, of "fst k" "snd k"]
    by (cases k; cases v) auto
next
  case (4 s k)
  then show ?case by (cases k) (simp add: remove_connection_flow)
qed

lemma get_connection_full_view:
  "conn_inv s \<Longrightarrow> fst (get_connection_full port udp t s) =
     map_option (\<lambda>(_, dst, dport, pid, _). (dst, dport, pid)) (view_v4 s (port, udp))"
  by (cases "find_conn s port udp False")
    (auto simp: get_connection_full_def view_v4_def find_conn_None elim: find_conn_Some)

text \<open>What the packet thread records for a flow is what the relay later reads back for its source
  port: destination, port and proxy; after a reuse of the port it is the last one; after a removal
  nothing.\<close>

theorem tracked_flow_round_trip:
  assumes "conn_inv s" and "usable s a" and "usable (add_connection a port udp src dst dport pid t s) a'"
  shows "fst (get_connection_full port udp t' (add_connection a port udp src dst dport pid t s)) = Some (dst, dport, pid) \<and>
     fst (get_connection_full port udp t' (add_connection a' port udp src2 dst2 dport2 pid2 t2
           (add_connection a port udp src dst dport pid t s))) = Some (dst2, dport2, pid2) \<and>
     fst (get_connection_full port udp t' (remove_connection port udp False
           (add_connection a port udp src dst dport pid t s))) = None"
  using flows4.get_put [OF assms(1,2), of "(port, udp)" "(src, dst, dport, pid, t)" "(port, udp)"]
    flows4.inv_put [OF assms(1,2), of "(port, udp)" "(src, dst, dport, pid, t)"]
    flows4.port_reuse [OF assms(1,2), of "(port, udp)" "(src, dst, dport, pid, t)" a' "(src2, dst2, dport2, pid2, t2)" "(port, udp)"]
    flows4.inv_put [of "add_connection a port udp src dst dport pid t s" a' "(port, udp)" "(src2, dst2, dport2, pid2, t2)"]
    flows4.del_after_put [OF assms(1,2), of "(port, udp)" "(src, dst, dport, pid, t)" "(port, udp)"]
    flows4.inv_del [of "add_connection a port udp src dst dport pid t s" "(port, udp)"] assms(3)
  by (simp add: get_connection_full_view)

text \<open>The reverse index answers relay replies correctly: it finds a sender exactly when an IPv6 UDP flow to
  that destination is tracked, and then the sender of the most recently active such flow.\<close>

theorem find_v6_udp_sender_correct:
  assumes "conn_inv s"
  shows "case find_v6_udp_sender ip6 port s of
      None \<Rightarrow> \<not> (\<exists>p c. connection_of s (p, True, True) = Some c \<and> c_orig_dest_ip6 c = ip6 \<and> c_orig_dest_port c = port)
    | Some (src, p) \<Rightarrow> (\<exists>c. connection_of s (p, True, True) = Some c \<and> c_src_ip6 c = src \<and>
        c_orig_dest_ip6 c = ip6 \<and> c_orig_dest_port c = port \<and>
        (\<forall>p' c'. connection_of s (p', True, True) = Some c' \<and> c_orig_dest_ip6 c' = ip6 \<and> c_orig_dest_port c' = port
           \<longrightarrow> c_last_activity c' \<le> c_last_activity c))"
proof -
  let ?l = "connection_rev_table s (rev_hash_v6 ip6 port)"
  note D = tables_okD [OF assms [unfolded conn_inv_def]]
  have in_rev: "\<exists>a \<in> set ?l. conn_at s a = c \<and> c_is_udp c \<and> c_is_ipv6 c"
    if f: "connection_of s (p, True, True) = Some c" "c_orig_dest_ip6 c = ip6" "c_orig_dest_port c = port" for p c
  proof -
    obtain a where a: "conn_heap s a = Some c" "conn_key c = (p, True, True)"
      using f(1) unfolding connection_of_iff [OF assms] by blast
    then have "rev_bucket_of c = rev_hash_v6 ip6 port" using f(2,3) by (simp add: rev_bucket_of_def conn_key_def)
    then have "a \<in> set ?l" using D(4) a by blast
    moreover have "conn_at s a = c \<and> c_is_udp c \<and> c_is_ipv6 c" using a by (simp add: conn_at_def conn_key_def)
    ultimately show ?thesis by blast
  qed
  show ?thesis
  proof (cases "best_sender s ip6 port ?l None")
    case None
    have "\<not> (\<exists>p c. connection_of s (p, True, True) = Some c \<and> c_orig_dest_ip6 c = ip6 \<and> c_orig_dest_port c = port)"
      using in_rev best_sender_max [where best = None and as = ?l and s = s and ?ip6.0 = ip6 and port = port] None
      by fastforce
    then show ?thesis by (simp add: find_v6_udp_sender_def None)
  next
    case (Some x)
    let ?Q = "\<lambda>c. connection_of s (c_src_port c, True, True) = Some c \<and> c_orig_dest_ip6 c = ip6 \<and> c_orig_dest_port c = port"
    have "\<forall>a \<in> set ?l. c_is_udp (conn_at s a) \<and> c_is_ipv6 (conn_at s a) \<and> c_orig_dest_port (conn_at s a) = port \<and>
        c_orig_dest_ip6 (conn_at s a) = ip6 \<longrightarrow> ?Q (conn_at s a)"
      unfolding connection_of_iff [OF assms] using D(4) by (force simp: conn_at_def conn_key_def)
    then obtain c where c: "?Q c" "x = (c_src_ip6 c, c_src_port c, c_last_activity c)"
      using best_sender_sound [where Q = ?Q and best = None, OF _ _ Some] by auto
    have "c_last_activity c' \<le> c_last_activity c"
      if "connection_of s (p', True, True) = Some c'" "c_orig_dest_ip6 c' = ip6" "c_orig_dest_port c' = port" for p' c'
      using in_rev [OF that] best_sender_max [where best = None and as = ?l and s = s and ?ip6.0 = ip6 and port = port] Some c(2) that
      by fastforce
    then show ?thesis using c by (auto simp: find_v6_udp_sender_def Some)
  qed
qed


theorem tracked_flow_round_trip_witness:
  "fst (get_connection_full 5000 False 9 (add_connection (Some 7) 5000 False 1 2 443 3 8 pb_init)) = Some (2, 443, 3)"
proof -
  have "usable pb_init (Some 7)" by (simp add: usable_def pb_init_def)
  moreover have "usable (add_connection (Some 7) 5000 False 1 2 443 3 8 pb_init) (Some 8)"
    by (simp add: usable_def add_connection_def find_conn_def pb_init_def empty_table_def rev_insert_fields)
  ultimately show ?thesis using tracked_flow_round_trip [OF conn_inv_init] by blast
qed

theorem find_v6_udp_sender_correct_witness:
  "find_v6_udp_sender (replicate 16 9) 53
     (add_connection_v6 (Some 7) 5000 True (replicate 16 8) (replicate 16 9) 53 1 4 pb_init) \<noteq> None"
proof -
  let ?s = "add_connection_v6 (Some 7) 5000 True (replicate 16 8) (replicate 16 9) 53 1 4 pb_init"
  have u: "find_conn pb_init 5000 True True = None \<longrightarrow> usable pb_init (Some 7)"
    by (simp add: usable_def pb_init_def)
  note f = add_connection_v6_flow [OF conn_inv_init u refl, of "replicate 16 8" "replicate 16 9" 53 1 4]
  have "\<exists>c. connection_of ?s (5000, True, True) = Some c \<and> c_orig_dest_ip6 c = replicate 16 9 \<and> c_orig_dest_port c = 53"
    using f by (auto simp: flow_v6_def)
  then show ?thesis
    using find_v6_udp_sender_correct [OF f [THEN conjunct1], of "replicate 16 9" 53]
    by (cases "find_v6_udp_sender (replicate 16 9) 53 ?s") (simp_all only: option.case not_False_eq_True option.distinct, blast)
qed

text \<open>A cached UDP decision survives only for the same addresses and port, under the same policy
  generation and within twenty seconds of the last packet; any other packet of the port drops the flow
  from both tables, and no other flow is touched.\<close>

theorem udp_flow_validate_spec:
  assumes "conn_inv s"
  shows "case udp_flow_validate port v6 src src6 dst dst6 dport now s of (valid, s') \<Rightarrow>
     conn_inv s' \<and>
     valid = (case connection_of s (port, True, v6) of None \<Rightarrow> False | Some c \<Rightarrow>
       c_orig_dest_port c = dport \<and>
       (if v6 then c_src_ip6 c = src6 \<and> c_orig_dest_ip6 c = dst6 else c_src_ip c = src \<and> c_orig_dest_ip c = dst) \<and>
       c_policy_generation c = g_udp_generation s \<and>
       (now \<le> c_last_activity c \<or> now - c_last_activity c \<le> 20000)) \<and>
     (\<forall>k. connection_of s' k =
       (if k = (port, True, v6)
        then if valid then map_option (\<lambda>c. c\<lparr>c_last_activity := now\<rparr>) (connection_of s k) else None
        else connection_of s k))"
  using udp_flow_validate_flow [OF assms refl, where port = port and ?v6.0 = v6 and src = src and ?src6.0 = src6
      and dst = dst and ?dst6.0 = dst6 and dport = dport and now = now]
  by (simp add: case_prod_beta)

lemma g_udp_generation_add [simp]:
  "g_udp_generation (add_connection fresh port udp src dst dport pid now s) = g_udp_generation s"
  "g_udp_generation (add_connection_v6 fresh port udp src6 dst6 dport pid now s) = g_udp_generation s"
  by (simp_all add: add_connection_def add_connection_v6_def rev_insert_def rev_unlink_def write_conn_def Let_def
      split: option.split)

theorem udp_flow_validate_spec_witness:
  "fst (udp_flow_validate 4000 False 1 [] 2 [] 53 200 (add_connection (Some 7) 4000 True 1 2 53 3 100 pb_init))"
proof -
  let ?s = "add_connection (Some 7) 4000 True 1 2 53 3 100 pb_init"
  have "usable pb_init (Some 7)" by (simp add: usable_def pb_init_def)
  then obtain c where "conn_inv ?s" "connection_of ?s (4000, True, False) = Some c"
      "flow_v4 4000 True 1 2 53 3 (g_udp_generation pb_init) 100 c"
    using add_connection_flow [OF conn_inv_init impI refl, of 4000 True "Some 7" 1 2 53 3 100] by auto
  then show ?thesis
    using udp_flow_validate_spec [of ?s, where port = 4000 and ?v6.0 = False and src = 1 and ?src6.0 = "[]"
        and dst = 2 and ?dst6.0 = "[]" and dport = 53 and now = 200]
    by (auto simp: flow_v4_def split: prod.splits)
qed

lemma udp_direct_slot_take:
  assumes "n = (if v6 then 16 else 4)" and "take n src = take n src'" and "take n dst = take n dst'"
  shows "udp_direct_slot v6 src sp dst dp = udp_direct_slot v6 src' sp dst' dp"
proof -
  have "src ! i = src' ! i" "dst ! i = dst' ! i" if "i < n" for i
    using that assms(2,3) by (metis nth_take)+
  then have "foldl (\<lambda>h i. h * 31 + ucast (src ! i) + ucast (dst ! i)) (a :: u32) [0..<n] =
      foldl (\<lambda>h i. h * 31 + ucast (src' ! i) + ucast (dst' ! i)) a [0..<n]" for a
    by (intro foldl_cong) auto
  then show ?thesis unfolding udp_direct_slot_def assms(1) by simp
qed

text \<open>The table of direct UDP flows is a cache, not an oracle: right after a flow was remembered a lookup
  succeeds for that flow only, for five seconds and under the generation it was decided in; a different flow that
  shares the slot misses, and flows in other slots keep their answer.\<close>

theorem udp_direct_cached_after_remember:
  assumes "length src = 16 \<and> length dst = 16"
  shows "udp_direct_cached v6' src' sp' dst' dp' t' (udp_direct_remember v6 src sp dst dp gen t s) =
     (if v6' = v6 \<and> sp' = sp \<and> dp' = dp \<and> take (if v6 then 16 else 4) src' = take (if v6 then 16 else 4) src \<and>
         take (if v6 then 16 else 4) dst' = take (if v6 then 16 else 4) dst
      then t' < t + 5000 \<and> gen = g_udp_generation s
      else if udp_direct_slot v6' src' sp' dst' dp' = udp_direct_slot v6 src sp dst dp then False
      else udp_direct_cached v6' src' sp' dst' dp' t' s)"
  using assms udp_direct_slot_take [of _ v6 src' src dst' dst sp dp]
  by (auto simp: udp_direct_cached_def udp_direct_remember_def Let_def)

theorem udp_direct_cached_after_remember_witness:
  "udp_direct_cached False (replicate 16 1) 4000 (replicate 16 2) 53 5004
     (udp_direct_remember False (replicate 16 1) 4000 (replicate 16 2) 53 1 5 pb_init)"
  using udp_direct_cached_after_remember [of "replicate 16 1" "replicate 16 2" False "replicate 16 1" 4000
      "replicate 16 2" 53 5004 False 4000 53 1 5 pb_init] by (simp add: pb_init_def)

text \<open>The periodic sweep removes exactly the flows whose idle time exceeds their timeout (a minute once both
  sides have sent FIN, thirty minutes otherwise) and keeps the tables consistent.\<close>

theorem cleanup_stale_connections_exact:
  assumes "conn_inv s"
  shows "conn_inv (cleanup_stale_connections now now_cache s) \<and>
     connection_of (cleanup_stale_connections now now_cache s) k =
       (case connection_of s k of None \<Rightarrow> None | Some c \<Rightarrow>
          if (if c_fin_flags c = 3 then 60000 else 1800000) < now - c_last_activity c then None else Some c)"
proof -
  note f = connection_of_filter [OF assms cleanup_heap(1) [OF assms, of now now_cache]
      cleanup_heap(2) [OF assms, of now now_cache], of k]
  show ?thesis unfolding f using cleanup_heap(1) [OF assms] by (simp add: conn_stale_def split: option.split)
qed

theorem cleanup_stale_connections_exact_witness:
  "connection_of (cleanup_stale_connections 1800101 5 (add_connection (Some 7) 4000 True 1 2 53 3 100 pb_init))
     (4000, True, False) = None"
proof -
  have u: "find_conn pb_init 4000 True False = None \<longrightarrow> usable pb_init (Some 7)"
    by (simp add: usable_def pb_init_def)
  obtain c where c: "flow_v4 4000 True 1 2 53 3 (g_udp_generation pb_init) 100 c"
      "connection_of (add_connection (Some 7) 4000 True 1 2 53 3 100 pb_init) (4000, True, False) = Some c"
      "conn_inv (add_connection (Some 7) 4000 True 1 2 53 3 100 pb_init)"
    using add_connection_flow [OF conn_inv_init u refl, of 1 2 53 3 100] by auto
  then have "c_last_activity c = 100" "c_fin_flags c = 0" by (simp_all add: flow_v4_def)
  then show ?thesis using cleanup_stale_connections_exact [OF c(3), of 1800101 5 "(4000, True, False)"] c(2) by simp
qed

text \<open>The sweep compares with unsigned subtraction and a tick read before it takes the lock: a flow refreshed
  after that tick, be it by one millisecond, is taken for expired and removed.\<close>

theorem cleanup_reaps_refreshed_flow:
  assumes "conn_inv s" and "connection_of s k = Some c" and "c_last_activity c = now + 1"
  shows "connection_of (cleanup_stale_connections now now_cache s) k = None"
proof -
  have "conn_stale now c" using assms(3) by (simp add: conn_stale_def)
  then show ?thesis
    using connection_of_filter [OF assms(1) cleanup_heap(1) [OF assms(1)] cleanup_heap(2) [OF assms(1)]] assms(2) by simp
qed

theorem cleanup_reaps_refreshed_flow_witness:
  "connection_of (cleanup_stale_connections 99 99 (add_connection (Some 7) 4000 True 1 2 53 3 100 pb_init))
     (4000, True, False) = None"
proof -
  let ?s = "add_connection (Some 7) 4000 True 1 2 53 3 100 pb_init"
  have "usable pb_init (Some 7)" by (simp add: usable_def pb_init_def)
  then obtain c where "conn_inv ?s" "connection_of ?s (4000, True, False) = Some c" "c_last_activity c = 100"
    using add_connection_flow [OF conn_inv_init impI refl, of 4000 True "Some 7" 1 2 53 3 100]
    by (auto simp: flow_v4_def)
  then show ?thesis by (intro cleanup_reaps_refreshed_flow) simp_all
qed

text \<open>The list of reported connections never exceeds a hundred entries and its counter is exact, whatever is
  added, cleared or swept; a connection that was just added is found again.\<close>

theorem logged_connections_bounded:
  assumes "logged_inv s"
  shows "logged_inv (add_logged_connection alloc pid ip port action s) \<and>
     logged_inv (clear_logged_connections s) \<and>
     logged_inv (cleanup_stale_connections now now_cache s) \<and>
     is_connection_already_logged pid ip port action (add_logged_connection True pid ip port action s)"
proof -
  have w: "logged_connections (drop_connection b a s) = logged_connections s \<and>
      g_logged_count (drop_connection b a s) = g_logged_count s" for b a s
    by (simp add: drop_connection_def rev_unlink_def write_conn_def Let_def)
  have "logged_connections (fold (\<lambda>a s. if conn_stale t (conn_at s a) then drop_connection i a s else s) as s) = logged_connections s \<and>
      g_logged_count (fold (\<lambda>a s. if conn_stale t (conn_at s a) then drop_connection i a s else s) as s) = g_logged_count s" for t i as s
    by (induction as arbitrary: s) (simp_all add: w)
  then have "logged_connections (fold (sweep_bucket t) bs s) = logged_connections s \<and>
      g_logged_count (fold (sweep_bucket t) bs s) = g_logged_count s" for t bs s
    by (induction bs arbitrary: s) (simp_all add: sweep_bucket_def)
  then have "logged_inv (cleanup_stale_connections now now_cache s)"
    using assms by (simp add: cleanup_stale_connections_def logged_inv_def Let_def)
  moreover have "logged_inv (add_logged_connection alloc pid ip port action s)"
    using assms by (auto simp: add_logged_connection_def trim_logged_def logged_inv_def Let_def)
  ultimately show ?thesis
    by (simp add: clear_logged_connections_def logged_inv_def is_connection_already_logged_def
        add_logged_connection_def Let_def)
qed

theorem logged_connections_bounded_witness:
  "logged_inv (add_logged_connection True 4 5 443 RULE_ACTION_PROXY pb_init)"
proof -
  have "logged_inv pb_init" by (simp add: logged_inv_def pb_init_def)
  then show ?thesis using logged_connections_bounded by blast
qed


section \<open>The table as a state machine\<close>

text \<open>Every operation on the table, in any order, with any arguments; \<open>calloc\<close> either fails or returns
  an address that is not in use.\<close>

inductive conn_step :: "pb \<Rightarrow> pb \<Rightarrow> bool" where
  "fresh = None \<or> usable s fresh \<Longrightarrow> conn_step s (add_connection fresh port udp src dst dport pid now s)"
| "fresh = None \<or> usable s fresh \<Longrightarrow> conn_step s (add_connection_v6 fresh port udp src6 dst6 dport pid now s)"
| "conn_step s (snd (get_connection port udp now s))"
| "conn_step s (snd (get_connection_full port udp now s))"
| "conn_step s (snd (get_connection_full_v6 port udp now s))"
| "conn_step s (remove_connection port udp v6 s)"
| "conn_step s (connection_fin port v6 bits now s)"
| "conn_step s (udp_flow_stamp port v6 gen s)"
| "conn_step s (snd (udp_flow_validate port v6 src src6 dst dst6 dport now s))"
| "conn_step s (udp_direct_remember v6 src6 port dst6 dport gen now s)"
| "conn_step s (invalidate_udp_decisions s)"
| "conn_step s (cleanup_stale_connections now now_cache s)"

lemma conn_inv_add:
  assumes "conn_inv s" and "fresh = None \<or> usable s fresh"
  shows "conn_inv (add_connection fresh port udp src dst dport pid now s)"
    and "conn_inv (add_connection_v6 fresh port udp src6 dst6 dport pid now s)"
proof -
  show "conn_inv (add_connection fresh port udp src dst dport pid now s)"
  proof (cases "find_conn s port udp False = None \<and> fresh = None")
    case True
    then show ?thesis using assms(1) by (simp add: add_connection_def)
  next
    case False
    then show ?thesis using add_connection_flow [OF assms(1) _ refl] assms(2) by blast
  qed
  show "conn_inv (add_connection_v6 fresh port udp src6 dst6 dport pid now s)"
  proof (cases "find_conn s port udp True = None \<and> fresh = None")
    case True
    then show ?thesis using assms(1) by (simp add: add_connection_v6_def)
  next
    case False
    then show ?thesis using add_connection_v6_flow [OF assms(1) _ refl] assms(2) by blast
  qed
qed

lemma conn_step_inv: "conn_step s s' \<Longrightarrow> conn_inv s \<Longrightarrow> conn_inv s'"
  by (induction rule: conn_step.induct)
    (simp_all add: conn_inv_add conn_inv_get remove_connection_flow udp_flow_validate_flow(1) cleanup_heap
      udp_direct_remember_def invalidate_udp_decisions_def Let_def)



text \<open>A policy change revokes every cached UDP verdict at once: after the generation is advanced, a flow
  stamped with an earlier generation no longer validates and no remembered direct flow is served.\<close>

theorem invalidate_revokes:
  assumes "conn_inv s" and "connection_of s (port, True, v6) = Some c"
    and "c_policy_generation c \<noteq> g_udp_generation s + 1"
    and "ud_generation (udp_direct_entries s (udp_direct_slot v6 srcb port dstb dport)) \<noteq> g_udp_generation s + 1"
  shows "\<not> fst (udp_flow_validate port v6 src src6 dst dst6 dport now (invalidate_udp_decisions s)) \<and>
     \<not> udp_direct_cached v6 srcb port dstb dport now (invalidate_udp_decisions s)"
proof -
  let ?s = "invalidate_udp_decisions s"
  have "conn_inv ?s" using assms(1) by (simp add: invalidate_udp_decisions_def)
  moreover have "connection_of ?s (port, True, v6) = Some c"
    using assms(2) by (simp add: connection_of_def find_conn_def conn_at_def invalidate_udp_decisions_def
        split: option.splits)
  moreover have "g_udp_generation ?s = g_udp_generation s + 1" by (simp add: invalidate_udp_decisions_def)
  ultimately show ?thesis
    using udp_flow_validate_flow(2) [OF \<open>conn_inv ?s\<close> refl, of port v6 src src6 dst dst6 dport now] assms(3,4)
    by (auto simp: udp_direct_cached_def Let_def invalidate_udp_decisions_def)
qed

theorem invalidate_revokes_witness:
  "\<not> fst (udp_flow_validate 4000 False 1 [] 2 [] 53 200
     (invalidate_udp_decisions (add_connection (Some 7) 4000 True 1 2 53 3 100 pb_init)))"
proof -
  let ?s = "add_connection (Some 7) 4000 True 1 2 53 3 100 pb_init"
  have "usable pb_init (Some 7)" by (simp add: usable_def pb_init_def)
  then obtain c where "conn_inv ?s" "connection_of ?s (4000, True, False) = Some c"
      "flow_v4 4000 True 1 2 53 3 (g_udp_generation pb_init) 100 c"
    using add_connection_flow [OF conn_inv_init impI refl, of 4000 True "Some 7" 1 2 53 3 100] by auto
  moreover have "g_udp_generation pb_init = 1" and "udp_direct_entries ?s = (\<lambda>_. empty_direct_entry)"
    by (simp_all add: pb_init_def add_connection_def find_conn_def empty_table_def rev_insert_def write_conn_def Let_def)
  ultimately show ?thesis
    using invalidate_revokes [of ?s 4000 False c "[]" "[]" 53 1 "[]" 2 "[]" 200]
    by (simp add: flow_v4_def empty_direct_entry_def)
qed

end
