(* ===== verification/PB_Process.thy ===== *)
theory PB_Process
  imports PB_Conntrack
begin

text \<open>
  \<open>pb_process.c\<close>: which process owns a local endpoint. The owner tables of Windows are read
  into a scratch buffer that only grows; what they say is cached per endpoint (\<open>pid_cache\<close>);
  socket and flow events are cached separately (\<open>owner_cache\<close>). The theorems show that the
  buffer always has the room a table call is told it has, that rows without an owner are
  skipped, that the PID cache is a timed cache, that an event lookup returns the most specific
  live entry, and that closing an endpoint erases every trace of it.
\<close>

section \<open>Owner tables\<close>

text \<open>A row of one of the four tables, over the type of its local address, and what
  \<open>GetExtendedTcpTable\<close> and \<open>GetExtendedUdpTable\<close> answer: the rows and the size used, the size
  that would be needed, or another error. The \<open>n\<close>-th call of a fetch gets the size of the
  buffer (\<open>None\<close>: no buffer).\<close>

record 'a OWNER_ROW =
  row_local_addr :: 'a
  row_local_port :: u16
  row_pid :: u32

datatype 'r table_rc = NO_ERROR u32 "'r list" | ERROR_INSUFFICIENT_BUFFER u32 | OTHER_ERROR

type_synonym 'a table_call = "nat \<Rightarrow> u32 option \<Rightarrow> 'a OWNER_ROW table_rc"

record owner_os =
  ow_tcp4 :: "u32 table_call"
  ow_udp4 :: "u32 table_call"
  ow_tcp6 :: "ip6 table_call"
  ow_udp6 :: "ip6 table_call"
  ow_realloc :: "u32 \<Rightarrow> bool"
  ow_malloc :: bool

text \<open>The doubling loop, with fuel; the loop ends within 33 rounds from any capacity but 0.\<close>

fun grow_cap :: "nat \<Rightarrow> u32 \<Rightarrow> u32 \<Rightarrow> u32 option" where
  "grow_cap 0 newcap need = None"
| "grow_cap (Suc n) newcap need =
     (if newcap < need
      then if 0xFFFFFFFF div 2 < newcap then Some need else grow_cap n (newcap * 2) need
      else Some newcap)"

definition pidtbl_reserve :: "(u32 \<Rightarrow> bool) \<Rightarrow> u32 \<Rightarrow> pb \<Rightarrow> bool \<times> pb" where
  "pidtbl_reserve realloc need s =
     (if g_pidtbl_cap s < need
      then (case grow_cap 33 (if g_pidtbl_cap s \<noteq> 0 then g_pidtbl_cap s else 16384) need of
              None \<Rightarrow> (False, s)
            | Some newcap \<Rightarrow>
                if realloc newcap then (True, s\<lparr>g_pidtbl_cap := newcap\<rparr>) else (False, s))
      else (g_pidtbl_cap s \<noteq> 0, s))"

fun fetch_attempts ::
  "'a table_call \<Rightarrow> (u32 \<Rightarrow> bool) \<Rightarrow> nat \<Rightarrow> nat \<Rightarrow> u32 \<Rightarrow> pb \<Rightarrow> 'a OWNER_ROW list option \<times> pb" where
  "fetch_attempts call realloc 0 i sz s = (None, s)"
| "fetch_attempts call realloc (Suc n) i sz s =
     (if 0xFFFFFFFF - sz div 4 - 4096 < sz then (None, s)
      else let sz' = sz + (sz div 4 + 4096) in
        case pidtbl_reserve realloc sz' s of
          (False, s') \<Rightarrow> (None, s')
        | (True, s') \<Rightarrow>
            (case call i (Some sz') of
               NO_ERROR _ rows \<Rightarrow> (Some rows, s')
             | OTHER_ERROR \<Rightarrow> (None, s')
             | ERROR_INSUFFICIENT_BUFFER got \<Rightarrow> fetch_attempts call realloc n (i + 1) got s'))"

definition owner_table_fetch ::
  "'a table_call \<Rightarrow> (u32 \<Rightarrow> bool) \<Rightarrow> pb \<Rightarrow> 'a OWNER_ROW list option \<times> pb" where
  "owner_table_fetch call realloc s =
     (if g_pidtbl_cap s \<noteq> 0
      then (case call 0 (Some (g_pidtbl_cap s)) of
              NO_ERROR _ rows \<Rightarrow> (Some rows, s)
            | OTHER_ERROR \<Rightarrow> (None, s)
            | ERROR_INSUFFICIENT_BUFFER sz \<Rightarrow> fetch_attempts call realloc 4 1 sz s)
      else (case call 0 None of
              NO_ERROR sz _ \<Rightarrow> fetch_attempts call realloc 4 1 sz s
            | OTHER_ERROR \<Rightarrow> (None, s)
            | ERROR_INSUFFICIENT_BUFFER sz \<Rightarrow> fetch_attempts call realloc 4 1 sz s))"

section \<open>The PID cache\<close>

definition pid_key :: "PID_CACHE_ENTRY \<Rightarrow> u32 \<times> u16 \<times> bool" where
  "pid_key e = (pe_src_ip e, pe_src_port e, pe_is_udp e)"

definition pid_cache_hash :: "u32 \<times> u16 \<times> bool \<Rightarrow> nat" where
  "pid_cache_hash k = (case k of (src_ip, src_port, is_udp) \<Rightarrow>
     unat (src_ip XOR push_bit 16 (ucast src_port) XOR (if is_udp then 0x80000000 else 0))
       mod PID_CACHE_SIZE)"

definition get_cached_pid :: "u32 \<Rightarrow> u16 \<Rightarrow> bool \<Rightarrow> u64 \<Rightarrow> pb \<Rightarrow> u32" where
  "get_cached_pid src_ip src_port is_udp now s =
     (case find (\<lambda>e. pid_key e = (src_ip, src_port, is_udp))
             (pid_cache s (pid_cache_hash (src_ip, src_port, is_udp))) of
        None \<Rightarrow> 0
      | Some e \<Rightarrow> if now - pe_timestamp e < PID_CACHE_TTL_MS then pe_pid e else 0)"

definition cache_pid :: "bool \<Rightarrow> u32 \<Rightarrow> u16 \<Rightarrow> u32 \<Rightarrow> bool \<Rightarrow> u64 \<Rightarrow> pb \<Rightarrow> pb" where
  "cache_pid alloc src_ip src_port pid is_udp now s =
     s\<lparr>pid_cache := chain_put pid_cache_hash pid_key (src_ip, src_port, is_udp)
         (\<lambda>e. e\<lparr>pe_pid := pid, pe_timestamp := now\<rparr>)
         (if alloc then Some \<lparr>pe_src_ip = src_ip, pe_src_port = src_port, pe_pid = pid,
                              pe_timestamp = now, pe_is_udp = is_udp\<rparr> else None)
         (pid_cache s)\<rparr>"

definition clear_pid_cache :: "pb \<Rightarrow> pb" where
  "clear_pid_cache s = s\<lparr>pid_cache := (\<lambda>i. if i < PID_CACHE_SIZE then [] else pid_cache s i)\<rparr>"

definition remove_cached_pid :: "u32 \<Rightarrow> u16 \<Rightarrow> bool \<Rightarrow> pb \<Rightarrow> pb" where
  "remove_cached_pid src_ip src_port is_udp s =
     (let h = pid_cache_hash (src_ip, src_port, is_udp) in
      s\<lparr>pid_cache := (pid_cache s)
          (h := remove_first (\<lambda>e. pid_key e = (src_ip, src_port, is_udp)) (pid_cache s h))\<rparr>)"

definition cleanup_stale_pid_cache :: "u64 \<Rightarrow> pb \<Rightarrow> pb" where
  "cleanup_stale_pid_cache now s =
     s\<lparr>pid_cache := chain_sweep PID_CACHE_SIZE (\<lambda>e. PID_CACHE_TTL_MS \<le> now - pe_timestamp e) (pid_cache s)\<rparr>"

section \<open>From endpoint to process\<close>

text \<open>The pid of the first row that satisfies \<open>P\<close>, or 0.\<close>

definition first_pid :: "('a OWNER_ROW \<Rightarrow> bool) \<Rightarrow> 'a OWNER_ROW list \<Rightarrow> u32" where
  "first_pid P rows = (case find P rows of None \<Rightarrow> 0 | Some row \<Rightarrow> row_pid row)"

definition get_process_id_from_connection :: "owner_os \<Rightarrow> u32 \<Rightarrow> u16 \<Rightarrow> u64 \<Rightarrow> pb \<Rightarrow> u32 \<times> pb" where
  "get_process_id_from_connection ow src_ip src_port now s =
     (let cached_pid = get_cached_pid src_ip src_port False now s in
      if cached_pid \<noteq> 0 then (cached_pid, s)
      else case owner_table_fetch (ow_tcp4 ow) (ow_realloc ow) s of
        (None, s') \<Rightarrow> (0, s')
      | (Some rows, s') \<Rightarrow>
          let pid = first_pid (\<lambda>r. row_pid r \<noteq> 0 \<and> row_local_addr r = src_ip \<and> row_local_port r = src_port) rows
          in (pid, if pid \<noteq> 0 then cache_pid (ow_malloc ow) src_ip src_port pid False now s' else s'))"

definition get_process_id_from_udp_connection :: "owner_os \<Rightarrow> u32 \<Rightarrow> u16 \<Rightarrow> u64 \<Rightarrow> pb \<Rightarrow> u32 \<times> pb" where
  "get_process_id_from_udp_connection ow src_ip src_port now s =
     (let cached_pid = get_cached_pid src_ip src_port True now s in
      if cached_pid \<noteq> 0 then (cached_pid, s)
      else case owner_table_fetch (ow_udp4 ow) (ow_realloc ow) s of
        (None, s') \<Rightarrow> (0, s')
      | (Some rows, s') \<Rightarrow>
          let exact = first_pid (\<lambda>r. row_local_addr r = src_ip \<and> row_local_port r = src_port) rows;
              pid = (if exact = 0
                     then first_pid (\<lambda>r. row_local_addr r = 0 \<and> row_local_port r = src_port) rows
                     else exact)
          in (pid, if pid \<noteq> 0 then cache_pid (ow_malloc ow) src_ip src_port pid True now s' else s'))"

definition get_process_id_from_connection_v6 :: "owner_os \<Rightarrow> ip6 \<Rightarrow> u16 \<Rightarrow> pb \<Rightarrow> u32 \<times> pb" where
  "get_process_id_from_connection_v6 ow src_ip6 src_port s =
     (case owner_table_fetch (ow_tcp6 ow) (ow_realloc ow) s of
        (None, s') \<Rightarrow> (0, s')
      | (Some rows, s') \<Rightarrow>
          (first_pid (\<lambda>r. row_pid r \<noteq> 0 \<and> row_local_port r = src_port \<and> row_local_addr r = src_ip6) rows, s'))"

definition get_process_id_from_udp_connection_v6 :: "owner_os \<Rightarrow> ip6 \<Rightarrow> u16 \<Rightarrow> pb \<Rightarrow> u32 \<times> pb" where
  "get_process_id_from_udp_connection_v6 ow src_ip6 src_port s =
     (case owner_table_fetch (ow_udp6 ow) (ow_realloc ow) s of
        (None, s') \<Rightarrow> (0, s')
      | (Some rows, s') \<Rightarrow>
          (first_pid (\<lambda>r. row_local_port r = src_port \<and>
             (row_local_addr r = src_ip6 \<or> row_local_addr r = replicate 16 0)) rows, s'))"

text \<open>A name that does not fit the buffer makes \<open>WideCharToMultiByte\<close> fail.\<close>

definition get_process_name_from_pid :: "os \<Rightarrow> u32 \<Rightarrow> nat \<Rightarrow> string option" where
  "get_process_name_from_pid os pid name_size =
     (if pid = 0 then None
      else if pid = 4 then Some (strncpy_trunc name_size ''System'')
      else case os_process_image os pid of
        None \<Rightarrow> None
      | Some name \<Rightarrow> if length name < name_size then Some name else None)"

section \<open>Owner events\<close>

definition owner_cache_hash :: "u16 \<Rightarrow> bool \<Rightarrow> nat" where
  "owner_cache_hash local_port is_udp =
     unat (push_bit 16 (ucast local_port) XOR (if is_udp then 0x9E3779B9 else 0x85EBCA6B :: u32))
       mod OWNER_CACHE_SIZE"

definition address_is_unspecified :: "ip6 \<Rightarrow> bool" where
  "address_is_unspecified addr \<longleftrightarrow> addr = replicate 16 0"

text \<open>The score of an entry for a flow, \<open>None\<close> when it does not apply.\<close>

definition owner_score :: "u64 \<Rightarrow> ip6 \<Rightarrow> u16 \<Rightarrow> ip6 \<Rightarrow> u16 \<Rightarrow> bool \<Rightarrow> OWNER_CACHE_ENTRY \<Rightarrow> int option" where
  "owner_score now local_addr local_port remote_addr remote_port is_udp e =
     (if oe_local_port e \<noteq> local_port \<or> oe_is_udp e \<noteq> is_udp \<or> OWNER_CACHE_TTL_MS \<le> now - oe_timestamp e
      then None
      else
        let local_exact = (oe_local_addr e = local_addr);
            local_wildcard = address_is_unspecified (oe_local_addr e);
            remote_exact = (oe_remote_port e = remote_port \<and> oe_remote_addr e = remote_addr);
            remote_wildcard = (oe_remote_port e = 0 \<and> address_is_unspecified (oe_remote_addr e))
        in if \<not> local_exact \<and> \<not> local_wildcard then None
           else if \<not> remote_exact \<and> \<not> remote_wildcard then None
           else Some ((if local_exact then 2 else 0) + (if remote_exact then 2 else 0)))"

fun owner_scan :: "(OWNER_CACHE_ENTRY \<Rightarrow> int option) \<Rightarrow> OWNER_CACHE_ENTRY list \<Rightarrow> int \<Rightarrow> u32 \<Rightarrow> u32" where
  "owner_scan score [] best_score pid = pid"
| "owner_scan score (e # es) best_score pid =
     (case score e of
        None \<Rightarrow> owner_scan score es best_score pid
      | Some n \<Rightarrow>
          if best_score < n
          then if n = 4 then oe_pid e else owner_scan score es n (oe_pid e)
          else owner_scan score es best_score pid)"

definition get_owner_event_pid :: "ip6 \<Rightarrow> u16 \<Rightarrow> ip6 \<Rightarrow> u16 \<Rightarrow> bool \<Rightarrow> u64 \<Rightarrow> pb \<Rightarrow> u32" where
  "get_owner_event_pid local_addr local_port remote_addr remote_port is_udp now s =
     owner_scan (owner_score now local_addr local_port remote_addr remote_port is_udp)
       (owner_cache s (owner_cache_hash local_port is_udp)) (- 1) 0"

definition owner_key :: "OWNER_CACHE_ENTRY \<Rightarrow> u64 \<times> u8 \<times> u16 \<times> u16 \<times> bool \<times> ip6 \<times> ip6" where
  "owner_key e = (oe_endpoint_id e, oe_source_layer e, oe_local_port e, oe_remote_port e, oe_is_udp e,
     oe_local_addr e, oe_remote_addr e)"

definition owner_key_hash :: "u64 \<times> u8 \<times> u16 \<times> u16 \<times> bool \<times> ip6 \<times> ip6 \<Rightarrow> nat" where
  "owner_key_hash k = (case k of (_, _, local_port, _, is_udp, _, _) \<Rightarrow> owner_cache_hash local_port is_udp)"

definition cache_owner_event ::
  "bool \<Rightarrow> ip6 \<Rightarrow> u16 \<Rightarrow> ip6 \<Rightarrow> u16 \<Rightarrow> bool \<Rightarrow> u32 \<Rightarrow> u64 \<Rightarrow> u8 \<Rightarrow> u64 \<Rightarrow> pb \<Rightarrow> pb" where
  "cache_owner_event alloc local_addr local_port remote_addr remote_port is_udp pid endpoint_id source_layer now s =
     (if pid = 0 \<or> local_port = 0 then s
      else
        let s1 = (if is_udp then invalidate_udp_decisions s else s) in
        s1\<lparr>owner_cache := chain_put owner_key_hash owner_key
             (endpoint_id, source_layer, local_port, remote_port, is_udp, local_addr, remote_addr)
             (\<lambda>e. e\<lparr>oe_pid := pid, oe_timestamp := now\<rparr>)
             (if alloc
              then Some \<lparr>oe_local_addr = local_addr, oe_remote_addr = remote_addr,
                     oe_local_port = local_port, oe_remote_port = remote_port, oe_pid = pid,
                     oe_endpoint_id = endpoint_id, oe_timestamp = now, oe_is_udp = is_udp,
                     oe_source_layer = source_layer\<rparr>
              else None)
             (owner_cache s1)\<rparr>)"

text \<open>Dropping an entry of a closed UDP endpoint advances the UDP generation and purges the PIDs cached
  for its port.\<close>

definition forget_owner_entry :: "OWNER_CACHE_ENTRY \<Rightarrow> pb \<Rightarrow> pb" where
  "forget_owner_entry e s =
     (if oe_is_udp e
      then let s1 = invalidate_udp_decisions s in
        s1\<lparr>pid_cache := chain_sweep PID_CACHE_SIZE
             (\<lambda>p. pe_is_udp p \<and> pe_src_port p = oe_local_port e) (pid_cache s1)\<rparr>
      else s)"

definition endpoint_entry :: "u64 \<Rightarrow> u8 \<Rightarrow> OWNER_CACHE_ENTRY \<Rightarrow> bool" where
  "endpoint_entry endpoint_id source_layer e \<longleftrightarrow>
     oe_endpoint_id e = endpoint_id \<and> oe_source_layer e = source_layer"

definition remove_owner_event_endpoint :: "u64 \<Rightarrow> u8 \<Rightarrow> pb \<Rightarrow> pb" where
  "remove_owner_event_endpoint endpoint_id source_layer s =
     fold (\<lambda>i s.
         (fold forget_owner_entry
            (filter (endpoint_entry endpoint_id source_layer) (owner_cache s i)) s)
           \<lparr>owner_cache := (owner_cache s)
              (i := filter (\<lambda>e. \<not> endpoint_entry endpoint_id source_layer e) (owner_cache s i))\<rparr>)
       [0..<OWNER_CACHE_SIZE] s"

definition clear_owner_event_cache :: "pb \<Rightarrow> pb" where
  "clear_owner_event_cache s = s\<lparr>owner_cache := (\<lambda>i. if i < OWNER_CACHE_SIZE then [] else owner_cache s i)\<rparr>"

definition cleanup_stale_owner_cache :: "u64 \<Rightarrow> pb \<Rightarrow> pb" where
  "cleanup_stale_owner_cache now s =
     s\<lparr>owner_cache := chain_sweep OWNER_CACHE_SIZE (\<lambda>e. OWNER_CACHE_TTL_MS \<le> now - oe_timestamp e)
         (owner_cache s)\<rparr>"

definition pid_inv :: "pb \<Rightarrow> bool" where
  "pid_inv s \<longleftrightarrow> chain_inv pid_cache_hash pid_key (pid_cache s)"

definition owner_inv :: "pb \<Rightarrow> bool" where
  "owner_inv s \<longleftrightarrow> chain_inv owner_key_hash owner_key (owner_cache s)"

section \<open>The scratch buffer\<close>

lemma grow_cap_ends:
  assumes "2 ^ 31 \<le> unat newcap * 2 ^ n"
  shows "\<exists>c. grow_cap (Suc n) newcap need = Some c \<and> need \<le> c \<and> newcap \<le> c"
  using assms
proof (induction n arbitrary: newcap)
  case 0
  then have "(0xFFFFFFFF :: u32) div 2 < newcap" by (simp add: word_less_nat_alt)
  then show ?case by auto
next
  case (Suc n)
  show ?case
  proof (cases "newcap < need \<and> newcap \<le> 0xFFFFFFFF div 2")
    case True
    then have le: "unat newcap < 2 ^ 31" by (simp add: word_le_nat_alt)
    then have "unat (newcap * 2) = unat newcap * 2"
      by (simp add: unat_word_ariths)
    moreover from this have "newcap \<le> newcap * 2" by (simp add: word_le_nat_alt)
    ultimately show ?thesis using Suc.IH [of "newcap * 2"] Suc.prems True by fastforce
  next
    case False
    then show ?thesis by auto
  qed
qed

text \<open>Growing the scratch buffer ends, never shrinks it, and succeeds only with room for the whole
  request; it fails only when the allocator does (or nothing was requested of an unallocated buffer).
  So the size a table call is given never exceeds the buffer.\<close>

theorem pidtbl_reserve_room:
  "case pidtbl_reserve realloc need s of (ok, s') \<Rightarrow>
     g_pidtbl_cap s \<le> g_pidtbl_cap s' \<and>
     (if ok then need \<le> g_pidtbl_cap s' \<and> g_pidtbl_cap s' \<noteq> 0
      else s' = s \<and> (need = 0 \<or> (\<exists>newcap. need \<le> newcap \<and> realloc newcap = False)))"
proof -
  let ?c = "if g_pidtbl_cap s \<noteq> 0 then g_pidtbl_cap s else 16384"
  have "1 \<le> unat ?c" by (simp add: unat_gt_0 Suc_le_eq)
  then have "2 ^ 31 \<le> unat ?c * 2 ^ 32" by simp
  then obtain c where g: "grow_cap (Suc 32) ?c need = Some c" and le: "need \<le> c" "?c \<le> c"
    using grow_cap_ends by blast
  have "(33 :: nat) = Suc 32" by simp
  with g have g: "grow_cap 33 ?c need = Some c" by (simp only:)
  show ?thesis
  proof (cases "g_pidtbl_cap s < need")
    case True
    then have "c \<noteq> 0" using le(1) by auto
    with True g le show ?thesis by (cases "realloc c") (auto simp: pidtbl_reserve_def simp del: grow_cap.simps split: if_splits)
  next
    case False
    then show ?thesis by (cases "need = 0") (auto simp: pidtbl_reserve_def word_gt_0 simp del: grow_cap.simps)
  qed
qed

theorem pidtbl_reserve_room_witness:
  "case pidtbl_reserve (\<lambda>_. True) 100000 pb_init of (ok, s') \<Rightarrow> ok \<and> 100000 \<le> g_pidtbl_cap s'"
  using pidtbl_reserve_room [where realloc = "\<lambda>_. True" and need = 100000 and s = pb_init]
  by (auto split: prod.splits if_splits)

section \<open>The PID cache as a timed cache\<close>

lemma pid_inv_cache: "pid_inv s \<Longrightarrow> pid_inv (cache_pid alloc ip port pid udp now s)"
  by (auto simp: pid_inv_def cache_pid_def pid_key_def intro!: chain_inv_put)

lemma pid_inv_cleanup: "pid_inv s \<Longrightarrow> pid_inv (cleanup_stale_pid_cache now s)"
  by (simp add: pid_inv_def cleanup_stale_pid_cache_def chain_inv_sweep)

definition cached_pid :: "pb \<Rightarrow> u32 \<times> u16 \<times> bool \<Rightarrow> u64 \<Rightarrow> u32 option" where
  "cached_pid s k now =
     (let pid = get_cached_pid (fst k) (fst (snd k)) (snd (snd k)) now s in if pid = 0 then None else Some pid)"

lemma pid_key_update [simp]: "pid_key (e\<lparr>pe_pid := p, pe_timestamp := t\<rparr>) = pid_key e"
  by (simp add: pid_key_def)

lemma pid_key_make [simp]:
  "pid_key \<lparr>pe_src_ip = a, pe_src_port = b, pe_pid = c, pe_timestamp = d, pe_is_udp = e\<rparr> = (a, b, e)"
  by (simp add: pid_key_def)

lemma find_cache_pid_same:
  "\<exists>e. find (\<lambda>e. pid_key e = (ip, port, udp)) (pid_cache (cache_pid True ip port pid udp t s) (pid_cache_hash (ip, port, udp))) = Some e \<and>
     pe_pid e = pid \<and> pe_timestamp e = t"
  by (simp add: cache_pid_def) (subst find_chain_put_same; auto simp: pid_key_def split: option.split)

lemma find_cache_pid_other:
  "(ip, port, udp) \<noteq> k \<Longrightarrow>
   find (\<lambda>e. pid_key e = k) (pid_cache (cache_pid alloc ip port pid udp t s) b) = find (\<lambda>e. pid_key e = k) (pid_cache s b)"
  by (cases alloc) (auto simp: cache_pid_def find_chain_put_other)

interpretation pids: timed_cache cached_pid
  "\<lambda>(ip, port, udp) pid now s. cache_pid True ip port pid udp now s" cleanup_stale_pid_cache pid_inv
  "\<lambda>pid. pid \<noteq> 0" "\<lambda>pid. pid" "\<lambda>t t'. t' - t < PID_CACHE_TTL_MS"
proof (unfold_locales, goal_cases)
  case (1 s v k t t')
  obtain ip port udp where k: "k = (ip, port, udp)" by (cases k)
  show ?case using find_cache_pid_same [of ip port udp v t s] 1
    by (auto simp: cached_pid_def get_cached_pid_def k Let_def split: if_splits)
next
  case (2 s k k' v t t')
  obtain ip port udp where k: "k = (ip, port, udp)" by (cases k)
  then show ?case using find_cache_pid_other [of ip port udp k'] 2
    by (cases k') (simp add: cached_pid_def get_cached_pid_def)
next
  case (3 s t k)
  then have "find (\<lambda>e. pid_key e = k) (pid_cache (cleanup_stale_pid_cache t s) b) =
      (case find (\<lambda>e. pid_key e = k) (pid_cache s b) of None \<Rightarrow> None
       | Some e \<Rightarrow> if b < PID_CACHE_SIZE \<and> PID_CACHE_TTL_MS \<le> t - pe_timestamp e then None else Some e)" for b
    by (simp add: pid_inv_def cleanup_stale_pid_cache_def find_chain_sweep)
  then show ?case
    by (cases k) (auto simp: cached_pid_def get_cached_pid_def Let_def split: option.splits)
next
  case (4 s k v t)
  then show ?case by (cases k) (simp add: pid_inv_cache)
next
  case (5 s t)
  then show ?case by (rule pid_inv_cleanup)
qed

section \<open>Owners\<close>

lemma first_pid_found:
  assumes "\<forall>r. P r \<longrightarrow> row_pid r \<noteq> 0"
  shows "(first_pid P rows \<noteq> 0) \<longleftrightarrow> (\<exists>r \<in> set rows. P r)"
    and "first_pid P rows \<noteq> 0 \<Longrightarrow> \<exists>r \<in> set rows. P r \<and> row_pid r = first_pid P rows"
proof -
  have "(first_pid P rows \<noteq> 0 \<longleftrightarrow> (\<exists>r \<in> set rows. P r)) \<and>
      (first_pid P rows \<noteq> 0 \<longrightarrow> (\<exists>r \<in> set rows. P r \<and> row_pid r = first_pid P rows))"
  proof (cases "find P rows")
    case None
    moreover have "\<not> (\<exists>r \<in> set rows. P r)" using None by (simp add: find_None_iff)
    ultimately show ?thesis by (simp add: first_pid_def)
  next
    case (Some r)
    moreover have "r \<in> set rows \<and> P r" using Some by (auto simp: find_Some_iff)
    ultimately show ?thesis using assms by (auto simp: first_pid_def)
  qed
  then show "(first_pid P rows \<noteq> 0) \<longleftrightarrow> (\<exists>r \<in> set rows. P r)"
    and "first_pid P rows \<noteq> 0 \<Longrightarrow> \<exists>r \<in> set rows. P r \<and> row_pid r = first_pid P rows" by blast+
qed

text \<open>An endpoint that some owned row lists is attributed to the owner of such a row, even when
  ownerless rows of a closed connection come first in the table, and the answer is cached for the rest
  of its thirty seconds. The hypotheses say what the table call returned and that memory is available.\<close>

theorem get_process_id_owner:
  assumes "get_cached_pid ip port False now s = 0"
    and "owner_table_fetch (ow_tcp4 ow) (ow_realloc ow) s = (Some rows, s')"
    and "pid_inv s'" and "ow_malloc ow"
    and "row \<in> set rows" and "row_local_addr row = ip" and "row_local_port row = port" and "row_pid row \<noteq> 0"
  shows "case get_process_id_from_connection ow ip port now s of (pid, s'') \<Rightarrow>
     pid \<noteq> 0 \<and> (\<exists>r \<in> set rows. row_local_addr r = ip \<and> row_local_port r = port \<and> row_pid r = pid) \<and>
     get_cached_pid ip port False (now + 29999) s'' = pid"
proof -
  let ?P = "\<lambda>r. row_pid r \<noteq> 0 \<and> row_local_addr r = ip \<and> row_local_port r = port"
  have "first_pid ?P rows \<noteq> 0" using first_pid_found(1) [of ?P rows] assms(5-8) by blast
  moreover obtain r where "r \<in> set rows" "?P r" "row_pid r = first_pid ?P rows"
    using first_pid_found(2) [of ?P rows] calculation by blast
  moreover have "cached_pid (cache_pid True ip port (first_pid ?P rows) False now s') (ip, port, False) (now + 29999)
      = Some (first_pid ?P rows)"
    using pids.store_same [OF assms(3) calculation(1), of "(ip, port, False)" now "now + 29999"] by simp
  ultimately show ?thesis
    using assms(1,2,4) by (auto simp: get_process_id_from_connection_def cached_pid_def Let_def split: if_splits)
qed

definition time_wait_rows :: "u32 OWNER_ROW list" where
  "time_wait_rows =
     [\<lparr>row_local_addr = 1, row_local_port = 5000, row_pid = 0\<rparr>,
      \<lparr>row_local_addr = 1, row_local_port = 5000, row_pid = 77\<rparr>]"

definition time_wait_os :: owner_os where
  "time_wait_os = \<lparr>ow_tcp4 = (\<lambda>i n. if n = None then ERROR_INSUFFICIENT_BUFFER 64 else NO_ERROR 64 time_wait_rows),
     ow_udp4 = (\<lambda>_ _. OTHER_ERROR), ow_tcp6 = (\<lambda>_ _. OTHER_ERROR), ow_udp6 = (\<lambda>_ _. OTHER_ERROR),
     ow_realloc = (\<lambda>_. True), ow_malloc = True\<rparr>"

theorem get_process_id_owner_witness:
  "fst (get_process_id_from_connection time_wait_os 1 5000 9 (pb_init\<lparr>g_pidtbl_cap := 16384\<rparr>)) = 77"
proof -
  let ?s = "pb_init\<lparr>g_pidtbl_cap := 16384\<rparr>"
  have "get_cached_pid 1 5000 False 9 ?s = 0" by (simp add: get_cached_pid_def pb_init_def empty_table_def)
  moreover have "owner_table_fetch (ow_tcp4 time_wait_os) (ow_realloc time_wait_os) ?s = (Some time_wait_rows, ?s)"
    by (simp add: owner_table_fetch_def time_wait_os_def)
  moreover have "pid_inv ?s" by (simp add: pid_inv_def pb_init_def)
  ultimately show ?thesis
    using get_process_id_owner [of 1 5000 9 ?s time_wait_os time_wait_rows ?s "time_wait_rows ! 1"]
    by (auto simp: time_wait_os_def time_wait_rows_def split: prod.splits)
qed

lemma owner_scan_best:
  assumes "\<forall>e n. score e = Some n \<longrightarrow> 0 \<le> n \<and> n \<le> 4"
  shows "(owner_scan score es best pid = pid \<and> (\<forall>e \<in> set es. \<forall>n. score e = Some n \<longrightarrow> n \<le> best)) \<or>
     (\<exists>e \<in> set es. \<exists>n. score e = Some n \<and> best < n \<and> owner_scan score es best pid = oe_pid e \<and>
        (\<forall>e' \<in> set es. \<forall>n'. score e' = Some n' \<longrightarrow> n' \<le> n))"
proof (induction es arbitrary: best pid)
  case (Cons e es)
  show ?case
  proof (cases "score e")
    case None
    then show ?thesis using Cons [of best pid] by auto
  next
    case (Some n)
    consider "n \<le> best" | "best < n" "n = 4" | "best < n" "n \<noteq> 4" by linarith
    then show ?thesis
    proof cases
      case 1
      then have step: "owner_scan score (e # es) best pid = owner_scan score es best pid" using Some by simp
      show ?thesis
      proof (rule disjE [OF Cons [of best pid]])
        assume "owner_scan score es best pid = pid \<and> (\<forall>e \<in> set es. \<forall>n. score e = Some n \<longrightarrow> n \<le> best)"
        then show ?thesis unfolding step using 1 Some by auto
      next
        assume "\<exists>e \<in> set es. \<exists>n. score e = Some n \<and> best < n \<and> owner_scan score es best pid = oe_pid e \<and>
          (\<forall>e' \<in> set es. \<forall>n'. score e' = Some n' \<longrightarrow> n' \<le> n)"
        then obtain x m where "x \<in> set es" "score x = Some m" "best < m" "owner_scan score es best pid = oe_pid x"
          "\<forall>e' \<in> set es. \<forall>n'. score e' = Some n' \<longrightarrow> n' \<le> m" by blast
        then show ?thesis unfolding step using 1 Some by (intro disjI2 bexI [of _ x] exI [of _ m]) auto
      qed
    next
      case 2
      then show ?thesis using Some assms by auto
    next
      case 3
      then have step: "owner_scan score (e # es) best pid = owner_scan score es n (oe_pid e)" using Some by simp
      show ?thesis
      proof (rule disjE [OF Cons [of n "oe_pid e"]])
        assume "owner_scan score es n (oe_pid e) = oe_pid e \<and> (\<forall>e \<in> set es. \<forall>n'. score e = Some n' \<longrightarrow> n' \<le> n)"
        then show ?thesis unfolding step using 3 Some by (intro disjI2 bexI [of _ e] exI [of _ n]) auto
      next
        assume "\<exists>x \<in> set es. \<exists>n'. score x = Some n' \<and> n < n' \<and> owner_scan score es n (oe_pid e) = oe_pid x \<and>
          (\<forall>e' \<in> set es. \<forall>m. score e' = Some m \<longrightarrow> m \<le> n')"
        then obtain x m where "x \<in> set es" "score x = Some m" "n < m" "owner_scan score es n (oe_pid e) = oe_pid x"
          "\<forall>e' \<in> set es. \<forall>n'. score e' = Some n' \<longrightarrow> n' \<le> m" by blast
        then show ?thesis unfolding step using 3 Some by (intro disjI2 bexI [of _ x] exI [of _ m]) auto
      qed
    qed
  qed
qed simp

text \<open>The owner an event lookup reports is that of a live entry with the highest score (exact
  local and remote address before wildcards); it reports none exactly when no live entry applies.\<close>

theorem get_owner_event_pid_best:
  "(get_owner_event_pid la lp ra rp udp now s = 0 \<and>
     (\<forall>e \<in> set (owner_cache s (owner_cache_hash lp udp)). owner_score now la lp ra rp udp e = None)) \<or>
   (\<exists>e \<in> set (owner_cache s (owner_cache_hash lp udp)). \<exists>n. owner_score now la lp ra rp udp e = Some n \<and>
     get_owner_event_pid la lp ra rp udp now s = oe_pid e \<and>
     (\<forall>e' \<in> set (owner_cache s (owner_cache_hash lp udp)). \<forall>n'. owner_score now la lp ra rp udp e' = Some n' \<longrightarrow> n' \<le> n))"
proof -
  have r: "\<forall>e n. owner_score now la lp ra rp udp e = Some n \<longrightarrow> 0 \<le> n \<and> n \<le> 4"
    by (auto simp: owner_score_def Let_def split: if_splits)
  let ?es = "owner_cache s (owner_cache_hash lp udp)" and ?sc = "owner_score now la lp ra rp udp"
  have none: "?sc e = None" if "\<forall>n. ?sc e = Some n \<longrightarrow> n \<le> - 1" for e
    using that r by (cases "?sc e") fastforce+
  from owner_scan_best [of ?sc ?es "- 1" 0, OF r]
  consider "owner_scan ?sc ?es (- 1) 0 = 0" "\<forall>e \<in> set ?es. \<forall>n. ?sc e = Some n \<longrightarrow> n \<le> - 1"
    | e n where "e \<in> set ?es" "?sc e = Some n" "owner_scan ?sc ?es (- 1) 0 = oe_pid e"
      "\<forall>e' \<in> set ?es. \<forall>n'. ?sc e' = Some n' \<longrightarrow> n' \<le> n"
    by blast
  then show ?thesis
  proof cases
    case 1
    then show ?thesis using none by (simp add: get_owner_event_pid_def)
  next
    case 2
    then show ?thesis unfolding get_owner_event_pid_def by blast
  qed
qed

theorem get_owner_event_pid_best_witness:
  "get_owner_event_pid [] 80 [] 0 False 5 pb_init = 0"
  using get_owner_event_pid_best [of "[]" 80 "[]" 0 False 5 pb_init]
  by (simp add: pb_init_def empty_table_def)

section \<open>Closing an endpoint\<close>

lemma chain_sweep_none: "chain_sweep n (\<lambda>_. False) t = t"
  by (simp add: chain_sweep_def fun_eq_iff)

lemma chain_sweep_twice: "chain_sweep n P (chain_sweep n Q t) = chain_sweep n (\<lambda>e. Q e \<or> P e) t"
  by (simp add: chain_sweep_def fun_eq_iff conj_commute)

definition udp_owner_port :: "OWNER_CACHE_ENTRY list \<Rightarrow> PID_CACHE_ENTRY \<Rightarrow> bool" where
  "udp_owner_port es p \<longleftrightarrow> pe_is_udp p \<and> (\<exists>e \<in> set es. oe_is_udp e \<and> oe_local_port e = pe_src_port p)"

lemma forget_owner_entries:
  "owner_cache (fold forget_owner_entry es s) = owner_cache s"
  "pid_cache (fold forget_owner_entry es s) = chain_sweep PID_CACHE_SIZE (udp_owner_port es) (pid_cache s)"
proof -
  show "owner_cache (fold forget_owner_entry es s) = owner_cache s"
    by (induction es arbitrary: s) (simp_all add: forget_owner_entry_def invalidate_udp_decisions_def Let_def)
  show "pid_cache (fold forget_owner_entry es s) = chain_sweep PID_CACHE_SIZE (udp_owner_port es) (pid_cache s)"
  proof (induction es arbitrary: s)
    case Nil
    then show ?case by (simp add: udp_owner_port_def chain_sweep_none)
  next
    case (Cons e es)
    have "pid_cache (forget_owner_entry e s) = chain_sweep PID_CACHE_SIZE (udp_owner_port [e]) (pid_cache s)"
    proof -
      have "udp_owner_port [e] = (\<lambda>p. oe_is_udp e \<and> pe_is_udp p \<and> pe_src_port p = oe_local_port e)"
        by (auto simp: udp_owner_port_def fun_eq_iff)
      then show ?thesis
        by (cases "oe_is_udp e") (simp_all add: forget_owner_entry_def invalidate_udp_decisions_def Let_def chain_sweep_none)
    qed
    moreover have "(\<lambda>p. udp_owner_port [e] p \<or> udp_owner_port es p) = udp_owner_port (e # es)"
      by (auto simp: udp_owner_port_def fun_eq_iff)
    ultimately show ?case by (simp add: Cons.IH chain_sweep_twice)
  qed
qed

definition endpoint_entries :: "u64 \<Rightarrow> u8 \<Rightarrow> nat \<Rightarrow> pb \<Rightarrow> OWNER_CACHE_ENTRY list" where
  "endpoint_entries ep layer n s = concat (map (\<lambda>i. filter (endpoint_entry ep layer) (owner_cache s i)) [0..<n])"

lemma remove_endpoint_fold:
  defines "f \<equiv> \<lambda>ep layer i s.
         (fold forget_owner_entry (filter (endpoint_entry ep layer) (owner_cache s i)) s)
           \<lparr>owner_cache := (owner_cache s)(i := filter (\<lambda>e. \<not> endpoint_entry ep layer e) (owner_cache s i))\<rparr>"
  shows "owner_cache (fold (f ep layer) [0..<n] s) = chain_sweep n (endpoint_entry ep layer) (owner_cache s) \<and>
     pid_cache (fold (f ep layer) [0..<n] s) =
       chain_sweep PID_CACHE_SIZE (udp_owner_port (endpoint_entries ep layer n s)) (pid_cache s)"
proof (induction n)
  case 0
  then show ?case by (simp add: endpoint_entries_def udp_owner_port_def chain_sweep_none chain_sweep_def)
next
  case (Suc n)
  let ?s = "fold (f ep layer) [0..<n] s"
  have o: "owner_cache ?s n = owner_cache s n" using Suc by (simp add: chain_sweep_def)
  have "chain_sweep (Suc n) (endpoint_entry ep layer) (owner_cache s) =
      (chain_sweep n (endpoint_entry ep layer) (owner_cache s))(n := filter (\<lambda>e. \<not> endpoint_entry ep layer e) (owner_cache s n))"
    by (auto simp: chain_sweep_def fun_eq_iff less_Suc_eq)
  moreover have "(\<lambda>p. udp_owner_port (endpoint_entries ep layer n s) p \<or>
        udp_owner_port (filter (endpoint_entry ep layer) (owner_cache s n)) p) =
      udp_owner_port (endpoint_entries ep layer (Suc n) s)"
    by (auto simp: udp_owner_port_def endpoint_entries_def fun_eq_iff)
  moreover have "fold (f ep layer) [0..<Suc n] s = f ep layer n ?s" by simp
  ultimately show ?case
    using Suc o by (simp add: f_def forget_owner_entries chain_sweep_twice)
qed

lemma owner_entry_bucket: "owner_inv s \<Longrightarrow> e \<in> set (owner_cache s i) \<Longrightarrow> i < OWNER_CACHE_SIZE"
  by (auto simp: owner_inv_def owner_key_def owner_key_hash_def owner_cache_hash_def dest: chain_invD(2))

text \<open>When an endpoint closes, exactly its owner entries disappear, and no PID stays cached for a UDP
  port it owned, for any source address.\<close>

theorem remove_owner_event_endpoint_complete:
  assumes "owner_inv s"
  shows "owner_inv (remove_owner_event_endpoint ep layer s) \<and>
     (\<forall>i. owner_cache (remove_owner_event_endpoint ep layer s) i =
        filter (\<lambda>e. \<not> (oe_endpoint_id e = ep \<and> oe_source_layer e = layer)) (owner_cache s i)) \<and>
     (\<forall>i e ip now. e \<in> set (owner_cache s i) \<and> oe_endpoint_id e = ep \<and> oe_source_layer e = layer \<and> oe_is_udp e
        \<longrightarrow> get_cached_pid ip (oe_local_port e) True now (remove_owner_event_endpoint ep layer s) = 0)"
proof (intro conjI allI impI)
  note r = remove_endpoint_fold [of ep layer OWNER_CACHE_SIZE s, folded remove_owner_event_endpoint_def]
  show "owner_inv (remove_owner_event_endpoint ep layer s)"
    using assms r by (simp add: owner_inv_def chain_inv_sweep)
  show "owner_cache (remove_owner_event_endpoint ep layer s) i =
      filter (\<lambda>e. \<not> (oe_endpoint_id e = ep \<and> oe_source_layer e = layer)) (owner_cache s i)" for i
  proof (cases "i < OWNER_CACHE_SIZE")
    case False
    then have "owner_cache s i = []" using owner_entry_bucket [OF assms] by (metis list.set_intros(1) neq_Nil_conv)
    then show ?thesis using r False by (simp add: chain_sweep_def)
  qed (use r in \<open>simp add: chain_sweep_def endpoint_entry_def\<close>)
  fix i e ip now
  assume e: "e \<in> set (owner_cache s i) \<and> oe_endpoint_id e = ep \<and> oe_source_layer e = layer \<and> oe_is_udp e"
  then have "e \<in> set (endpoint_entries ep layer OWNER_CACHE_SIZE s)"
    using owner_entry_bucket [OF assms] by (auto simp: endpoint_entries_def endpoint_entry_def)
  then have "udp_owner_port (endpoint_entries ep layer OWNER_CACHE_SIZE s) p"
    if "pid_key p = (ip, oe_local_port e, True)" for p
    using that e by (auto simp: udp_owner_port_def pid_key_def)
  moreover have "pid_cache_hash (ip, oe_local_port e, True) < PID_CACHE_SIZE" by (simp add: pid_cache_hash_def)
  ultimately have "find (\<lambda>p. pid_key p = (ip, oe_local_port e, True))
      (pid_cache (remove_owner_event_endpoint ep layer s) (pid_cache_hash (ip, oe_local_port e, True))) = None"
    using r by (auto simp: chain_sweep_def find_None_iff)
  then show "get_cached_pid ip (oe_local_port e) True now (remove_owner_event_endpoint ep layer s) = 0"
    by (simp add: get_cached_pid_def)
qed

definition closed_endpoint :: pb where
  "closed_endpoint = cache_pid True 1 4000 77 True 9
     (cache_owner_event True (replicate 16 0) 4000 (replicate 16 0) 0 True 77 6 2 9 pb_init)"

lemma owner_inv_cache_event:
  "owner_inv s \<Longrightarrow> owner_inv (cache_owner_event alloc la lp ra rp udp pid ep layer now s)"
  by (auto simp: owner_inv_def cache_owner_event_def invalidate_udp_decisions_def owner_key_def Let_def intro!: chain_inv_put)

theorem remove_owner_event_endpoint_complete_witness:
  "get_cached_pid 1 4000 True 10 (remove_owner_event_endpoint 6 2 closed_endpoint) = 0"
proof -
  have "owner_inv pb_init" by (simp add: owner_inv_def pb_init_def)
  then have "owner_inv closed_endpoint"
    by (simp add: closed_endpoint_def owner_inv_def cache_pid_def owner_inv_cache_event [unfolded owner_inv_def])
  moreover have "\<exists>e \<in> set (owner_cache closed_endpoint (owner_cache_hash 4000 True)).
      oe_endpoint_id e = 6 \<and> oe_source_layer e = 2 \<and> oe_is_udp e \<and> oe_local_port e = 4000"
    by (simp add: closed_endpoint_def cache_pid_def cache_owner_event_def chain_put_def owner_key_hash_def
        invalidate_udp_decisions_def pb_init_def empty_table_def)
  ultimately show ?thesis
    using remove_owner_event_endpoint_complete [of closed_endpoint 6 2] by metis
qed

end
