(* ===== verification/PB_Proxy.thy ===== *)
theory PB_Proxy
  imports PB_Process
begin

text \<open>
  \<open>pb_proxy.c\<close>: the store of upstream proxies. The array \<open>g_proxy_configs\<close> with its counter is
  a list. Handles an operation closes are part of its result. The theorems show that the store
  stays within its sixteen slots with usable, distinctly numbered entries, that an operation
  that is refused changes nothing, and that no handle of an edited or deleted entry is leaked
  or closed twice.
\<close>

definition find_proxy_config :: "pb \<Rightarrow> u32 \<Rightarrow> PROXY_CONFIG option" where
  "find_proxy_config s cid =
     (case find (\<lambda>c. config_id c = cid) (g_proxy_configs s) of
        Some c \<Rightarrow> Some c
      | None \<Rightarrow> (case g_proxy_configs s of [] \<Rightarrow> None | c # _ \<Rightarrow> Some c))"

definition any_socks5_config :: "pb \<Rightarrow> bool" where
  "any_socks5_config s \<longleftrightarrow>
     (\<exists>c \<in> set (g_proxy_configs s). pc_type c = PROXY_TYPE_SOCKS5 \<and> pc_host c \<noteq> '''' \<and> pc_port c \<noteq> 0)"

definition is_proxy_config_referenced :: "u32 \<Rightarrow> pb \<Rightarrow> bool" where
  "is_proxy_config_referenced cid s \<longleftrightarrow>
     (\<exists>r \<in> set (rules_list s). r_enabled r \<and> r_action r = RULE_ACTION_PROXY \<and>
        (r_proxy_config_id r = cid \<or> r_proxy_config_id r = 0))"

text \<open>A string argument that is null or empty.\<close>

definition absent :: "string option \<Rightarrow> bool" where
  "absent x \<longleftrightarrow> (case x of None \<Rightarrow> True | Some t \<Rightarrow> t = '''')"

definition normal_type :: "ProxyType \<Rightarrow> ProxyType" where
  "normal_type t = (if t = PROXY_TYPE_HTTP then PROXY_TYPE_HTTP else PROXY_TYPE_SOCKS5)"

definition AddProxyConfig ::
  "os \<Rightarrow> ProxyType \<Rightarrow> string option \<Rightarrow> u16 \<Rightarrow> string option \<Rightarrow> string option \<Rightarrow> bool \<Rightarrow> pb \<Rightarrow> u32 \<times> pb" where
  "AddProxyConfig os type proxy_ip proxy_port username password send_domain s =
     (if absent proxy_ip \<or> proxy_port = 0 then (0, s)
      else if \<not> absent username \<or> \<not> absent password then (0, s)
      else if resolve_hostname (os_getaddrinfo os) proxy_ip = 0 then (0, s)
      else if MAX_PROXY_CONFIGS \<le> length (g_proxy_configs s) then (0, s)
      else
        let cfg = \<lparr>config_id = g_next_config_id s, pc_type = normal_type type,
              pc_host = strncpy_trunc 256 (the proxy_ip), pc_port = proxy_port,
              pc_send_domain_to_proxy = send_domain,
              pc_resolved_ip = resolve_hostname (os_getaddrinfo os) proxy_ip,
              pc_last_udp_attempt = 0, pc_udp_tcp_ctrl = None, pc_udp_send_sock = None,
              pc_udp_relay_addr = (0, 0), pc_udp_connected = False\<rparr>
        in (config_id cfg, invalidate_udp_decisions (s\<lparr>
              g_next_config_id := g_next_config_id s + 1,
              g_proxy_configs := g_proxy_configs s @ [cfg]\<rparr>)))"

text \<open>The handles a config holds open.\<close>

definition open_handles :: "PROXY_CONFIG \<Rightarrow> nat list" where
  "open_handles c =
     (case pc_udp_tcp_ctrl c of None \<Rightarrow> [] | Some h \<Rightarrow> [h]) @
     (case pc_udp_send_sock c of None \<Rightarrow> [] | Some h \<Rightarrow> [h])"

definition EditProxyConfig ::
  "os \<Rightarrow> u32 \<Rightarrow> ProxyType \<Rightarrow> string option \<Rightarrow> u16 \<Rightarrow> string option \<Rightarrow> string option \<Rightarrow> bool \<Rightarrow> pb
     \<Rightarrow> bool \<times> nat list \<times> pb" where
  "EditProxyConfig os cid type proxy_ip proxy_port username password send_domain s =
     (if absent proxy_ip \<or> proxy_port = 0 then (False, [], s)
      else if \<not> absent username \<or> \<not> absent password then (False, [], s)
      else let resolved = resolve_hostname (os_getaddrinfo os) proxy_ip in
        if resolved = 0 then (False, [], s)
        else case find (\<lambda>c. config_id c = cid) (g_proxy_configs s) of
          None \<Rightarrow> (False, [], s)
        | Some cfg \<Rightarrow>
            (True, open_handles cfg, invalidate_udp_decisions (s\<lparr>g_proxy_configs :=
               update_first (\<lambda>c. config_id c = cid)
                 (\<lambda>c. c\<lparr>pc_udp_tcp_ctrl := None, pc_udp_send_sock := None, pc_udp_connected := False,
                     pc_type := normal_type type, pc_port := proxy_port,
                     pc_send_domain_to_proxy := send_domain,
                     pc_host := strncpy_trunc 256 (the proxy_ip), pc_resolved_ip := resolved\<rparr>)
                 (g_proxy_configs s)\<rparr>)))"

definition DeleteProxyConfig :: "u32 \<Rightarrow> pb \<Rightarrow> bool \<times> nat list \<times> pb" where
  "DeleteProxyConfig cid s =
     (case find (\<lambda>c. config_id c = cid) (g_proxy_configs s) of
        None \<Rightarrow> (False, [], s)
      | Some cfg \<Rightarrow>
          (True, open_handles cfg, invalidate_udp_decisions (s\<lparr>g_proxy_configs :=
             remove_first (\<lambda>c. config_id c = cid) (g_proxy_configs s)\<rparr>)))"

section \<open>The store's invariant\<close>

text \<open>What every entry satisfies: a number that was handed out, a host, a port and an address.\<close>

definition config_ok :: "u32 \<Rightarrow> PROXY_CONFIG \<Rightarrow> bool" where
  "config_ok limit c \<longleftrightarrow> 0 < config_id c \<and> config_id c < limit \<and> pc_host c \<noteq> '''' \<and>
     length (pc_host c) < 256 \<and> pc_port c \<noteq> 0 \<and> pc_resolved_ip c \<noteq> 0"

definition configs_inv :: "pb \<Rightarrow> bool" where
  "configs_inv s \<longleftrightarrow> length (g_proxy_configs s) \<le> MAX_PROXY_CONFIGS \<and>
     distinct (map config_id (g_proxy_configs s)) \<and> 0 < g_next_config_id s \<and>
     (\<forall>c \<in> set (g_proxy_configs s). config_ok (g_next_config_id s) c)"

lemma g_invalidate [simp]:
  "g_proxy_configs (invalidate_udp_decisions s) = g_proxy_configs s"
  "g_next_config_id (invalidate_udp_decisions s) = g_next_config_id s"
  "rules_list (invalidate_udp_decisions s) = rules_list s"
  "g_next_rule_id (invalidate_udp_decisions s) = g_next_rule_id s"
  by (simp_all add: invalidate_udp_decisions_def)

lemma host_fits: "\<not> absent ip \<Longrightarrow> strncpy_trunc 256 (the ip) \<noteq> '''' \<and> length (strncpy_trunc 256 (the ip)) < 256"
  by (auto simp: absent_def strncpy_trunc_def split: option.splits)

text \<open>C40. Adding, editing and deleting upstream proxies keeps the store within its sixteen slots, with
  distinct numbers and only usable entries. The numbers stay distinct until the 32-bit counter
  is about to wrap.\<close>

theorem configs_inv_preserved:
  assumes "configs_inv s" and "g_next_config_id s \<noteq> 0xFFFFFFFF"
  shows "configs_inv (snd (AddProxyConfig os type ip port user pass sd s)) \<and>
     configs_inv (snd (snd (EditProxyConfig os cid type ip port user pass sd s))) \<and>
     configs_inv (snd (snd (DeleteProxyConfig cid s)))"
proof (intro conjI)
  let ?n = "g_next_config_id s"
  have inc: "?n < ?n + 1" by (rule u32_succ_less) (rule assms(2))
  have host: "strncpy_trunc 256 (the ip) \<noteq> ''''" "length (strncpy_trunc 256 (the ip)) < 256" if "\<not> absent ip"
    using host_fits [OF that] by simp_all
  show "configs_inv (snd (AddProxyConfig os type ip port user pass sd s))"
  proof (cases "snd (AddProxyConfig os type ip port user pass sd s) = s")
    case False
    then show ?thesis using assms(1) inc host
      by (auto simp: AddProxyConfig_def configs_inv_def config_ok_def Let_def word_gt_0 split: if_splits)
  qed (use assms(1) in simp)
  show "configs_inv (snd (snd (EditProxyConfig os cid type ip port user pass sd s)))"
  proof (cases "snd (snd (EditProxyConfig os cid type ip port user pass sd s)) = s")
    case False
    then show ?thesis using assms(1) host
      by (auto simp: EditProxyConfig_def configs_inv_def config_ok_def Let_def map_update_first
        split: if_splits option.splits dest!: set_update_first_cases)
  qed (use assms(1) in simp)
  show "configs_inv (snd (snd (DeleteProxyConfig cid s)))"
    using assms(1) set_remove_first_subset [of "\<lambda>c. config_id c = cid" "g_proxy_configs s"]
      length_remove_first [of "\<lambda>c. config_id c = cid" "g_proxy_configs s"]
    by (auto simp: DeleteProxyConfig_def configs_inv_def map_remove_first_sublist split: option.splits)
qed

theorem configs_inv_preserved_witness:
  "configs_inv (snd (AddProxyConfig \<lparr>os_malloc = (\<lambda>_. True), os_inet_pton6 = (\<lambda>_. None),
      os_getaddrinfo = (\<lambda>_. Some 5), os_process_image = (\<lambda>_. None), os_dnsapi = True\<rparr>
     PROXY_TYPE_SOCKS5 (Some ''proxy'') 1080 None None True pb_init))"
proof -
  have "configs_inv pb_init" and "g_next_config_id pb_init \<noteq> 0xFFFFFFFF"
    by (simp_all add: configs_inv_def pb_init_def)
  then show ?thesis using configs_inv_preserved by blast
qed

text \<open>A request with credentials, without a host or port, for a host that does not resolve, or beyond
  the sixteenth entry is refused and changes nothing; any other request appends one entry that is found
  under the number returned.\<close>

theorem AddProxyConfig_spec:
  assumes "configs_inv s"
  shows "if absent ip \<or> port = 0 \<or> \<not> absent user \<or> \<not> absent pass \<or>
            resolve_hostname (os_getaddrinfo os) ip = 0 \<or> length (g_proxy_configs s) = 16
     then AddProxyConfig os type ip port user pass sd s = (0, s)
     else (case AddProxyConfig os type ip port user pass sd s of (cid, s') \<Rightarrow>
       cid = g_next_config_id s \<and> g_udp_generation s' = g_udp_generation s + 1 \<and>
       (\<exists>cfg. g_proxy_configs s' = g_proxy_configs s @ [cfg] \<and> find_proxy_config s' cid = Some cfg \<and>
          pc_host cfg = take 255 (the ip) \<and> pc_port cfg = port \<and> pc_type cfg = type \<and>
          pc_resolved_ip cfg = resolve_hostname (os_getaddrinfo os) ip \<and> open_handles cfg = []))"
proof -
  have fresh: "find (\<lambda>c. config_id c = g_next_config_id s) (g_proxy_configs s) = None"
    using assms by (auto simp: find_None_iff configs_inv_def config_ok_def)
  have app: "find P (xs @ [x]) = (case find P xs of None \<Rightarrow> if P x then Some x else None | Some y \<Rightarrow> Some y)"
    for P and x :: PROXY_CONFIG and xs
    by (induction xs) auto
  show ?thesis
    using assms by (cases type) (auto simp: AddProxyConfig_def configs_inv_def Let_def find_proxy_config_def app fresh
        open_handles_def strncpy_trunc_def normal_type_def invalidate_udp_decisions_def)
qed

theorem AddProxyConfig_spec_witness:
  "AddProxyConfig \<lparr>os_malloc = (\<lambda>_. True), os_inet_pton6 = (\<lambda>_. None), os_getaddrinfo = (\<lambda>_. Some 5),
      os_process_image = (\<lambda>_. None), os_dnsapi = True\<rparr> PROXY_TYPE_SOCKS5 (Some ''proxy'') 1080 (Some ''me'') None True pb_init
   = (0, pb_init)"
proof -
  have "configs_inv pb_init" by (simp add: configs_inv_def pb_init_def)
  then show ?thesis
    using AddProxyConfig_spec [of pb_init "Some ''proxy''" 1080 "Some ''me''" None] by (simp add: absent_def)
qed

text \<open>Editing closes exactly the handles of the entry that it changes and forgets them; deleting closes
  exactly the handles of the entry that it removes. The other entries keep their order and content.\<close>

theorem proxy_handles_released:
  assumes "configs_inv s" and "find (\<lambda>c. config_id c = cid) (g_proxy_configs s) = Some cfg"
    and "\<not> absent ip" and "port \<noteq> 0" and "absent user" and "absent pass"
    and "resolve_hostname (os_getaddrinfo os) ip \<noteq> 0"
  shows "(case EditProxyConfig os cid type ip port user pass sd s of (ok, closed, s') \<Rightarrow>
       ok \<and> closed = open_handles cfg \<and>
       (\<exists>cfg'. find (\<lambda>c. config_id c = cid) (g_proxy_configs s') = Some cfg' \<and> open_handles cfg' = [] \<and> pc_port cfg' = port) \<and>
       filter (\<lambda>c. config_id c \<noteq> cid) (g_proxy_configs s') = filter (\<lambda>c. config_id c \<noteq> cid) (g_proxy_configs s)) \<and>
     (case DeleteProxyConfig cid s of (ok, closed, s') \<Rightarrow>
       ok \<and> closed = open_handles cfg \<and> g_proxy_configs s' = filter (\<lambda>c. config_id c \<noteq> cid) (g_proxy_configs s))"
proof -
  have d: "distinct (map config_id (g_proxy_configs s))" using assms(1) by (simp add: configs_inv_def)
  have r: "remove_first (\<lambda>c. config_id c = cid) xs = filter (\<lambda>c. config_id c \<noteq> cid) xs"
    if "distinct (map config_id xs)" for xs
    using that
  proof (induction xs)
    case (Cons x xs)
    then have "config_id x = cid \<Longrightarrow> filter (\<lambda>c. config_id c \<noteq> cid) xs = xs" by (auto simp: filter_id_conv image_iff)
    with Cons show ?case by auto
  qed simp
  have u: "filter (\<lambda>c. config_id c \<noteq> cid) (update_first (\<lambda>c. config_id c = cid) f xs) = filter (\<lambda>c. config_id c \<noteq> cid) xs"
    if "\<And>c. config_id (f c) = config_id c" for f xs
    by (induction xs) (auto simp: that)
  show ?thesis
    using assms(2-) by (simp add: EditProxyConfig_def DeleteProxyConfig_def Let_def r [OF d] u find_update_first_key open_handles_def)
qed

definition one_config :: pb where
  "one_config = pb_init\<lparr>g_next_config_id := 2, g_proxy_configs := [\<lparr>config_id = 1, pc_type = PROXY_TYPE_SOCKS5,
      pc_host = ''h'', pc_port = 1080, pc_send_domain_to_proxy = True, pc_resolved_ip = 5, pc_last_udp_attempt = 0,
      pc_udp_tcp_ctrl = Some 9, pc_udp_send_sock = None, pc_udp_relay_addr = (0, 0), pc_udp_connected = True\<rparr>]\<rparr>"

theorem proxy_handles_released_witness:
  "case DeleteProxyConfig 1 one_config of (ok, closed, s') \<Rightarrow> ok \<and> closed = [9] \<and> g_proxy_configs s' = []"
proof -
  have "configs_inv one_config" by (simp add: one_config_def configs_inv_def config_ok_def pb_init_def)
  then show ?thesis
    using proxy_handles_released [of one_config 1 "hd (g_proxy_configs one_config)" "Some ''h''" 1 None None
        "\<lparr>os_malloc = (\<lambda>_. True), os_inet_pton6 = (\<lambda>_. None), os_getaddrinfo = (\<lambda>_. Some 5),
          os_process_image = (\<lambda>_. None), os_dnsapi = True\<rparr>"]
    by (auto simp: one_config_def absent_def resolve_hostname_def Let_def open_handles_def)
qed

end
