(* ===== verification/PB_Match.thy ===== *)
theory PB_Match
  imports PB_Util
begin

text \<open>
  The pattern matchers of \<open>pb_rules.c\<close>: IPv4 and IPv6 host patterns, port patterns, process
  patterns with wildcards, domain patterns, and the semicolon or comma separated lists of them.
  Fixed-size buffers appear as the truncations they cause. Theorems: the recursive wildcard
  matcher decides the declarative glob relation; a printed octet pattern, address range or port
  range matches exactly the addresses and ports it denotes; a CIDR pattern compares exactly the
  first \<open>prefix_len\<close> bits.
\<close>

section \<open>IPv4 patterns\<close>

definition dotted_word :: "int list \<Rightarrow> u32" where
  "dotted_word vs =
     word_of_int (vs ! 0) OR push_bit 8 (word_of_int (vs ! 1)) OR
     push_bit 16 (word_of_int (vs ! 2)) OR push_bit 24 (word_of_int (vs ! 3))"

text \<open>The loop that cuts the pattern at dots into at most four octet buffers of 15 characters.\<close>

fun split_octets :: "string \<Rightarrow> string list \<Rightarrow> string \<Rightarrow> string list" where
  "split_octets [] finished current =
     (if length finished < 4 then finished @ [current] else finished)"
| "split_octets (c # cs) finished current =
     (if length finished < 4
      then if c = CHR ''.'' then split_octets cs (finished @ [current]) []
           else split_octets cs finished (if length current < 15 then current @ [c] else current)
      else finished)"

definition match_ip_pattern :: "string option \<Rightarrow> u32 \<Rightarrow> bool" where
  "match_ip_pattern pattern ip =
     (case pattern of
        None \<Rightarrow> True
      | Some p \<Rightarrow>
          if p = ''*'' then True
          else case strchr p (CHR ''-'') of
            Some start_len \<Rightarrow>
              if 64 \<le> start_len then False
              else
                let ss = scan_dotted 4 (take start_len p);
                    es = scan_dotted 4 (strncpy_trunc 64 (drop (Suc start_len) p))
                in if length ss = 4 \<and> length es = 4
                   then (let ip_be = ntohl ip; start_be = ntohl (dotted_word ss);
                             end_be = ntohl (dotted_word es)
                         in start_be \<le> ip_be \<and> ip_be \<le> end_be)
                   else False
          | None \<Rightarrow>
              let pattern_octets = split_octets (strncpy_trunc 256 p) [] []
              in if length pattern_octets \<noteq> 4 then False
                 else list_all
                        (\<lambda>i. pattern_octets ! i = ''*'' \<or>
                             atoi (pattern_octets ! i) = int (unat (octet i ip)))
                        [0, 1, 2, 3])"

definition match_port_pattern :: "string option \<Rightarrow> u16 \<Rightarrow> bool" where
  "match_port_pattern pattern port =
     (case pattern of
        None \<Rightarrow> True
      | Some p \<Rightarrow>
          if p = ''*'' then True
          else case strchr p (CHR ''-'') of
            Some i \<Rightarrow> atoi p \<le> int (unat port) \<and> int (unat port) \<le> atoi (drop (Suc i) p)
          | None \<Rightarrow> int (unat port) = atoi p)"

definition ip_match_wrapper :: "u32 \<Rightarrow> string \<Rightarrow> bool" where
  "ip_match_wrapper ip token = match_ip_pattern (Some token) ip"

definition match_ip_list :: "os \<Rightarrow> string option \<Rightarrow> u32 \<Rightarrow> bool" where
  "match_ip_list os ip_list ip = parse_token_list (os_malloc os) ip_list '';'' (ip_match_wrapper ip)"

section \<open>IPv6 patterns\<close>

text \<open>\<open>memcmp\<close> on two buffers of one length: -1, 0 or 1.\<close>

fun memcmp :: "bytes \<Rightarrow> bytes \<Rightarrow> int" where
  "memcmp (a # as) (b # bs) = (if a < b then - 1 else if b < a then 1 else memcmp as bs)"
| "memcmp _ _ = 0"

definition match_ip_pattern_v6 :: "os \<Rightarrow> string option \<Rightarrow> ip6 \<Rightarrow> bool" where
  "match_ip_pattern_v6 os pattern ip6 =
     (case pattern of
        None \<Rightarrow> True
      | Some p \<Rightarrow>
          if p = ''*'' then True
          else if strchr p (CHR '':'') = None then False
          else
            let pat_copy = strncpy_trunc 128 p in
            case strchr pat_copy (CHR ''/'') of
              Some i \<Rightarrow>
                let prefix_len = atoi (drop (Suc i) pat_copy) in
                if prefix_len < 0 \<or> 128 < prefix_len then False
                else (case os_inet_pton6 os (take i pat_copy) of
                   None \<Rightarrow> False
                 | Some network \<Rightarrow>
                     let full_bytes = nat prefix_len div 8; rem_bits = nat prefix_len mod 8 in
                     if 0 < full_bytes \<and> memcmp (take full_bytes ip6) (take full_bytes network) \<noteq> 0
                     then False
                     else if 0 < rem_bits
                     then (let mask = push_bit (8 - rem_bits) (0xFF :: u8) in
                           ip6 ! full_bytes AND mask = network ! full_bytes AND mask)
                     else True)
            | None \<Rightarrow>
                (case strchr pat_copy (CHR ''-'') of
                   Some i \<Rightarrow>
                     (case (os_inet_pton6 os (take i pat_copy),
                            os_inet_pton6 os (drop (Suc i) pat_copy)) of
                        (Some start6, Some end6) \<Rightarrow> 0 \<le> memcmp ip6 start6 \<and> memcmp ip6 end6 \<le> 0
                      | _ \<Rightarrow> False)
                 | None \<Rightarrow>
                     (case os_inet_pton6 os p of
                        None \<Rightarrow> False
                      | Some addr6 \<Rightarrow> memcmp ip6 addr6 = 0)))"

definition ip_match_wrapper_v6 :: "os \<Rightarrow> ip6 \<Rightarrow> string \<Rightarrow> bool" where
  "ip_match_wrapper_v6 os ip6 token = match_ip_pattern_v6 os (Some token) ip6"

definition match_ip_list_v6 :: "os \<Rightarrow> string option \<Rightarrow> ip6 \<Rightarrow> bool" where
  "match_ip_list_v6 os ip_list ip6 =
     parse_token_list (os_malloc os) ip_list '';'' (ip_match_wrapper_v6 os ip6)"

definition port_match_wrapper :: "u16 \<Rightarrow> string \<Rightarrow> bool" where
  "port_match_wrapper port token = match_port_pattern (Some token) port"

definition match_port_list :: "os \<Rightarrow> string option \<Rightarrow> u16 \<Rightarrow> bool" where
  "match_port_list os port_list port =
     parse_token_list (os_malloc os) port_list '',;'' (port_match_wrapper port)"

section \<open>Process patterns\<close>

text \<open>\<open>wildcard_match\<close>; the inner loop over the text positions after a star is
  \<open>wildcard_scan\<close>.\<close>

function (sequential)
  wildcard_match :: "string \<Rightarrow> string \<Rightarrow> bool" and
  wildcard_scan :: "string \<Rightarrow> string \<Rightarrow> bool" where
  "wildcard_match pattern [] \<longleftrightarrow> dropWhile (\<lambda>c. c = CHR ''*'') pattern = []"
| "wildcard_match [] (t # ts) \<longleftrightarrow> False"
| "wildcard_match (c # cs) (t # ts) \<longleftrightarrow>
     (if c = CHR ''*''
      then let pattern = dropWhile (\<lambda>c. c = CHR ''*'') cs in
           if pattern = [] then True else wildcard_scan pattern (t # ts)
      else tolower c = tolower t \<and> wildcard_match cs ts)"
| "wildcard_scan pattern [] \<longleftrightarrow> False"
| "wildcard_scan pattern (t # ts) \<longleftrightarrow>
     wildcard_match pattern (t # ts) \<or> wildcard_scan pattern ts"
  by pat_completeness auto
termination
  by (relation "measures [case_sum (length \<circ> snd) (length \<circ> snd),
       case_sum (length \<circ> fst) (length \<circ> fst), case_sum (\<lambda>_. 0) (\<lambda>_. 1)]")
    (auto simp: less_Suc_eq_le length_dropWhile_le)

definition match_process_pattern :: "string option \<Rightarrow> string \<Rightarrow> bool" where
  "match_process_pattern pattern process_full_path =
     (case pattern of
        None \<Rightarrow> True
      | Some p \<Rightarrow>
          if p = ''*'' then True
          else
            let filename = (case strrchr process_full_path (CHR 0x5C) of
                   Some i \<Rightarrow> drop (Suc i) process_full_path
                 | None \<Rightarrow> process_full_path);
                is_full_path_pattern = (strchr p (CHR 0x5C) \<noteq> None \<or> strchr p (CHR ''/'') \<noteq> None);
                match_target = (if is_full_path_pattern then process_full_path else filename)
            in if strchr p (CHR ''*'') \<noteq> None then wildcard_match p match_target
               else stricmp_eq p match_target)"

text \<open>Trailing blanks are cut while more than one character is left; a token that starts with a
  quote loses it and everything from the next quote on.\<close>

definition trim_process_token :: "string \<Rightarrow> string" where
  "trim_process_token token =
     (case skip_whitespace token of
        [] \<Rightarrow> []
      | c # cs \<Rightarrow> c # rev (dropWhile is_blank (rev cs)))"

definition unquote_token :: "string \<Rightarrow> string" where
  "unquote_token token =
     (case token of
        [] \<Rightarrow> []
      | c # cs \<Rightarrow>
          if c = CHR 0x22 \<and> 1 < length token
          then (case strchr cs (CHR 0x22) of Some i \<Rightarrow> take i cs | None \<Rightarrow> cs)
          else token)"

definition match_process_list :: "os \<Rightarrow> string option \<Rightarrow> string \<Rightarrow> bool" where
  "match_process_list os process_list process_name =
     (case process_list of
        None \<Rightarrow> True
      | Some l \<Rightarrow>
          if l = '''' \<or> l = ''*'' then True
          else
            let len = min (length l) MAX_LIST_SIZE + 1 in
            if len \<le> 256 \<or> os_malloc os len
            then list_ex
                   (\<lambda>token. match_process_pattern (Some (unquote_token (trim_process_token token)))
                      process_name)
                   (strtok_all '',;'' (take MAX_LIST_SIZE l))
            else False)"

section \<open>Domain patterns\<close>

definition match_domain_pattern :: "string option \<Rightarrow> string option \<Rightarrow> bool" where
  "match_domain_pattern pattern domain =
     (case pattern of
        None \<Rightarrow> True
      | Some p \<Rightarrow>
          if p = '''' \<or> p = ''*'' then True
          else (case domain of
             None \<Rightarrow> False
           | Some d \<Rightarrow>
               if d = '''' then False
               else if take 2 p = ''*.'' \<and> 2 < length p \<and> stricmp_eq (drop 2 p) d then True
               else if strchr p (CHR ''*'') \<noteq> None then wildcard_match p d
               else stricmp_eq p d))"

definition trim_domain_token :: "string \<Rightarrow> string" where
  "trim_domain_token token = rev (dropWhile is_blank (rev (skip_whitespace token)))"

definition match_domain_list :: "os \<Rightarrow> string option \<Rightarrow> string option \<Rightarrow> bool" where
  "match_domain_list os domain_list domain =
     (case domain_list of
        None \<Rightarrow> True
      | Some l \<Rightarrow>
          if l = '''' \<or> l = ''*'' then True
          else (case domain of
             None \<Rightarrow> False
           | Some d \<Rightarrow>
               if d = '''' then False
               else
                 let len = min (length l) MAX_LIST_SIZE + 1 in
                 if len \<le> 256 \<or> os_malloc os len
                 then list_ex
                        (\<lambda>token. let tok = trim_domain_token token in
                           tok \<noteq> '''' \<and> match_domain_pattern (Some tok) (Some d))
                        (strtok_all '',;'' (take MAX_LIST_SIZE l))
                 else False))"

definition rule_has_domain_filter :: "PROCESS_RULE \<Rightarrow> bool" where
  "rule_has_domain_filter rule \<longleftrightarrow> r_target_domains rule \<noteq> '''' \<and> r_target_domains rule \<noteq> ''*''"

definition match_domain_filter :: "os \<Rightarrow> PROCESS_RULE \<Rightarrow> string option \<Rightarrow> bool" where
  "match_domain_filter os rule domain =
     (if \<not> rule_has_domain_filter rule then True
      else case domain of
             None \<Rightarrow> False
           | Some d \<Rightarrow>
               if d = '''' then False
               else match_domain_list os (Some (r_target_domains rule)) domain)"

section \<open>Address classes\<close>

definition is_loopback_v4 :: "u32 \<Rightarrow> bool" where
  "is_loopback_v4 ip \<longleftrightarrow> drop_bit 24 (ntohl ip) = 127"

definition loopback6 :: ip6 where
  "loopback6 = replicate 15 0 @ [1]"

definition mapped_prefix :: bytes where
  "mapped_prefix = replicate 10 0 @ [0xFF, 0xFF]"

definition is_loopback_v6 :: "ip6 \<Rightarrow> bool" where
  "is_loopback_v6 ip \<longleftrightarrow> ip = loopback6 \<or> (take 12 ip = mapped_prefix \<and> ip ! 12 = 127)"

definition is_ipv6_multicast_or_linklocal :: "ip6 \<Rightarrow> bool" where
  "is_ipv6_multicast_or_linklocal ip6 \<longleftrightarrow>
     ip6 ! 0 = 0xFF \<or>
     (ip6 ! 0 = 0xFE \<and> ip6 ! 1 AND 0xC0 = 0x80) \<or>
     (ip6 ! 0 = 0xFE \<and> ip6 ! 1 AND 0xC0 = 0xC0) \<or>
     ip6 = replicate 16 0"

definition is_broadcast_or_multicast :: "u32 \<Rightarrow> bool" where
  "is_broadcast_or_multicast ip \<longleftrightarrow>
     (let first_octet = octet 0 ip; second_octet = octet 1 ip in
      (first_octet = 169 \<and> second_octet = 254) \<or>
      ip = 0xFFFFFFFF \<or>
      ip AND 0xFF000000 = 0xFF000000 \<or>
      (224 \<le> first_octet \<and> first_octet \<le> 239))"

section \<open>What the matchers decide\<close>

subsection \<open>Wildcards\<close>

text \<open>The declarative meaning of a pattern: a star stands for any text, any other character for
  itself up to case.\<close>

inductive glob :: "string \<Rightarrow> string \<Rightarrow> bool" where
  glob_nil: "glob [] []"
| glob_star: "glob p v \<Longrightarrow> glob (CHR ''*'' # p) (u @ v)"
| glob_char: "c \<noteq> CHR ''*'' \<Longrightarrow> tolower c = tolower t \<Longrightarrow> glob p ts \<Longrightarrow> glob (c # p) (t # ts)"

inductive_simps glob_Nil_simp: "glob [] t"
inductive_simps glob_Cons_simp: "glob (c # p) t"

lemma glob_star_iff: "glob (CHR ''*'' # p) t \<longleftrightarrow> (\<exists>u v. t = u @ v \<and> glob p v)"
  by (auto simp: glob_Cons_simp)

lemma glob_star_Cons: "glob (CHR ''*'' # p) (t # ts) \<longleftrightarrow> glob p (t # ts) \<or> glob (CHR ''*'' # p) ts"
  unfolding glob_star_iff by (metis Cons_eq_append_conv append_Nil)

lemma glob_star_star: "glob (CHR ''*'' # CHR ''*'' # p) t \<longleftrightarrow> glob (CHR ''*'' # p) t"
  unfolding glob_star_iff by (metis append.assoc append_Nil)

lemma glob_star_empty: "glob (CHR ''*'' # p) [] \<longleftrightarrow> glob p []"
  by (simp add: glob_star_iff)

lemma glob_star_dropWhile:
  "glob (CHR ''*'' # p) t \<longleftrightarrow> glob (CHR ''*'' # dropWhile (\<lambda>c. c = CHR ''*'') p) t"
  by (induction p) (auto simp: glob_star_star)

lemma glob_Nil_text: "glob p [] \<longleftrightarrow> dropWhile (\<lambda>c. c = CHR ''*'') p = []"
  by (induction p) (auto simp: glob_Nil_simp glob_star_empty glob_Cons_simp[of _ _ "[]"])

lemma wildcard_match_scan_glob:
  "wildcard_match p t \<longleftrightarrow> glob p t"
  "q \<noteq> [] \<Longrightarrow> hd q \<noteq> CHR ''*'' \<Longrightarrow> wildcard_scan q s \<longleftrightarrow> glob (CHR ''*'' # q) s"
proof (induction p t and q s rule: wildcard_match_wildcard_scan.induct)
  case (1 pattern)
  then show ?case by (simp add: glob_Nil_text)
next
  case (2 t ts)
  then show ?case by (simp add: glob_Nil_simp)
next
  case (3 c cs t ts)
  let ?q = "dropWhile (\<lambda>c. c = CHR ''*'') cs"
  show ?case
  proof (cases "c = CHR ''*''")
    case True
    have hd: "?q \<noteq> [] \<Longrightarrow> hd ?q \<noteq> CHR ''*''" using hd_dropWhile by blast
    have g: "glob (c # cs) (t # ts) \<longleftrightarrow> glob (CHR ''*'' # ?q) (t # ts)"
      using True glob_star_dropWhile by blast
    show ?thesis
    proof (cases "?q = []")
      case q: True
      have "glob (CHR ''*'' # []) (t # ts)" by (auto simp: glob_star_iff glob_Nil_simp)
      then have "glob (c # cs) (t # ts)" by (simp only: g q)
      then show ?thesis using True q by simp
    next
      case False
      have "wildcard_match (c # cs) (t # ts) \<longleftrightarrow> wildcard_scan ?q (t # ts)"
        using True False by (simp only: wildcard_match.simps Let_def if_True if_False simp_thms)
      also have "\<dots> \<longleftrightarrow> glob (CHR ''*'' # ?q) (t # ts)"
        by (rule "3.IH"(1) [OF True refl False False hd [OF False]])
      also have "\<dots> \<longleftrightarrow> glob (c # cs) (t # ts)" by (simp only: g)
      finally show ?thesis .
    qed
  next
    case False
    with "3.IH"(2) show ?thesis by (auto simp: glob_Cons_simp)
  qed
next
  case (4 pattern)
  then show ?case by (cases pattern) (simp_all add: glob_star_empty glob_Nil_text)
next
  case (5 pattern t ts)
  then show ?case by (simp add: glob_star_Cons)
qed



text \<open>C34. The matcher with its inner scan over text positions decides exactly the glob relation:
  every star may absorb any text, every other character matches itself up to ASCII case.\<close>

theorem wildcard_match_glob: "wildcard_match p t \<longleftrightarrow> glob p t"
  by (rule wildcard_match_scan_glob(1))

subsection \<open>IPv4 octet patterns and ranges\<close>

lemma strchr_None_iff: "strchr s c = None \<longleftrightarrow> c \<notin> set s"
  by (induction s) auto

lemma strchr_append: "c \<notin> set s \<Longrightarrow> strchr (s @ c # t) c = Some (length s)"
  by (induction s) auto

lemma split_octets_step:
  "CHR ''.'' \<notin> set w \<Longrightarrow> length current + length w \<le> 15 \<Longrightarrow> length fin < 4 \<Longrightarrow>
   split_octets (w @ CHR ''.'' # rest) fin current = split_octets rest (fin @ [current @ w]) []"
  by (induction w arbitrary: current) auto

lemma split_octets_last:
  "CHR ''.'' \<notin> set w \<Longrightarrow> length current + length w \<le> 15 \<Longrightarrow> length fin < 4 \<Longrightarrow>
   split_octets w fin current = fin @ [current @ w]"
  by (induction w arbitrary: current) auto

text \<open>The text of an octet pattern, with \<open>None\<close> for a star, and what it admits.\<close>

definition octet_text :: "nat option \<Rightarrow> string" where
  "octet_text x = (case x of None \<Rightarrow> ''*'' | Some n \<Rightarrow> decimal n)"

definition ip_pattern_text :: "nat option \<Rightarrow> nat option \<Rightarrow> nat option \<Rightarrow> nat option \<Rightarrow> string" where
  "ip_pattern_text a b c d =
     octet_text a @ ''.'' @ octet_text b @ ''.'' @ octet_text c @ ''.'' @ octet_text d"

definition octet_ok :: "nat option \<Rightarrow> u8 \<Rightarrow> bool" where
  "octet_ok x o8 \<longleftrightarrow> (case x of None \<Rightarrow> True | Some n \<Rightarrow> unat o8 = n)"

definition octet_spec :: "nat option \<Rightarrow> bool" where
  "octet_spec x \<longleftrightarrow> (case x of None \<Rightarrow> True | Some n \<Rightarrow> n < 256)"

lemma digit_chars: "is_digit c \<Longrightarrow> c \<noteq> CHR ''.'' \<and> c \<noteq> CHR ''-'' \<and> c \<noteq> CHR ''*''"
  by (auto simp: is_digit_def)

lemma decimal_not_in:
  "CHR ''.'' \<notin> set (decimal n)" "CHR ''-'' \<notin> set (decimal n)" "CHR ''*'' \<notin> set (decimal n)"
  using decimal_digits [of n] digit_chars by blast+

lemma atoi_decimal: "n < 2147483648 \<Longrightarrow> no_digit rest \<Longrightarrow> atoi (decimal n @ rest) = int n"
  by (simp add: atoi_def scan_int_decimal)

lemma octet_text_facts:
  assumes "octet_spec x"
  shows "CHR ''.'' \<notin> set (octet_text x)" "CHR ''-'' \<notin> set (octet_text x)" "length (octet_text x) \<le> 3"
    "(octet_text x = ''*'' \<or> atoi (octet_text x) = int (unat (octet i ip))) \<longleftrightarrow> octet_ok x (octet i ip)"
proof -
  have d: "decimal n \<noteq> ''*''" for n using decimal_not_in(3) [of n] by auto
  show "CHR ''.'' \<notin> set (octet_text x)" "CHR ''-'' \<notin> set (octet_text x)" "length (octet_text x) \<le> 3"
    using assms by (auto simp: octet_text_def octet_spec_def decimal_not_in length_decimal_octet split: option.splits)
  show "(octet_text x = ''*'' \<or> atoi (octet_text x) = int (unat (octet i ip))) \<longleftrightarrow> octet_ok x (octet i ip)"
    using assms d atoi_decimal [OF _ no_digit_Nil]
    by (auto simp: octet_text_def octet_spec_def octet_ok_def simp del: of_nat_unat split: option.splits)
qed

text \<open>A pattern of four octets, each a number below 256 or a star, matches an IPv4 address exactly
  when every numeric octet equals the octet of the address (dotted order is memory order).\<close>

theorem match_ip_pattern_octets:
  assumes "octet_spec a" and "octet_spec b" and "octet_spec c" and "octet_spec d"
  shows "match_ip_pattern (Some (ip_pattern_text a b c d)) ip \<longleftrightarrow>
     octet_ok a (octet 0 ip) \<and> octet_ok b (octet 1 ip) \<and> octet_ok c (octet 2 ip) \<and> octet_ok d (octet 3 ip)"
proof -
  let ?p = "ip_pattern_text a b c d"
  note f = octet_text_facts [OF assms(1)] octet_text_facts [OF assms(2)]
    octet_text_facts [OF assms(3)] octet_text_facts [OF assms(4)]
  have "CHR ''-'' \<notin> set ?p" using f by (simp add: ip_pattern_text_def)
  moreover have "?p \<noteq> ''*''" by (auto simp: ip_pattern_text_def Cons_eq_append_conv)
  moreover have "strncpy_trunc 256 ?p = ?p"
    using f by (simp add: strncpy_trunc_def ip_pattern_text_def)
  moreover have "split_octets ?p [] [] = [octet_text a, octet_text b, octet_text c, octet_text d]"
    using f by (simp add: ip_pattern_text_def split_octets_step split_octets_last)
  ultimately show ?thesis
    using f by (simp add: match_ip_pattern_def strchr_None_iff [THEN iffD2])
qed

theorem match_ip_pattern_octets_witness:
  "match_ip_pattern (Some (ip_pattern_text (Some 10) None None (Some 5))) 0x0501000A"
  using match_ip_pattern_octets [of "Some 10" None None "Some 5" "0x0501000A"]
  by (simp add: octet_spec_def octet_ok_def octet_def)

lemma format_ip_not_dash: "CHR ''-'' \<notin> set (format_ip_address ip 32)"
  by (simp add: format_ip_address_full decimal_not_in)

lemma length_format_ip: "length (format_ip_address ip 32) \<le> 31"
  by (simp add: format_ip_address_def strncpy_trunc_def)

lemma scan_dotted_format:
  "scan_dotted 4 (format_ip_address ip 32) =
     [int (unat (octet 0 ip)), int (unat (octet 1 ip)), int (unat (octet 2 ip)), int (unat (octet 3 ip))]"
  using scan_dotted_decimal [OF no_digit_Nil] by (simp add: format_ip_address_full)

lemma dotted_word_format: "dotted_word (scan_dotted 4 (format_ip_address ip 32)) = ip"
  using bytes_to_u32_to_bytes [of ip]
  by (simp add: scan_dotted_format dotted_word_def word_of_int_unat_octet bytes_to_u32_def u32_to_bytes_def)

text \<open>A range printed as two dotted addresses matches exactly the addresses between them in
  numeric (host byte order) order, both ends included.\<close>

theorem match_ip_pattern_range:
  "match_ip_pattern (Some (format_ip_address lo 32 @ ''-'' @ format_ip_address hi 32)) ip \<longleftrightarrow>
     ntohl lo \<le> ntohl ip \<and> ntohl ip \<le> ntohl hi"
proof -
  let ?l = "format_ip_address lo 32" and ?h = "format_ip_address hi 32"
  have "strchr (?l @ CHR ''-'' # ?h) (CHR ''-'') = Some (length ?l)"
    by (rule strchr_append) (rule format_ip_not_dash)
  moreover have "?l @ CHR ''-'' # ?h \<noteq> ''*''" by (cases ?l) auto
  moreover have "strncpy_trunc 64 ?h = ?h"
    using length_format_ip [of hi] by (simp add: strncpy_trunc_def)
  ultimately show ?thesis
    using length_format_ip [of lo]
    by (simp add: match_ip_pattern_def dotted_word_format Let_def) (simp add: scan_dotted_format)
qed

text \<open>A port range matches exactly the ports between its two ends, both included.\<close>

theorem match_port_pattern_range:
  assumes "lo < 65536" and "hi < 65536"
  shows "match_port_pattern (Some (decimal lo @ ''-'' @ decimal hi)) port \<longleftrightarrow>
     lo \<le> unat port \<and> unat port \<le> hi"
proof -
  let ?p = "decimal lo @ CHR ''-'' # decimal hi"
  have "strchr ?p (CHR ''-'') = Some (length (decimal lo))"
    by (rule strchr_append) (rule decimal_not_in)
  moreover have "?p \<noteq> ''*''" by (cases "decimal lo") auto
  moreover have "atoi ?p = int lo"
    using assms by (intro atoi_decimal) (auto simp: no_digit_def is_digit_def)
  moreover have "atoi (decimal hi) = int hi"
    using assms atoi_decimal [OF _ no_digit_Nil, of hi] by simp
  ultimately show ?thesis by (simp add: match_port_pattern_def del: of_nat_unat)
qed

theorem match_port_pattern_range_witness:
  "match_port_pattern (Some (decimal 8000 @ ''-'' @ decimal 9000)) 8443"
  using match_port_pattern_range [of 8000 9000 8443] by simp


subsection \<open>IPv6 prefixes\<close>

text \<open>Bit \<open>i\<close> of an address, counted from the most significant bit of its first byte.\<close>

definition addr_bit :: "ip6 \<Rightarrow> nat \<Rightarrow> bool" where
  "addr_bit a i = bit (a ! (i div 8)) (7 - i mod 8)"

lemma memcmp_zero: "length xs = length ys \<Longrightarrow> memcmp xs ys = 0 \<longleftrightarrow> xs = ys"
  by (induction xs ys rule: list_induct2) auto

lemma u8_eq_bits: "(a :: u8) = b \<longleftrightarrow> (\<forall>j < 8. bit a (7 - j) = bit b (7 - j))"
proof
  assume *: "\<forall>j < 8. bit a (7 - j) = bit b (7 - j)"
  show "a = b"
  proof (rule bit_word_eqI)
    fix n assume "n < LENGTH(8)"
    then show "bit a n = bit b n" using * [rule_format, of "7 - n"] by simp
  qed
qed simp

lemma take_eq_bits:
  assumes "length a = 16" and "length b = 16" and "k \<le> 16"
  shows "take k a = take k b \<longleftrightarrow> (\<forall>i < 8 * k. addr_bit a i = addr_bit b i)"
proof -
  have "take k a = take k b \<longleftrightarrow> (\<forall>m < k. a ! m = b ! m)"
    using assms by (auto simp: list_eq_iff_nth_eq)
  also have "\<dots> \<longleftrightarrow> (\<forall>m < k. \<forall>j < 8. addr_bit a (8 * m + j) = addr_bit b (8 * m + j))"
    by (simp only: u8_eq_bits addr_bit_def) simp
  also have "\<dots> \<longleftrightarrow> (\<forall>i < 8 * k. addr_bit a i = addr_bit b i)"
  proof (rule iffI; intro allI impI)
    fix i assume *: "\<forall>m < k. \<forall>j < 8. addr_bit a (8 * m + j) = addr_bit b (8 * m + j)" and "i < 8 * k"
    then have "i div 8 < k" by (simp add: less_mult_imp_div_less mult.commute)
    then show "addr_bit a i = addr_bit b i"
      using * [rule_format, of "i div 8" "i mod 8"] by simp
  next
    fix m j assume *: "\<forall>i < 8 * k. addr_bit a i = addr_bit b i" and "m < k" and "j < (8 :: nat)"
    then have "8 * m + j < 8 * k" by simp
    with * show "addr_bit a (8 * m + j) = addr_bit b (8 * m + j)" by blast
  qed
  finally show ?thesis .
qed

lemma mask_eq_bits:
  assumes "r < 8"
  shows "(x :: u8) AND push_bit (8 - r) 0xFF = y AND push_bit (8 - r) 0xFF \<longleftrightarrow>
     (\<forall>j < r. bit x (7 - j) = bit y (7 - j))"
proof -
  have b: "bit (push_bit (8 - r) (0xFF :: u8)) n \<longleftrightarrow> 8 - r \<le> n" if "n < 8" for n
  proof -
    have "(0xFF :: u8) = - 1" by simp
    then show ?thesis using that by (simp only: bit_push_bit_iff bit_minus_1_iff) auto
  qed
  show ?thesis
  proof
    assume e: "x AND push_bit (8 - r) 0xFF = y AND push_bit (8 - r) 0xFF"
    show "\<forall>j < r. bit x (7 - j) = bit y (7 - j)"
    proof (intro allI impI)
      fix j assume "j < r"
      moreover have "bit (x AND push_bit (8 - r) 0xFF) (7 - j) = bit (y AND push_bit (8 - r) 0xFF) (7 - j)"
        by (simp only: e)
      moreover have "8 - r \<le> 7 - j" and "7 - j < 8" using \<open>j < r\<close> assms by linarith+
      ultimately show "bit x (7 - j) = bit y (7 - j)"
        using b [of "7 - j"] by (simp add: bit_and_iff)
    qed
  next
    assume e: "\<forall>j < r. bit x (7 - j) = bit y (7 - j)"
    show "x AND push_bit (8 - r) 0xFF = y AND push_bit (8 - r) 0xFF"
    proof (rule bit_word_eqI)
      fix n assume "n < LENGTH(8)"
      then show "bit (x AND push_bit (8 - r) 0xFF) n = bit (y AND push_bit (8 - r) 0xFF) n"
        using e [rule_format, of "7 - n"] b [of n] by (auto simp: bit_and_iff)
    qed
  qed
qed

lemma all_less_split: "(\<forall>i < 8 * k + r. P i) \<longleftrightarrow> (\<forall>i < 8 * k. P i) \<and> (\<forall>j < r. P (8 * k + j :: nat))"
proof (intro iffI conjI allI impI)
  fix i assume *: "(\<forall>i < 8 * k. P i) \<and> (\<forall>j < r. P (8 * k + j))" and i: "i < 8 * k + r"
  show "P i"
  proof (cases "i < 8 * k")
    case False
    then have "i = 8 * k + (i - 8 * k)" and "i - 8 * k < r" using i by simp_all
    then show ?thesis using * by metis
  qed (use * in blast)
qed simp_all

lemma strncpy_trunc_id: "length s < n \<Longrightarrow> strncpy_trunc n s = s"
  by (simp add: strncpy_trunc_def)

text \<open>An IPv6 CIDR pattern matches exactly the addresses that agree with the network address on the
  first \<open>n\<close> bits, for every prefix length from 0 to 128, byte-aligned or not. The hypotheses
  describe \<open>inet_pton\<close>: the text before the slash is read as sixteen bytes.\<close>

theorem match_ip_pattern_v6_cidr:
  assumes "os_inet_pton6 os t = Some net" and "length net = 16" and "length ip6 = 16"
    and "n \<le> 128" and "CHR '':'' \<in> set t" and "CHR ''/'' \<notin> set t" and "length t \<le> 123"
  shows "match_ip_pattern_v6 os (Some (t @ ''/'' @ decimal n)) ip6 \<longleftrightarrow>
     (\<forall>i < n. addr_bit ip6 i = addr_bit net i)"
proof -
  let ?p = "t @ CHR ''/'' # decimal n" and ?k = "n div 8" and ?r = "n mod 8"
  let ?same = "\<lambda>i. addr_bit ip6 i = addr_bit net i"
  obtain y where colon: "strchr ?p (CHR '':'') = Some y"
    using assms(5) strchr_None_iff [of ?p "CHR '':''"] by auto
  have star: "?p \<noteq> ''*''" using assms(5) by (cases t) auto
  have copy: "strncpy_trunc 128 ?p = ?p"
    using assms(4,7) length_decimal_octet [of n] by (intro strncpy_trunc_id) simp
  have slash: "strchr ?p (CHR ''/'') = Some (length t)" by (rule strchr_append) (rule assms)
  have len: "atoi (decimal n) = int n"
    using assms(4) atoi_decimal [OF _ no_digit_Nil, of n] by simp
  have "match_ip_pattern_v6 os (Some ?p) ip6 \<longleftrightarrow>
      (0 < ?k \<longrightarrow> memcmp (take ?k ip6) (take ?k net) = 0) \<and>
      (0 < ?r \<longrightarrow> ip6 ! ?k AND push_bit (8 - ?r) 0xFF = net ! ?k AND push_bit (8 - ?r) 0xFF)"
  proof -
    define k and r where "k = ?k" and "r = ?r"
    then have "nat (int n) div 8 = k" and "nat (int n) mod 8 = r" by simp_all
    with star assms(1,4) show ?thesis
      by (simp add: match_ip_pattern_v6_def colon copy slash len Let_def flip: k_def r_def)
  qed
  also have "\<dots> \<longleftrightarrow> (0 < ?k \<longrightarrow> (\<forall>i < 8 * ?k. ?same i)) \<and> (0 < ?r \<longrightarrow> (\<forall>j < ?r. ?same (8 * ?k + j)))"
    using assms(2-4) mask_eq_bits [of ?r "ip6 ! ?k" "net ! ?k"]
    by (simp add: memcmp_zero take_eq_bits addr_bit_def [of _ "8 * ?k + _"])
  also have "\<dots> \<longleftrightarrow> (\<forall>i < n. ?same i)"
    using all_less_split [of ?k ?r ?same] by auto
  finally show ?thesis by simp
qed

definition pton_sample :: os where
  "pton_sample = \<lparr>os_malloc = (\<lambda>_. True),
     os_inet_pton6 = (\<lambda>t. if t = ''fe80::'' then Some (0xFE # 0x80 # replicate 14 0) else None),
     os_getaddrinfo = (\<lambda>_. None), os_process_image = (\<lambda>_. None), os_dnsapi = True\<rparr>"

theorem match_ip_pattern_v6_cidr_witness:
  "match_ip_pattern_v6 pton_sample (Some (''fe80::'' @ ''/'' @ decimal 10)) (0xFE # 0xBF # replicate 14 7) \<longleftrightarrow>
     (\<forall>i < 10. addr_bit (0xFE # 0xBF # replicate 14 7) i = addr_bit (0xFE # 0x80 # replicate 14 0) i)"
  by (rule match_ip_pattern_v6_cidr) (simp_all add: pton_sample_def)


subsection \<open>Domain suffixes\<close>

lemma stricmp_wildcard: "CHR ''*'' \<notin> set p \<Longrightarrow> glob p t \<longleftrightarrow> stricmp_eq p t"
  by (induction p arbitrary: t) (auto simp: glob_Nil_simp glob_Cons_simp stricmp_eq_def Cons_eq_map_conv)

lemma tolower_dot: "tolower (CHR ''.'') = tolower t \<longleftrightarrow> t = CHR ''.''"
proof -
  have "tolower t = CHR ''.'' \<Longrightarrow> t = CHR ''.''"
  proof (rule ccontr)
    assume t: "tolower t = CHR ''.''" and "t \<noteq> CHR ''.''"
    then have n: "65 \<le> (of_char t :: nat)" "(of_char t :: nat) \<le> 90"
      and "char_of ((of_char t :: nat) + 32) = CHR ''.''"
      by (auto simp: tolower_def Let_def split: if_splits)
    then have "(of_char (char_of ((of_char t :: nat) + 32)) :: nat) = of_char (CHR ''.'')" by simp
    with n show False by simp
  qed
  then show ?thesis by (auto simp: tolower_def)
qed

text \<open>A pattern \<open>*.base\<close> matches the base domain itself and every name below it, at a label
  boundary and up to case, and nothing else.\<close>

theorem match_domain_pattern_suffix:
  assumes "base \<noteq> ''''" and "CHR ''*'' \<notin> set base" and "d \<noteq> ''''"
  shows "match_domain_pattern (Some (''*.'' @ base)) (Some d) \<longleftrightarrow>
     stricmp_eq base d \<or> (\<exists>host rest. d = host @ CHR ''.'' # rest \<and> stricmp_eq base rest)"
proof -
  have "wildcard_match (''*.'' @ base) d \<longleftrightarrow> (\<exists>host rest. d = host @ CHR ''.'' # rest \<and> stricmp_eq base rest)"
    using assms(2)
    by (auto simp: wildcard_match_scan_glob glob_star_iff glob_Cons_simp [of "CHR ''.''"] tolower_dot
      stricmp_wildcard)
  with assms show ?thesis by (auto simp: match_domain_pattern_def)
qed

theorem match_domain_pattern_suffix_witness:
  "match_domain_pattern (Some (''*.'' @ ''example.com'')) (Some ''Example.com'')"
proof -
  have "stricmp_eq ''example.com'' ''Example.com''" by code_simp
  then show ?thesis using match_domain_pattern_suffix [of "''example.com''" "''Example.com''"] by simp
qed

end
