(* ===== verification/PB_Rules.thy ===== *)
theory PB_Rules
  imports PB_Proxy PB_Match
begin

text \<open>
  \<open>pb_rules.c\<close>: the rule list, its management calls, the search for the rule that decides a
  connection, the bounded wait for the owner of an endpoint, and the verdict composed of them.
  The theorems show that the one-pass search with its saved wildcard is the two-pass
  specification ``first matching specific rule, else first unrestricted wildcard, else direct'',
  that a PROXY verdict always names a usable proxy and that a matched PROXY rule is never turned
  into a direct connection, that an unknown owner fails closed when asked to, and that the
  management calls do to the list what their callers rely on.
\<close>

section \<open>Fast-path flags\<close>

definition update_has_active_rules :: "os \<Rightarrow> pb \<Rightarrow> pb" where
  "update_has_active_rules os s =
     (let s1 = invalidate_udp_decisions s;
          has_active = (\<exists>r \<in> set (rules_list s1). r_enabled r);
          has_domain = (\<exists>r \<in> set (rules_list s1). r_enabled r \<and> rule_has_domain_filter r);
          s2 = s1\<lparr>g_has_active_rules := has_active\<rparr>;
          s3 = (if has_domain \<and> \<not> g_has_domain_rules s2 \<and> running s2
                then flush_dns_resolver_cache os s2 else s2)
      in s3\<lparr>g_has_domain_rules := has_domain\<rparr>)"

section \<open>Searching the list\<close>

text \<open>The loop shared by \<open>match_rule_inner\<close> and \<open>match_rule_v6_inner\<close>, which differ in the host
  matcher and in the cache the destination's name comes from. \<open>saved\<close> is \<open>wildcard_rule\<close>.\<close>

fun match_rule_loop ::
  "os \<Rightarrow> (string \<Rightarrow> bool) \<Rightarrow> bool \<Rightarrow> string \<Rightarrow> u16 \<Rightarrow> bool \<Rightarrow> string option \<Rightarrow> PROCESS_RULE option
     \<Rightarrow> PROCESS_RULE list \<Rightarrow> RuleAction \<times> u32" where
  "match_rule_loop os match_host dns_enabled process_name dest_port is_udp dst_domain saved [] =
     (case saved of
        Some r \<Rightarrow> (r_action r, r_proxy_config_id r)
      | None \<Rightarrow> (RULE_ACTION_DIRECT, 0))"
| "match_rule_loop os match_host dns_enabled process_name dest_port is_udp dst_domain saved (rule # rest) =
     (let next_rule = match_rule_loop os match_host dns_enabled process_name dest_port is_udp dst_domain saved rest;
          is_proxy_udp_dns = (is_udp \<and> dest_port = 53 \<and> r_action rule = RULE_ACTION_PROXY)
      in
      if \<not> r_enabled rule then next_rule
      else if is_proxy_udp_dns \<and> \<not> dns_enabled then next_rule
      else if \<not> is_proxy_udp_dns \<and> r_protocol rule = RULE_PROTOCOL_TCP \<and> is_udp then next_rule
      else if \<not> is_proxy_udp_dns \<and> r_protocol rule = RULE_PROTOCOL_UDP \<and> \<not> is_udp then next_rule
      else if r_process_name rule = ''*'' \<or> r_process_name rule = ''ANY''
      then
        if r_target_hosts rule \<noteq> ''*'' \<or> r_target_ports rule \<noteq> ''*'' \<or> rule_has_domain_filter rule
        then
          if match_host (r_target_hosts rule) \<and>
             match_port_list os (Some (r_target_ports rule)) dest_port \<and>
             match_domain_filter os rule dst_domain
          then (r_action rule, r_proxy_config_id rule)
          else next_rule
        else match_rule_loop os match_host dns_enabled process_name dest_port is_udp dst_domain
               (case saved of None \<Rightarrow> Some rule | Some r \<Rightarrow> Some r) rest
      else if match_process_list os (Some (r_process_name rule)) process_name
      then
        if match_host (r_target_hosts rule) \<and>
           match_port_list os (Some (r_target_ports rule)) dest_port \<and>
           match_domain_filter os rule dst_domain
        then (r_action rule, r_proxy_config_id rule)
        else next_rule
      else next_rule)"

declare match_rule_loop.simps(2) [simp del]

definition match_rule_inner ::
  "os \<Rightarrow> string \<Rightarrow> u32 \<Rightarrow> u16 \<Rightarrow> bool \<Rightarrow> u64 \<Rightarrow> pb \<Rightarrow> RuleAction \<times> u32" where
  "match_rule_inner os process_name dest_ip dest_port is_udp now s =
     (let dst_domain = (if g_has_domain_rules s then dns_cache_lookup s dest_ip 256 now else None)
      in match_rule_loop os (\<lambda>hosts. match_ip_list os (Some hosts) dest_ip) (g_proxy_udp_dns_enabled s)
           process_name dest_port is_udp dst_domain None (rules_list s))"

definition match_rule_v6_inner ::
  "os \<Rightarrow> string \<Rightarrow> ip6 \<Rightarrow> u16 \<Rightarrow> bool \<Rightarrow> u64 \<Rightarrow> pb \<Rightarrow> RuleAction \<times> u32" where
  "match_rule_v6_inner os process_name dest_ip6 dest_port is_udp now s =
     (let dst_domain = (if g_has_domain_rules s then dns_cache_lookup_v6 s dest_ip6 256 now else None)
      in match_rule_loop os (\<lambda>hosts. match_ip_list_v6 os (Some hosts) dest_ip6) (g_proxy_udp_dns_enabled s)
           process_name dest_port is_udp dst_domain None (rules_list s))"

text \<open>The public matchers only take the shared lock around the search.\<close>

definition match_rule :: "os \<Rightarrow> string \<Rightarrow> u32 \<Rightarrow> u16 \<Rightarrow> bool \<Rightarrow> u64 \<Rightarrow> pb \<Rightarrow> RuleAction \<times> u32" where
  "match_rule = match_rule_inner"

definition match_rule_v6 :: "os \<Rightarrow> string \<Rightarrow> ip6 \<Rightarrow> u16 \<Rightarrow> bool \<Rightarrow> u64 \<Rightarrow> pb \<Rightarrow> RuleAction \<times> u32" where
  "match_rule_v6 = match_rule_v6_inner"

section \<open>Waiting for the owner of an endpoint\<close>

definition make_v4_mapped_address :: "u32 \<Rightarrow> ip6" where
  "make_v4_mapped_address ip = replicate 10 0 @ [0xFF, 0xFF] @ u32_to_bytes ip"

text \<open>
  One round of the loop: what other threads did to the globals while this one waited, the owner
  tables the round sees, the tick its lookups read and the tick its deadline check reads.
  \<open>wait_for_owner_update\<close> is what lies between two rounds.
\<close>

record owner_round =
  rd_events :: "pb \<Rightarrow> pb"
  rd_os :: owner_os
  rd_now :: u64
  rd_check :: u64

text \<open>\<open>None\<close>: the rounds so far do not end the loop.\<close>

fun resolve_owner_loop ::
  "(owner_round \<Rightarrow> pb \<Rightarrow> u32 \<times> pb) \<Rightarrow> u64 \<Rightarrow> owner_round list \<Rightarrow> pb \<Rightarrow> (u32 \<times> pb) option" where
  "resolve_owner_loop lookup deadline [] s = None"
| "resolve_owner_loop lookup deadline (r # rs) s =
     (case lookup r (rd_events r s) of (pid, s') \<Rightarrow>
        if pid \<noteq> 0 then Some (pid, s')
        else if deadline \<le> rd_check r then Some (0, s')
        else resolve_owner_loop lookup deadline rs s')"

definition resolve_process_owner_v4 ::
  "u64 \<Rightarrow> owner_round list \<Rightarrow> u32 \<Rightarrow> u16 \<Rightarrow> u32 \<Rightarrow> u16 \<Rightarrow> bool \<Rightarrow> pb \<Rightarrow> (u32 \<times> pb) option" where
  "resolve_process_owner_v4 start rounds src_ip src_port dest_ip dest_port is_udp s =
     resolve_owner_loop
       (\<lambda>r s. let pid = get_owner_event_pid (make_v4_mapped_address src_ip) src_port
                    (make_v4_mapped_address dest_ip) dest_port is_udp (rd_now r) s
              in if pid = 0
                 then if is_udp then get_process_id_from_udp_connection (rd_os r) src_ip src_port (rd_now r) s
                      else get_process_id_from_connection (rd_os r) src_ip src_port (rd_now r) s
                 else (pid, s))
       (start + OWNER_LOOKUP_TIMEOUT_MS) rounds s"

definition resolve_process_owner_v6 ::
  "u64 \<Rightarrow> owner_round list \<Rightarrow> ip6 \<Rightarrow> u16 \<Rightarrow> ip6 \<Rightarrow> u16 \<Rightarrow> bool \<Rightarrow> pb \<Rightarrow> (u32 \<times> pb) option" where
  "resolve_process_owner_v6 start rounds src_ip6 src_port dest_ip6 dest_port is_udp s =
     resolve_owner_loop
       (\<lambda>r s. let pid = get_owner_event_pid src_ip6 src_port dest_ip6 dest_port is_udp (rd_now r) s
              in if pid = 0
                 then if is_udp then get_process_id_from_udp_connection_v6 (rd_os r) src_ip6 src_port s
                      else get_process_id_from_connection_v6 (rd_os r) src_ip6 src_port s
                 else (pid, s))
       (start + OWNER_LOOKUP_TIMEOUT_MS) rounds s"

section \<open>The verdict\<close>

text \<open>What a verdict call returns: the action, \<open>*out_pid\<close>, \<open>*out_proxy_config_id\<close> and the state.\<close>

type_synonym verdict = "RuleAction \<times> u32 \<times> u32 \<times> pb"

text \<open>The part behind the owner lookup, common to both families: \<open>search\<close> is \<open>match_rule\<close> or
  \<open>match_rule_v6\<close> for the destination.\<close>

definition decide_for_owner ::
  "os \<Rightarrow> (string \<Rightarrow> pb \<Rightarrow> RuleAction \<times> u32) \<Rightarrow> bool \<Rightarrow> u32 \<Rightarrow> pb \<Rightarrow> verdict" where
  "decide_for_owner os search is_udp pid s =
     (let unknown = (if g_fail_closed_on_unknown_owner s then RULE_ACTION_BLOCK else RULE_ACTION_DIRECT) in
      if pid = 0 then (unknown, pid, 0, s)
      else if pid = g_current_process_id s then (RULE_ACTION_DIRECT, pid, 0, s)
      else case get_process_name_from_pid os pid MAX_PROCESS_NAME of
        None \<Rightarrow> (unknown, pid, 0, s)
      | Some process_name \<Rightarrow>
          (case search process_name s of (action, proxy_config_id) \<Rightarrow>
             if action = RULE_ACTION_PROXY
             then (case find_proxy_config s proxy_config_id of
                     None \<Rightarrow> (RULE_ACTION_BLOCK, pid, 0, s)
                   | Some cfg \<Rightarrow>
                       if pc_host cfg = '''' \<or> pc_port cfg = 0 then (RULE_ACTION_BLOCK, pid, 0, s)
                       else if is_udp \<and> pc_type cfg = PROXY_TYPE_HTTP then (RULE_ACTION_BLOCK, pid, 0, s)
                       else (action, pid, proxy_config_id, s))
             else (action, pid, proxy_config_id, s)))"

definition check_process_rule ::
  "os \<Rightarrow> u64 \<Rightarrow> owner_round list \<Rightarrow> u64 \<Rightarrow> u32 \<Rightarrow> u16 \<Rightarrow> u32 \<Rightarrow> u16 \<Rightarrow> bool \<Rightarrow> pb \<Rightarrow> verdict option" where
  "check_process_rule os start rounds now src_ip src_port dest_ip dest_port is_udp s =
     (if g_loopback_bypass_enabled s \<and> is_loopback_v4 src_ip \<and> is_loopback_v4 dest_ip
      then Some (RULE_ACTION_DIRECT, 0, 0, s)
      else case resolve_process_owner_v4 start rounds src_ip src_port dest_ip dest_port is_udp s of
        None \<Rightarrow> None
      | Some (pid, s') \<Rightarrow> Some (decide_for_owner os
          (\<lambda>name s. match_rule os name dest_ip dest_port is_udp now s) is_udp pid s'))"

definition check_process_rule_v6 ::
  "os \<Rightarrow> u64 \<Rightarrow> owner_round list \<Rightarrow> u64 \<Rightarrow> ip6 \<Rightarrow> u16 \<Rightarrow> ip6 \<Rightarrow> u16 \<Rightarrow> bool \<Rightarrow> pb \<Rightarrow> verdict option" where
  "check_process_rule_v6 os start rounds now src_ip6 src_port dest_ip6 dest_port is_udp s =
     (if g_loopback_bypass_enabled s \<and> is_loopback_v6 src_ip6 \<and> is_loopback_v6 dest_ip6
      then Some (RULE_ACTION_DIRECT, 0, 0, s)
      else case resolve_process_owner_v6 start rounds src_ip6 src_port dest_ip6 dest_port is_udp s of
        None \<Rightarrow> None
      | Some (pid, s') \<Rightarrow> Some (decide_for_owner os
          (\<lambda>name s. match_rule_v6 os name dest_ip6 dest_port is_udp now s) is_udp pid s'))"

section \<open>Managing rules\<close>

text \<open>A filter argument as it is stored: at most \<open>MAX_LIST_SIZE\<close> characters, a star when absent.\<close>

definition stored_filter :: "string option \<Rightarrow> string" where
  "stored_filter x = (if absent x then ''*'' else take MAX_LIST_SIZE (the x))"

text \<open>\<open>alloc i\<close> says whether the \<open>i\<close>-th allocation of the call succeeds.\<close>

definition AddRule ::
  "(nat \<Rightarrow> bool) \<Rightarrow> os \<Rightarrow> string option \<Rightarrow> string option \<Rightarrow> string option \<Rightarrow> string option \<Rightarrow>
   RuleProtocol \<Rightarrow> RuleAction \<Rightarrow> u32 \<Rightarrow> pb \<Rightarrow> u32 \<times> pb" where
  "AddRule alloc os process_name target_hosts target_ports target_domains protocol action proxy_config_id s =
     (if absent process_name then (0, s)
      else if \<not> alloc 0 then (0, s)
      else
        let new_id = g_next_rule_id s; s1 = s\<lparr>g_next_rule_id := g_next_rule_id s + 1\<rparr> in
        if \<not> alloc 1 then (0, s1)
        else if \<not> alloc 2 then (0, s1)
        else if \<not> alloc 3 then (0, s1)
        else
          let rule = \<lparr>rule_id = new_id, r_process_name = strncpy_trunc MAX_PROCESS_NAME (the process_name),
                r_target_hosts = stored_filter target_hosts, r_target_ports = stored_filter target_ports,
                r_target_domains = stored_filter target_domains, r_protocol = protocol,
                r_action = action, r_proxy_config_id = proxy_config_id, r_enabled = True\<rparr>
          in (new_id, update_has_active_rules os (s1\<lparr>rules_list := rules_list s1 @ [rule]\<rparr>)))"

definition has_rule :: "pb \<Rightarrow> u32 \<Rightarrow> bool" where
  "has_rule s rid \<longleftrightarrow> (\<exists>r \<in> set (rules_list s). rule_id r = rid)"

definition EnableRule :: "os \<Rightarrow> u32 \<Rightarrow> pb \<Rightarrow> bool \<times> pb" where
  "EnableRule os rid s =
     (if rid = 0 then (False, s)
      else if has_rule s rid
      then (True, update_has_active_rules os (s\<lparr>rules_list :=
              update_first (\<lambda>r. rule_id r = rid) (\<lambda>r. r\<lparr>r_enabled := True\<rparr>) (rules_list s)\<rparr>))
      else (False, s))"

definition DisableRule :: "os \<Rightarrow> u32 \<Rightarrow> pb \<Rightarrow> bool \<times> pb" where
  "DisableRule os rid s =
     (if rid = 0 then (False, s)
      else if has_rule s rid
      then (True, update_has_active_rules os (s\<lparr>rules_list :=
              update_first (\<lambda>r. rule_id r = rid) (\<lambda>r. r\<lparr>r_enabled := False\<rparr>) (rules_list s)\<rparr>))
      else (False, s))"

definition DeleteRule :: "os \<Rightarrow> u32 \<Rightarrow> pb \<Rightarrow> bool \<times> pb" where
  "DeleteRule os rid s =
     (if rid = 0 then (False, s)
      else if has_rule s rid
      then (True, update_has_active_rules os (s\<lparr>rules_list :=
              remove_first (\<lambda>r. rule_id r = rid) (rules_list s)\<rparr>))
      else (False, s))"

text \<open>\<open>alloc\<close> says whether all three copies could be made.\<close>

definition EditRule ::
  "bool \<Rightarrow> os \<Rightarrow> u32 \<Rightarrow> string option \<Rightarrow> string option \<Rightarrow> string option \<Rightarrow> string option \<Rightarrow>
   RuleProtocol \<Rightarrow> RuleAction \<Rightarrow> u32 \<Rightarrow> pb \<Rightarrow> bool \<times> pb" where
  "EditRule alloc os rid process_name target_hosts target_ports target_domains protocol action proxy_config_id s =
     (if rid = 0 \<or> process_name = None \<or> target_hosts = None \<or> target_ports = None then (False, s)
      else if \<not> alloc then (False, s)
      else if has_rule s rid
      then (True, update_has_active_rules os (s\<lparr>rules_list :=
              update_first (\<lambda>r. rule_id r = rid)
                (\<lambda>r. r\<lparr>r_process_name := strncpy_trunc MAX_PROCESS_NAME (the process_name),
                     r_target_hosts := the target_hosts, r_target_ports := the target_ports,
                     r_target_domains := (if absent target_domains then ''*'' else the target_domains),
                     r_protocol := protocol, r_action := action, r_proxy_config_id := proxy_config_id\<rparr>)
                (rules_list s)\<rparr>))
      else (False, s))"

fun rule_position :: "u32 \<Rightarrow> u32 \<Rightarrow> PROCESS_RULE list \<Rightarrow> u32" where
  "rule_position rid position [] = 0"
| "rule_position rid position (r # rs) =
     (if rule_id r = rid then position else rule_position rid (position + 1) rs)"

definition GetRulePosition :: "u32 \<Rightarrow> pb \<Rightarrow> u32" where
  "GetRulePosition rid s = (if rid = 0 then 0 else rule_position rid 1 (rules_list s))"

text \<open>Relinking behind a position other than the first: walk to the node before it; past the end, walk
  to the tail, which reads through the head of the list.\<close>

definition insert_behind :: "u32 \<Rightarrow> PROCESS_RULE \<Rightarrow> PROCESS_RULE list \<Rightarrow> fault + PROCESS_RULE list" where
  "insert_behind new_position rule rest =
     (let steps = unat (new_position - 1) - 1 in
      if steps < length rest then Inr (take (Suc steps) rest @ rule # drop (Suc steps) rest)
      else if rest = [] then Inl NullDereference
      else Inr (rest @ [rule]))"

definition MoveRuleToPosition :: "u32 \<Rightarrow> u32 \<Rightarrow> pb \<Rightarrow> fault + bool \<times> pb" where
  "MoveRuleToPosition rid new_position s =
     (if rid = 0 \<or> new_position = 0 then Inr (False, s)
      else case find (\<lambda>r. rule_id r = rid) (rules_list s) of
        None \<Rightarrow> Inr (False, s)
      | Some rule \<Rightarrow>
          let rest = remove_first (\<lambda>r. rule_id r = rid) (rules_list s) in
          case (if new_position = 1 then Inr (rule # rest) else insert_behind new_position rule rest) of
            Inl f \<Rightarrow> Inl f
          | Inr rules \<Rightarrow> Inr (True, invalidate_udp_decisions (s\<lparr>rules_list := rules\<rparr>)))"

text \<open>Rule numbers are distinct, were handed out, and are not 0.\<close>

definition rules_inv :: "pb \<Rightarrow> bool" where
  "rules_inv s \<longleftrightarrow> distinct (map rule_id (rules_list s)) \<and> 0 < g_next_rule_id s \<and>
     (\<forall>r \<in> set (rules_list s). 0 < rule_id r \<and> rule_id r < g_next_rule_id s)"

section \<open>What the search decides\<close>

text \<open>A rule is considered for a packet: it is enabled and its protocol fits, where UDP DNS for a PROXY
  rule depends on the switch alone.\<close>

definition rule_applies :: "bool \<Rightarrow> u16 \<Rightarrow> bool \<Rightarrow> PROCESS_RULE \<Rightarrow> bool" where
  "rule_applies dns_enabled dest_port is_udp r \<longleftrightarrow> r_enabled r \<and>
     (if is_udp \<and> dest_port = 53 \<and> r_action r = RULE_ACTION_PROXY then dns_enabled
      else r_protocol r = RULE_PROTOCOL_BOTH \<or> r_protocol r = (if is_udp then RULE_PROTOCOL_UDP else RULE_PROTOCOL_TCP))"

definition any_process :: "PROCESS_RULE \<Rightarrow> bool" where
  "any_process r \<longleftrightarrow> r_process_name r = ''*'' \<or> r_process_name r = ''ANY''"

definition unrestricted :: "PROCESS_RULE \<Rightarrow> bool" where
  "unrestricted r \<longleftrightarrow> any_process r \<and> r_target_hosts r = ''*'' \<and> r_target_ports r = ''*'' \<and> \<not> rule_has_domain_filter r"

definition rule_selects ::
  "os \<Rightarrow> (string \<Rightarrow> bool) \<Rightarrow> bool \<Rightarrow> string \<Rightarrow> u16 \<Rightarrow> bool \<Rightarrow> string option \<Rightarrow> PROCESS_RULE \<Rightarrow> bool" where
  "rule_selects os match_host dns_enabled process_name dest_port is_udp dst_domain r \<longleftrightarrow>
     rule_applies dns_enabled dest_port is_udp r \<and> \<not> unrestricted r \<and>
     (any_process r \<or> match_process_list os (Some (r_process_name r)) process_name) \<and>
     match_host (r_target_hosts r) \<and> match_port_list os (Some (r_target_ports r)) dest_port \<and>
     match_domain_filter os r dst_domain"

definition deciding_rule ::
  "os \<Rightarrow> (string \<Rightarrow> bool) \<Rightarrow> bool \<Rightarrow> string \<Rightarrow> u16 \<Rightarrow> bool \<Rightarrow> string option \<Rightarrow> PROCESS_RULE list \<Rightarrow> PROCESS_RULE option" where
  "deciding_rule os match_host dns_enabled process_name dest_port is_udp dst_domain rules =
     or_else (find (rule_selects os match_host dns_enabled process_name dest_port is_udp dst_domain) rules)
       (find (\<lambda>r. rule_applies dns_enabled dest_port is_udp r \<and> unrestricted r) rules)"

definition rule_outcome :: "PROCESS_RULE option \<Rightarrow> RuleAction \<times> u32" where
  "rule_outcome x = (case x of Some r \<Rightarrow> (r_action r, r_proxy_config_id r) | None \<Rightarrow> (RULE_ACTION_DIRECT, 0))"

lemma match_rule_loop_spec:
  "match_rule_loop os mh dns pn port udp dm saved rules = rule_outcome
     (or_else (find (rule_selects os mh dns pn port udp dm) rules)
       (or_else saved (find (\<lambda>r. rule_applies dns port udp r \<and> unrestricted r) rules)))"
proof (induction rules arbitrary: saved)
  case Nil
  then show ?case by (simp add: rule_outcome_def split: option.split)
next
  case (Cons r rules)
  have proto: "r_protocol r = RULE_PROTOCOL_BOTH \<or> r_protocol r = (if udp then RULE_PROTOCOL_UDP else RULE_PROTOCOL_TCP) \<longleftrightarrow>
      \<not> (r_protocol r = RULE_PROTOCOL_TCP \<and> udp) \<and> \<not> (r_protocol r = RULE_PROTOCOL_UDP \<and> \<not> udp)"
    by (cases "r_protocol r") auto
  show ?case
  proof (cases "rule_applies dns port udp r")
    case False
    then consider "\<not> r_enabled r" | "r_enabled r" "udp \<and> port = 53 \<and> r_action r = RULE_ACTION_PROXY" "\<not> dns"
      | "r_enabled r" "\<not> (udp \<and> port = 53 \<and> r_action r = RULE_ACTION_PROXY)" "r_protocol r = RULE_PROTOCOL_TCP" "udp"
      | "r_enabled r" "\<not> (udp \<and> port = 53 \<and> r_action r = RULE_ACTION_PROXY)" "r_protocol r = RULE_PROTOCOL_UDP" "\<not> udp"
      by (cases "r_protocol r") (auto simp: rule_applies_def split: if_splits)
    then have "match_rule_loop os mh dns pn port udp dm saved (r # rules) = match_rule_loop os mh dns pn port udp dm saved rules"
      by cases (simp_all only: match_rule_loop.simps Let_def if_True if_False simp_thms RuleProtocol.distinct)
    moreover have "\<not> rule_selects os mh dns pn port udp dm r" using False by (simp add: rule_selects_def)
    ultimately show ?thesis using False Cons.IH by simp
  next
    case True
    let ?d = "udp \<and> port = 53 \<and> r_action r = RULE_ACTION_PROXY"
    from True have c: "r_enabled r" "\<not> (?d \<and> \<not> dns)" "\<not> (\<not> ?d \<and> r_protocol r = RULE_PROTOCOL_TCP \<and> udp)"
        "\<not> (\<not> ?d \<and> r_protocol r = RULE_PROTOCOL_UDP \<and> \<not> udp)"
      by (auto simp: rule_applies_def split: if_splits)
    have saved: "(case saved of None \<Rightarrow> Some r | Some r \<Rightarrow> Some r) = or_else saved (Some r)" by (cases saved) simp_all
    have "match_rule_loop os mh dns pn port udp dm saved (r # rules) =
        (if unrestricted r then match_rule_loop os mh dns pn port udp dm (or_else saved (Some r)) rules
         else if rule_selects os mh dns pn port udp dm r then (r_action r, r_proxy_config_id r)
         else match_rule_loop os mh dns pn port udp dm saved rules)"
      unfolding match_rule_loop.simps Let_def saved using c True
      by (simp only: if_True if_False not_True_eq_False not_False_eq_True rule_selects_def unrestricted_def any_process_def simp_thms)
        (simp split: if_split)
    moreover have "unrestricted r \<Longrightarrow> \<not> rule_selects os mh dns pn port udp dm r" by (simp add: rule_selects_def)
    ultimately show ?thesis
      using True Cons.IH by (cases "unrestricted r"; cases "rule_selects os mh dns pn port udp dm r")
        (simp_all add: rule_outcome_def or_else_assoc)
  qed
qed

text \<open>C1. One pass over the list with a saved wildcard rule decides like two passes: the first enabled rule that
  fits the protocol and whose process, host, port and domain filters all match, skipping rules without any
  restriction; failing that the first unrestricted rule; failing that DIRECT. Both address families.\<close>

theorem match_rule_spec:
  "match_rule os process_name dest_ip dest_port is_udp now s = rule_outcome
     (deciding_rule os (\<lambda>hosts. match_ip_list os (Some hosts) dest_ip) (g_proxy_udp_dns_enabled s) process_name
        dest_port is_udp (if g_has_domain_rules s then dns_cache_lookup s dest_ip 256 now else None) (rules_list s)) \<and>
   match_rule_v6 os process_name dest_ip6 dest_port is_udp now s = rule_outcome
     (deciding_rule os (\<lambda>hosts. match_ip_list_v6 os (Some hosts) dest_ip6) (g_proxy_udp_dns_enabled s) process_name
        dest_port is_udp (if g_has_domain_rules s then dns_cache_lookup_v6 s dest_ip6 256 now else None) (rules_list s))"
  by (simp add: match_rule_def match_rule_v6_def match_rule_inner_def match_rule_v6_inner_def Let_def
      match_rule_loop_spec deciding_rule_def)


lemma deciding_rule_applies:
  "deciding_rule os mh dns pn port udp dm rules = Some r \<Longrightarrow> r \<in> set rules \<and> rule_applies dns port udp r"
  by (cases "find (rule_selects os mh dns pn port udp dm) rules")
    (auto simp: deciding_rule_def rule_selects_def find_Some_iff)

text \<open>While the UDP DNS switch is off, no UDP packet to port 53 gets a PROXY verdict from any rule, whatever the
  rule's protocol.\<close>

theorem udp_dns_not_proxied_when_disabled:
  assumes "\<not> g_proxy_udp_dns_enabled s"
  shows "fst (match_rule os process_name dest_ip 53 True now s) \<noteq> RULE_ACTION_PROXY \<and>
     fst (match_rule_v6 os process_name dest_ip6 53 True now s) \<noteq> RULE_ACTION_PROXY"
proof -
  have "fst (rule_outcome (deciding_rule os mh False pn 53 True dm rules)) \<noteq> RULE_ACTION_PROXY" for mh pn dm rules
  proof (cases "deciding_rule os mh False pn 53 True dm rules")
    case (Some r)
    then have "rule_applies False 53 True r" using deciding_rule_applies by blast
    then show ?thesis using Some by (auto simp: rule_outcome_def rule_applies_def)
  qed (simp add: rule_outcome_def)
  then show ?thesis using assms
    by (simp add: match_rule_def match_rule_v6_def match_rule_inner_def match_rule_v6_inner_def Let_def
        match_rule_loop_spec deciding_rule_def)
qed

theorem udp_dns_not_proxied_when_disabled_witness:
  "fst (match_rule pton_sample ''a.exe'' 1 53 True 5 pb_init) \<noteq> RULE_ACTION_PROXY"
proof -
  have "\<not> g_proxy_udp_dns_enabled pb_init" by (simp add: pb_init_def)
  then show ?thesis using udp_dns_not_proxied_when_disabled by blast
qed

section \<open>Verdicts\<close>

text \<open>A proxy that can carry the traffic.\<close>

definition usable_proxy :: "bool \<Rightarrow> PROXY_CONFIG \<Rightarrow> bool" where
  "usable_proxy is_udp cfg \<longleftrightarrow> pc_host cfg \<noteq> '''' \<and> pc_port cfg \<noteq> 0 \<and> (is_udp \<longrightarrow> pc_type cfg \<noteq> PROXY_TYPE_HTTP)"

lemma decide_proxy_usable:
  "decide_for_owner os search udp pid s = (RULE_ACTION_PROXY, pid', cid, s') \<Longrightarrow>
   s' = s \<and> pid' = pid \<and> pid \<noteq> 0 \<and> (\<exists>cfg. find_proxy_config s cid = Some cfg \<and> usable_proxy udp cfg)"
  by (auto simp: decide_for_owner_def usable_proxy_def Let_def split: if_splits option.splits prod.splits)

lemma decide_not_direct:
  assumes "pid \<noteq> 0" and "pid \<noteq> g_current_process_id s" and "get_process_name_from_pid os pid MAX_PROCESS_NAME = Some name"
    and "fst (search name s) = RULE_ACTION_PROXY"
  shows "fst (decide_for_owner os search udp pid s) \<noteq> RULE_ACTION_DIRECT"
  using assms by (auto simp: decide_for_owner_def Let_def split: if_splits option.splits prod.splits)

text \<open>A PROXY verdict names a proxy that can carry the traffic: it exists, has a host and a port, and is not an
  HTTP proxy for UDP; and the owner of the connection is known.\<close>

theorem proxy_verdict_usable:
  assumes "check_process_rule os start rounds now src sport dst dport udp s = Some (RULE_ACTION_PROXY, pid, cid, s') \<or>
     check_process_rule_v6 os start rounds now src6 sport dst6 dport udp s = Some (RULE_ACTION_PROXY, pid, cid, s')"
  shows "pid \<noteq> 0 \<and> (\<exists>cfg. find_proxy_config s' cid = Some cfg \<and> pc_host cfg \<noteq> '''' \<and> pc_port cfg \<noteq> 0 \<and>
     (udp \<longrightarrow> pc_type cfg \<noteq> PROXY_TYPE_HTTP))"
proof -
  have "\<exists>search pid0 s0. decide_for_owner os search udp pid0 s0 = (RULE_ACTION_PROXY, pid, cid, s')"
    using assms
    by (auto simp: check_process_rule_def check_process_rule_v6_def split: if_splits option.splits prod.splits)
  then show ?thesis using decide_proxy_usable unfolding usable_proxy_def by blast
qed

text \<open>A host with one SOCKS5 proxy, one rule that proxies everything and a process 77 that owns port 5000.\<close>

definition sample_rules :: pb where
  "sample_rules = one_config\<lparr>g_has_active_rules := True, g_next_rule_id := 2, g_pidtbl_cap := 16384,
     rules_list := [\<lparr>rule_id = 1, r_process_name = ''*'', r_target_hosts = ''*'', r_target_ports = ''*'',
       r_target_domains = ''*'', r_protocol = RULE_PROTOCOL_BOTH, r_action = RULE_ACTION_PROXY,
       r_proxy_config_id = 1, r_enabled = True\<rparr>]\<rparr>"

definition sample_os :: os where
  "sample_os = \<lparr>os_malloc = (\<lambda>_. True), os_inet_pton6 = (\<lambda>_. None), os_getaddrinfo = (\<lambda>_. None),
     os_process_image = (\<lambda>pid. if pid = 77 then Some ''a.exe'' else None), os_dnsapi = True\<rparr>"

definition sample_round :: owner_round where
  "sample_round = \<lparr>rd_events = (\<lambda>s. s), rd_os = time_wait_os, rd_now = 9, rd_check = 200\<rparr>"

lemma sample_owner:
  "\<exists>s'. resolve_process_owner_v4 8 [sample_round] 1 5000 2 443 False sample_rules = Some (77, s') \<and>
     rules_list s' = rules_list sample_rules \<and> g_current_process_id s' = 0 \<and> g_proxy_configs s' = g_proxy_configs sample_rules \<and>
     g_has_domain_rules s' = False \<and> g_proxy_udp_dns_enabled s' = False"
  by (simp add: resolve_process_owner_v4_def sample_round_def get_owner_event_pid_def sample_rules_def one_config_def pb_init_def
      empty_table_def get_process_id_from_connection_def get_cached_pid_def owner_table_fetch_def time_wait_os_def
      time_wait_rows_def first_pid_def cache_pid_def Let_def)

lemma sample_match:
  "rules_list s = rules_list sample_rules \<Longrightarrow> g_has_domain_rules s = False \<Longrightarrow>
   match_rule sample_os ''a.exe'' 2 443 False now s = (RULE_ACTION_PROXY, 1)"
  by (simp add: match_rule_def match_rule_inner_def sample_rules_def match_rule_loop.simps rule_has_domain_filter_def Let_def)

lemma sample_name: "get_process_name_from_pid sample_os 77 MAX_PROCESS_NAME = Some ''a.exe''"
  by (simp add: get_process_name_from_pid_def sample_os_def)

lemma sample_verdict:
  "\<exists>s'. check_process_rule sample_os 8 [sample_round] 10 1 5000 2 443 False sample_rules = Some (RULE_ACTION_PROXY, 77, 1, s')"
proof -
  obtain s' where s': "resolve_process_owner_v4 8 [sample_round] 1 5000 2 443 False sample_rules = Some (77, s')"
    "rules_list s' = rules_list sample_rules" "g_current_process_id s' = 0" "g_proxy_configs s' = g_proxy_configs sample_rules"
    "g_has_domain_rules s' = False" using sample_owner by blast
  have "\<not> g_loopback_bypass_enabled sample_rules" by (simp add: sample_rules_def one_config_def pb_init_def)
  then show ?thesis
    using s' by (simp add: check_process_rule_def decide_for_owner_def sample_name sample_match find_proxy_config_def)
      (simp add: sample_rules_def one_config_def)
qed

theorem proxy_verdict_usable_witness:
  "case check_process_rule sample_os 8 [sample_round] 10 1 5000 2 443 False sample_rules of
     Some (action, pid, cid, s') \<Rightarrow> action = RULE_ACTION_PROXY \<and> pid \<noteq> 0 \<and>
       (\<exists>cfg. find_proxy_config s' cid = Some cfg \<and> pc_host cfg \<noteq> '''' \<and> pc_port cfg \<noteq> 0)
   | None \<Rightarrow> False"
proof -
  obtain s' where v: "check_process_rule sample_os 8 [sample_round] 10 1 5000 2 443 False sample_rules =
      Some (RULE_ACTION_PROXY, 77, 1, s')" using sample_verdict by blast
  show ?thesis
    using proxy_verdict_usable [of sample_os 8 "[sample_round]" 10 1 5000 2 443 False sample_rules 77 1 s'] v by auto
qed



lemma resolve_owner_loop_ends:
  "\<exists>r \<in> set rounds. deadline \<le> rd_check r \<Longrightarrow> \<exists>res. resolve_owner_loop lookup deadline rounds s = Some res"
  by (induction rounds arbitrary: s) (auto split: prod.split)

lemma resolve_process_owner_ends:
  assumes "\<exists>r \<in> set rounds. start + OWNER_LOOKUP_TIMEOUT_MS \<le> rd_check r"
  shows "\<exists>pid s'. resolve_process_owner_v4 start rounds src sport dst dport udp s = Some (pid, s')"
    and "\<exists>pid s'. resolve_process_owner_v6 start rounds src6 sport dst6 dport udp s = Some (pid, s')"
  using resolve_owner_loop_ends [OF assms] by (simp_all add: resolve_process_owner_v4_def resolve_process_owner_v6_def)

lemma verdict_answers:
  assumes "\<exists>r \<in> set rounds. start + OWNER_LOOKUP_TIMEOUT_MS \<le> rd_check r"
  shows "check_process_rule os start rounds now src sport dst dport udp s \<noteq> None \<and>
     check_process_rule_v6 os start rounds now src6 sport dst6 dport udp s \<noteq> None"
  using resolve_process_owner_ends(1) [OF assms, of src sport dst dport udp s]
    resolve_process_owner_ends(2) [OF assms, of src6 sport dst6 dport udp s]
  by (auto simp: check_process_rule_def check_process_rule_v6_def simp del: not_None_eq)

text \<open>C35. The verdict is reached within bounded waiting: as soon as one round of the owner loop reads a tick at or past the
  100 ms deadline, both verdict functions return.\<close>

theorem check_process_rule_answers:
  assumes "\<exists>r \<in> set rounds. start + OWNER_LOOKUP_TIMEOUT_MS \<le> rd_check r"
  shows "check_process_rule os start rounds now src sport dst dport udp s \<noteq> None \<and>
     check_process_rule_v6 os start rounds now src6 sport dst6 dport udp s \<noteq> None"
  using assms by (rule verdict_answers)

theorem check_process_rule_answers_witness:
  "check_process_rule sample_os 8 [sample_round] 10 1 5000 2 443 False pb_init \<noteq> None"
proof -
  have "\<exists>r \<in> set [sample_round]. (8 :: u64) + OWNER_LOOKUP_TIMEOUT_MS \<le> rd_check r" by (simp add: sample_round_def)
  then show ?thesis using check_process_rule_answers by blast
qed

text \<open>A connection whose owner stays unknown is blocked when failing closed is configured and passed otherwise; loopback
  traffic under the bypass is passed without waiting for an owner.\<close>

theorem unknown_owner_verdict:
  assumes "resolve_process_owner_v4 start rounds src sport dst dport udp s = Some (0, s1)"
  shows "check_process_rule os start rounds now src sport dst dport udp s =
     Some (if g_loopback_bypass_enabled s \<and> is_loopback_v4 src \<and> is_loopback_v4 dst then (RULE_ACTION_DIRECT, 0, 0, s)
           else (if g_fail_closed_on_unknown_owner s1 then RULE_ACTION_BLOCK else RULE_ACTION_DIRECT, 0, 0, s1))"
  using assms by (simp add: check_process_rule_def decide_for_owner_def)

theorem unknown_owner_verdict_witness:
  "\<exists>s1. check_process_rule sample_os 8 [sample_round] 10 1 4999 2 443 False
     (sample_rules\<lparr>g_fail_closed_on_unknown_owner := True\<rparr>) = Some (RULE_ACTION_BLOCK, 0, 0, s1)"
proof -
  let ?s = "sample_rules\<lparr>g_fail_closed_on_unknown_owner := True\<rparr>"
  have "resolve_process_owner_v4 8 [sample_round] 1 4999 2 443 False ?s = Some (0, ?s)"
    by (simp add: resolve_process_owner_v4_def sample_round_def get_owner_event_pid_def sample_rules_def one_config_def
        pb_init_def empty_table_def get_process_id_from_connection_def get_cached_pid_def owner_table_fetch_def
        time_wait_os_def time_wait_rows_def first_pid_def Let_def)
  moreover have "\<not> g_loopback_bypass_enabled ?s" by (simp add: sample_rules_def one_config_def pb_init_def)
  ultimately show ?thesis
    using unknown_owner_verdict [of 8 "[sample_round]" 1 4999 2 443 False ?s ?s sample_os 10] by simp
qed

section \<open>Flags\<close>

text \<open>The fast-path flags say exactly whether an enabled rule, and an enabled rule with a domain filter, exists; the system
  DNS cache is flushed exactly on the rising edge of the latter while running; cached UDP verdicts are revoked.\<close>

theorem update_has_active_rules_exact:
  "case update_has_active_rules os s of s' \<Rightarrow>
     g_has_active_rules s' = (\<exists>r \<in> set (rules_list s). r_enabled r) \<and>
     g_has_domain_rules s' = (\<exists>r \<in> set (rules_list s). r_enabled r \<and> rule_has_domain_filter r) \<and>
     rules_list s' = rules_list s \<and> g_udp_generation s' = g_udp_generation s + 1 \<and>
     dns_flushes s' = dns_flushes s + (if g_has_domain_rules s' \<and> \<not> g_has_domain_rules s \<and> running s \<and> os_dnsapi os then 1 else 0)"
  by (simp add: update_has_active_rules_def flush_dns_resolver_cache_def invalidate_udp_decisions_def Let_def)

section \<open>The list under its management calls\<close>

lemma update_flags_list [simp]:
  "rules_list (update_has_active_rules os s) = rules_list s"
  "g_next_rule_id (update_has_active_rules os s) = g_next_rule_id s"
  by (simp_all add: update_has_active_rules_def flush_dns_resolver_cache_def Let_def)

lemma rules_inv_update:
  assumes "rules_inv s" and "\<And>r. rule_id (f r) = rule_id r"
  shows "rules_inv (update_has_active_rules os (s\<lparr>rules_list := update_first P f (rules_list s)\<rparr>))"
  using assms by (auto simp: rules_inv_def map_update_first dest!: set_update_first_cases)

lemma rules_inv_remove:
  assumes "rules_inv s"
  shows "rules_inv (update_has_active_rules os (s\<lparr>rules_list := remove_first P (rules_list s)\<rparr>))"
  using assms set_remove_first_subset [of P "rules_list s"] by (auto simp: rules_inv_def map_remove_first_sublist)

lemma insert_behind_perm:
  "insert_behind p r rest = Inr rs \<Longrightarrow> \<exists>us vs. rest = us @ vs \<and> rs = us @ r # vs"
proof -
  assume *: "insert_behind p r rest = Inr rs"
  let ?n = "Suc (unat (p - 1) - 1)"
  show ?thesis
  proof (cases "unat (p - 1) - 1 < length rest")
    case True
    then have "rs = take ?n rest @ r # drop ?n rest" using * by (simp add: insert_behind_def Let_def)
    then show ?thesis by (intro exI [of _ "take ?n rest"] exI [of _ "drop ?n rest"]) simp
  next
    case False
    then have "rs = rest @ [r]" using * by (simp add: insert_behind_def Let_def split: if_splits)
    then show ?thesis by auto
  qed
qed

lemma distinct_map_insert:
  "distinct (map f (us @ r # vs)) \<longleftrightarrow> distinct (map f (us @ vs)) \<and> f r \<notin> f ` set (us @ vs)"
  by auto

lemma remove_first_split:
  assumes "find P xs = Some x"
  shows "\<exists>us vs. xs = us @ x # vs \<and> remove_first P xs = us @ vs"
  using assms
proof (induction xs)
  case (Cons a xs)
  show ?case
  proof (cases "P a")
    case True
    then show ?thesis using Cons.prems by (intro exI [of _ "[]"] exI [of _ xs]) simp
  next
    case False
    then obtain us vs where "xs = us @ x # vs" "remove_first P xs = us @ vs" using Cons by auto
    then show ?thesis using False by (intro exI [of _ "a # us"] exI [of _ vs]) simp
  qed
qed simp

lemma move_shape:
  assumes "MoveRuleToPosition rid p s = Inr (True, s')"
  shows "\<exists>r us vs us' vs'. rules_list s = us @ r # vs \<and> rule_id r = rid \<and> rules_list s' = us' @ r # vs' \<and>
     us' @ vs' = us @ vs \<and> g_next_rule_id s' = g_next_rule_id s"
proof -
  obtain r where r: "find (\<lambda>r. rule_id r = rid) (rules_list s) = Some r" and
    rs: "(if p = 1 then Inr (r # remove_first (\<lambda>r. rule_id r = rid) (rules_list s))
       else insert_behind p r (remove_first (\<lambda>r. rule_id r = rid) (rules_list s))) = Inr (rules_list s')"
    and n: "g_next_rule_id s' = g_next_rule_id s"
    using assms by (auto simp: MoveRuleToPosition_def Let_def split: if_splits option.splits sum.splits)
  from remove_first_split [OF r] obtain us vs where
    1: "rules_list s = us @ r # vs" "remove_first (\<lambda>r. rule_id r = rid) (rules_list s) = us @ vs" by blast
  have "\<exists>us' vs'. us @ vs = us' @ vs' \<and> rules_list s' = us' @ r # vs'"
    using rs insert_behind_perm [of p r "us @ vs" "rules_list s'"] unfolding 1(2)
    by (cases "p = 1") (auto intro: exI [of _ "[]"])
  moreover have "rule_id r = rid" using r by (auto simp: find_Some_iff)
  ultimately show ?thesis using 1(1) n by metis
qed

text \<open>C36. Every management call keeps rule numbers distinct, non-zero and below the counter, until the 32-bit counter is about
  to wrap.\<close>

theorem rules_inv_preserved:
  assumes "rules_inv s" and "g_next_rule_id s \<noteq> 0xFFFFFFFF"
  shows "rules_inv (snd (AddRule alloc os pn th tp td proto act cid s)) \<and>
     rules_inv (snd (EditRule ok os rid pn th tp td proto act cid s)) \<and>
     rules_inv (snd (EnableRule os rid s)) \<and> rules_inv (snd (DisableRule os rid s)) \<and>
     rules_inv (snd (DeleteRule os rid s)) \<and>
     (case MoveRuleToPosition rid p s of Inl f \<Rightarrow> True | Inr (moved, s') \<Rightarrow> rules_inv s')"
proof (intro conjI)
  let ?n = "g_next_rule_id s"
  have inc: "?n < ?n + 1" by (rule u32_succ_less) (rule assms(2))
  have "rules_inv (s\<lparr>g_next_rule_id := ?n + 1\<rparr>)"
    using assms(1) inc by (force simp: rules_inv_def word_gt_0)
  moreover have "rules_inv (update_has_active_rules os (s\<lparr>g_next_rule_id := ?n + 1, rules_list := rules_list s @ [r]\<rparr>))"
    if "rule_id r = ?n" for r
    using assms(1) inc that by (force simp: rules_inv_def word_gt_0)
  ultimately show "rules_inv (snd (AddRule alloc os pn th tp td proto act cid s))"
    using assms(1) by (simp add: AddRule_def Let_def)
  show "rules_inv (snd (EditRule ok os rid pn th tp td proto act cid s))"
    "rules_inv (snd (EnableRule os rid s))" "rules_inv (snd (DisableRule os rid s))"
    "rules_inv (snd (DeleteRule os rid s))"
    using assms(1) by (simp_all add: EditRule_def EnableRule_def DisableRule_def DeleteRule_def rules_inv_update rules_inv_remove)
  show "case MoveRuleToPosition rid p s of Inl f \<Rightarrow> True | Inr (moved, s') \<Rightarrow> rules_inv s'"
  proof (cases "\<exists>s'. MoveRuleToPosition rid p s = Inr (True, s')")
    case True
    then obtain s' where s': "MoveRuleToPosition rid p s = Inr (True, s')" by blast
    from move_shape [OF this] obtain r us vs us' vs' where
      "rules_list s = us @ r # vs" "rules_list s' = us' @ r # vs'" "us' @ vs' = us @ vs" "g_next_rule_id s' = ?n" by blast
    moreover from this have "distinct (map rule_id (rules_list s')) = distinct (map rule_id (rules_list s))"
      "set (rules_list s') = set (rules_list s)"
      by (simp_all only: distinct_map_insert) (metis set_append list.simps(15) Un_insert_right)
    ultimately have "rules_inv s'" using assms(1) unfolding rules_inv_def by metis
    then show ?thesis using s' by simp
  next
    case False
    then show ?thesis using assms(1)
      by (auto simp: MoveRuleToPosition_def Let_def split: sum.splits option.splits if_splits)
  qed
qed


theorem rules_inv_preserved_witness:
  "rules_inv (snd (AddRule (\<lambda>_. True) sample_os (Some ''a.exe'') None None None RULE_PROTOCOL_TCP RULE_ACTION_PROXY 1 sample_rules))"
proof -
  have "rules_inv sample_rules" and "g_next_rule_id sample_rules \<noteq> 0xFFFFFFFF"
    by (simp_all add: rules_inv_def sample_rules_def)
  then show ?thesis using rules_inv_preserved by blast
qed

lemma rule_position_split:
  "rid \<notin> rule_id ` set us \<Longrightarrow> rule_id r = rid \<Longrightarrow> rule_position rid p (us @ r # vs) = p + of_nat (length us)"
  by (induction us arbitrary: p) (auto simp: algebra_simps)

lemma insert_behind_take:
  assumes "p \<noteq> 0" and "p = 1 \<or> rest \<noteq> []"
  shows "(if p = 1 then Inr (r # rest) else insert_behind p r rest) =
     Inr (take (min (unat p - 1) (length rest)) rest @ r # drop (min (unat p - 1) (length rest)) rest)"
proof (cases "p = 1")
  case False
  then have "unat p \<noteq> 0" "unat p \<noteq> 1" using assms(1) by (simp_all add: word_unat_eq_iff)
  then have p: "2 \<le> unat p" by linarith
  then have "unat (p - 1) = unat p - 1" by (metis One_nat_def unat_minus_one assms(1))
  moreover have "Suc (unat p - Suc (Suc 0)) = unat p - Suc 0" using p by linarith
  moreover have "rest \<noteq> []" using assms(2) False by simp
  ultimately show ?thesis using False p by (auto simp: insert_behind_def Let_def min_def)
qed simp

text \<open>C37. Moving a rule puts it at the requested position (or last), keeps every other rule and their order, and revokes cached
  UDP verdicts.\<close>

theorem move_rule_to_position:
  assumes "rules_inv s" and "rid \<in> rule_id ` set (rules_list s)" and "p \<noteq> 0" and "p = 1 \<or> 2 \<le> length (rules_list s)"
  shows "\<exists>s'. MoveRuleToPosition rid p s = Inr (True, s') \<and>
     GetRulePosition rid s' = of_nat (min (unat p) (length (rules_list s))) \<and>
     filter (\<lambda>r. rule_id r \<noteq> rid) (rules_list s') = filter (\<lambda>r. rule_id r \<noteq> rid) (rules_list s) \<and>
     set (rules_list s') = set (rules_list s) \<and> g_udp_generation s' = g_udp_generation s + 1"
proof -
  have "find (\<lambda>r. rule_id r = rid) (rules_list s) \<noteq> None" using assms(2) by (auto simp: find_None_iff)
  then obtain r where r: "find (\<lambda>r. rule_id r = rid) (rules_list s) = Some r" by blast
  from remove_first_split [OF r] obtain us vs where l: "rules_list s = us @ r # vs"
    "remove_first (\<lambda>r. rule_id r = rid) (rules_list s) = us @ vs" by blast
  have rid: "rule_id r = rid" using r by (auto simp: find_Some_iff)
  have d: "rid \<notin> rule_id ` set (us @ vs)" "rid \<noteq> 0"
    using assms(1) rid by (auto simp: rules_inv_def l(1))
  let ?n = "min (unat p - 1) (length (us @ vs))"
  let ?new = "take ?n (us @ vs) @ r # drop ?n (us @ vs)"
  have "p = 1 \<or> us @ vs \<noteq> []" using assms(4) l(1) by auto
  note ins = insert_behind_take [OF assms(3) this, of r]
  let ?s = "invalidate_udp_decisions (s\<lparr>rules_list := ?new\<rparr>)"
  have "MoveRuleToPosition rid p s = Inr (True, ?s)"
    using d(2) assms(3) by (simp add: MoveRuleToPosition_def r l(2) Let_def ins)
  moreover have "GetRulePosition rid ?s = of_nat (min (unat p) (length (rules_list s)))"
  proof -
    have "GetRulePosition rid ?s = rule_position rid 1 ?new" using d(2) by (simp add: GetRulePosition_def)
    also have "\<dots> = 1 + of_nat (length (take ?n (us @ vs)))"
      by (rule rule_position_split [OF _ rid]) (meson d(1) image_mono in_mono set_take_subset)
    also have "length (take ?n (us @ vs)) = ?n" by (simp only: length_take min.absorb2 min.cobounded2 min.commute)
    also have "1 + of_nat ?n = (of_nat (Suc ?n) :: u32)" by (simp only: of_nat_Suc)
    also have "Suc ?n = min (unat p) (length (rules_list s))"
    proof -
      have "0 < unat p" using assms(3) by (simp add: unat_gt_0)
      moreover have "length (rules_list s) = Suc (length (us @ vs))" by (simp add: l(1))
      ultimately show ?thesis by linarith
    qed
    finally show ?thesis .
  qed
  moreover have "filter (\<lambda>r. rule_id r \<noteq> rid) ?new = filter (\<lambda>r. rule_id r \<noteq> rid) (rules_list s)"
  proof -
    have "filter (\<lambda>r. rule_id r \<noteq> rid) (xs @ r # ys) = filter (\<lambda>r. rule_id r \<noteq> rid) (xs @ ys)" for xs ys
      using rid by simp
    then show ?thesis by (simp only: l(1) append_take_drop_id)
  qed
  moreover have "set ?new = set (rules_list s)"
    using l(1) by (metis append_take_drop_id set_append list.simps(15) Un_insert_right)
  ultimately show ?thesis by (intro exI [of _ ?s]) (simp add: invalidate_udp_decisions_def)
qed

theorem move_rule_to_position_witness:
  "\<exists>s'. MoveRuleToPosition 1 1 sample_rules = Inr (True, s') \<and> GetRulePosition 1 s' = 1"
proof -
  have "rules_inv sample_rules" and "1 \<in> rule_id ` set (rules_list sample_rules)" and "length (rules_list sample_rules) = 1"
    by (simp_all add: rules_inv_def sample_rules_def)
  then show ?thesis using move_rule_to_position [of sample_rules 1 1] by auto
qed

text \<open>C38. Moving the only rule of a list to a position other than the first reads through a null pointer; no other call of the
  function faults.\<close>

theorem move_rule_faults:
  "MoveRuleToPosition rid p s = Inl f \<longleftrightarrow>
     f = NullDereference \<and> rid \<noteq> 0 \<and> p \<noteq> 0 \<and> p \<noteq> 1 \<and> (\<exists>r. rules_list s = [r] \<and> rule_id r = rid)"
proof
  assume m: "MoveRuleToPosition rid p s = Inl f"
  then obtain r where r: "find (\<lambda>r. rule_id r = rid) (rules_list s) = Some r"
    and i: "insert_behind p r (remove_first (\<lambda>r. rule_id r = rid) (rules_list s)) = Inl f" "rid \<noteq> 0" "p \<noteq> 0" "p \<noteq> 1"
    by (auto simp: MoveRuleToPosition_def Let_def split: if_splits option.splits sum.splits)
  then have "remove_first (\<lambda>r. rule_id r = rid) (rules_list s) = []" "f = NullDereference"
    by (auto simp: insert_behind_def Let_def split: if_splits)
  moreover from remove_first_split [OF r] obtain us vs where "rules_list s = us @ r # vs"
    "remove_first (\<lambda>r. rule_id r = rid) (rules_list s) = us @ vs" by blast
  moreover have "rule_id r = rid" using r by (auto simp: find_Some_iff)
  ultimately show "f = NullDereference \<and> rid \<noteq> 0 \<and> p \<noteq> 0 \<and> p \<noteq> 1 \<and> (\<exists>r. rules_list s = [r] \<and> rule_id r = rid)"
    using i by auto
next
  assume "f = NullDereference \<and> rid \<noteq> 0 \<and> p \<noteq> 0 \<and> p \<noteq> 1 \<and> (\<exists>r. rules_list s = [r] \<and> rule_id r = rid)"
  then show "MoveRuleToPosition rid p s = Inl f"
    by (auto simp: MoveRuleToPosition_def insert_behind_def Let_def)
qed

end
