(* ===== verification/PB_Packet.thy ===== *)
theory PB_Packet
  imports PB_Rules
begin

text \<open>
  The packet processor of \<open>ProxyBridge.c\<close>: the classification and rewriting of one captured packet, for TCP
  and UDP over IPv4 and IPv6, and the batch loop around it. Packets are what \<open>WinDivertHelperParsePacket\<close>
  reports of them, with ports in host order; \<open>WinDivertSend\<close> and \<open>WinDivertHelperCalcChecksums\<close> appear as
  the fate of the packet. The lemmas show that every packet keeps the
  invariant of the packet path.
\<close>

section \<open>Packets and their fate\<close>

record 'a packet =
  pk_src :: 'a
  pk_dst :: 'a
  pk_sport :: u16
  pk_dport :: u16
  pk_outbound :: bool
  pk_syn :: bool
  pk_ack :: bool
  pk_fin :: bool
  pk_rst :: bool
  pk_payload :: bytes

text \<open>Dropped, sent on as captured, or sent on with new checksums.\<close>

datatype 'p fate = Dropped | Sent 'p | Resent 'p

text \<open>\<open>Waiting\<close>: the owner loop of the verdict has not ended within the rounds given.\<close>

datatype 'p outcome = Waiting | Faulted fault | Done "'p fate" pb

text \<open>What surrounds the processing of a packet: the system, the rounds of an owner lookup that starts at
  \<open>en_start\<close>, the tick before and after it, and the allocations.\<close>

record pkt_env =
  en_os :: os
  en_start :: u64
  en_rounds :: "owner_round list"
  en_now :: u64
  en_later :: u64
  en_calloc :: "pb \<Rightarrow> addr option"
  en_log_alloc :: bool
  en_dns_alloc :: "nat \<Rightarrow> bool"

definition with_verdict ::
  "verdict option \<Rightarrow> (RuleAction \<Rightarrow> u32 \<Rightarrow> u32 \<Rightarrow> pb \<Rightarrow> 'p outcome) \<Rightarrow> 'p outcome" where
  "with_verdict v k = (case v of None \<Rightarrow> Waiting | Some (action, pid, cid, s) \<Rightarrow> k action pid cid s)"

text \<open>Exchange the addresses and inject inbound: the usual way to a relay and back.\<close>

definition swap_inbound :: "'a packet \<Rightarrow> 'a packet" where
  "swap_inbound p = p\<lparr>pk_src := pk_dst p, pk_dst := pk_src p, pk_outbound := False\<rparr>"

section \<open>Shared helpers\<close>

definition is_proxy_server_endpoint :: "pb \<Rightarrow> u32 \<Rightarrow> u16 \<Rightarrow> bool" where
  "is_proxy_server_endpoint s destination port \<longleftrightarrow>
     list_ex (\<lambda>c. config_id c \<noteq> 0 \<and> pc_resolved_ip c = destination \<and> pc_port c = port) (g_proxy_configs s)"

definition is_proxy_udp_endpoint :: "pb \<Rightarrow> u32 \<Rightarrow> u16 \<Rightarrow> bool" where
  "is_proxy_udp_endpoint s destination port \<longleftrightarrow>
     list_ex (\<lambda>c. pc_udp_connected c \<and> pc_udp_relay_addr c = (destination, port)) (g_proxy_configs s)"

definition reset_stale_tcp_state :: "u16 \<Rightarrow> bool \<Rightarrow> pb \<Rightarrow> pb" where
  "reset_stale_tcp_state source_port ipv6 s =
     (if source_port = g_local_relay_port s then s
      else port_clear source_port (remove_connection source_port False ipv6 s))"

definition consume_direct_decision :: "u16 \<Rightarrow> bool \<Rightarrow> pb \<Rightarrow> bool \<times> pb" where
  "consume_direct_decision source_port teardown s =
     (port_is_decided s source_port \<and> port_is_direct s source_port,
      if teardown then port_clear source_port s else s)"

text \<open>Reporting a decided connection to the callback, once per process, destination and action. \<open>key\<close>
  stands for the destination in the list of reported connections.\<close>

definition report_connection ::
  "os \<Rightarrow> bool \<Rightarrow> u32 \<Rightarrow> u32 + ip6 \<Rightarrow> u32 \<Rightarrow> u16 \<Rightarrow> RuleAction \<Rightarrow> pb \<Rightarrow> pb" where
  "report_connection os alloc pid dest key dport action s =
     (if \<not> g_connection_callback s \<or> pid = 0 then s
      else case get_process_name_from_pid os pid MAX_PROCESS_NAME of
        None \<Rightarrow> s
      | Some process_name \<Rightarrow>
          if is_connection_already_logged pid key dport action s then s
          else let s1 = s\<lparr>connection_events := connection_events s @
                 [\<lparr>ev_process = extract_filename (Some process_name), ev_pid = pid, ev_dest = dest,
                   ev_dest_port = dport, ev_action = action\<rparr>]\<rparr> in
            if g_traffic_logging_enabled s1 then add_logged_connection alloc pid key dport action s1 else s1)"

text \<open>The 128-bit destination folded into 32 bits.\<close>

definition v6key :: "ip6 \<Rightarrow> u32" where
  "v6key d = bytes_to_u32 (take 4 d) XOR bytes_to_u32 (take 4 (drop 4 d)) XOR
     bytes_to_u32 (take 4 (drop 8 d)) XOR bytes_to_u32 (take 4 (drop 12 d))"

section \<open>UDP over IPv6\<close>

text \<open>A datagram of the relay on its way back to the application.\<close>

definition udp_v6_relay_reply :: "u64 \<Rightarrow> ip6 packet \<Rightarrow> pb \<Rightarrow> ip6 packet outcome" where
  "udp_v6_relay_reply now p s =
     (case get_connection_full_v6 (pk_dport p) True now s of (c, s1) \<Rightarrow>
        let p1 = (case c of
                    Some (orig_dst6, orig_dp, _) \<Rightarrow> p\<lparr>pk_src := orig_dst6, pk_sport := orig_dp\<rparr>
                  | None \<Rightarrow> p);
            p2 = (if pk_dst p1 \<noteq> loopback6 then p1\<lparr>pk_outbound := False\<rparr> else p1)
        in Done (Resent p2) s1)"

text \<open>To the relay: the relay port, and the addresses exchanged unless both are the loopback address.\<close>

definition udp_v6_redirect :: "ip6 packet \<Rightarrow> ip6 packet" where
  "udp_v6_redirect p =
     (let p1 = p\<lparr>pk_dport := LOCAL_UDP_RELAY_PORT\<rparr> in
      if pk_src p = loopback6 \<and> pk_dst p = loopback6 then p1 else swap_inbound p1)"

text \<open>PROXY becomes DIRECT for loopback destinations (unless they are to be proxied) and for DHCPv6.\<close>

definition udp_v6_action :: "ip6 packet \<Rightarrow> pb \<Rightarrow> RuleAction \<Rightarrow> RuleAction" where
  "udp_v6_action p s action =
     (let d6 = pk_dst p;
          a1 = (if action = RULE_ACTION_PROXY \<and> \<not> g_localhost_via_proxy s \<and>
                   (d6 = loopback6 \<or> (take 12 d6 = mapped_prefix \<and> d6 ! 12 = 127))
                then RULE_ACTION_DIRECT else action)
      in if a1 = RULE_ACTION_PROXY \<and> (pk_dport p = 546 \<or> pk_dport p = 547) then RULE_ACTION_DIRECT else a1)"

definition udp_v6_new :: "pkt_env \<Rightarrow> u32 \<Rightarrow> ip6 packet \<Rightarrow> pb \<Rightarrow> ip6 packet outcome" where
  "udp_v6_new env udp_generation p s =
     (if is_ipv6_multicast_or_linklocal (pk_dst p) then Done (Sent p) s
      else if \<not> g_has_active_rules s \<and> \<not> g_connection_callback s then Done (Sent p) s
      else with_verdict (check_process_rule_v6 (en_os env) (en_start env) (en_rounds env) (en_later env)
             (pk_src p) (pk_sport p) (pk_dst p) (pk_dport p) True s)
        (\<lambda>action0 pid cid s1.
           let action = udp_v6_action p s1 action0;
               s2 = report_connection (en_os env) (en_log_alloc env) pid (Inr (pk_dst p)) (v6key (pk_dst p))
                      (pk_dport p) action s1
           in if action = RULE_ACTION_BLOCK then Done Dropped s2
              else if action = RULE_ACTION_PROXY
              then (case find_proxy_config s2 cid of
                      None \<Rightarrow> Done Dropped s2
                    | Some cfg \<Rightarrow>
                        if pc_type cfg \<noteq> PROXY_TYPE_SOCKS5 then Done Dropped s2
                        else Done (Resent (udp_v6_redirect p))
                               (udp_flow_stamp (pk_sport p) True udp_generation
                                  (add_connection_v6 (en_calloc env s2) (pk_sport p) True (pk_src p) (pk_dst p)
                                     (pk_dport p) cid (en_later env) s2)))
              else Done (Sent p)
                     (if pid \<noteq> 0
                      then udp_direct_remember True (pk_src p) (pk_sport p) (pk_dst p) (pk_dport p)
                             udp_generation (en_later env) s2
                      else s2)))"

definition udp_v6_in :: "pkt_env \<Rightarrow> ip6 packet \<Rightarrow> pb \<Rightarrow> ip6 packet outcome" where
  "udp_v6_in env p s =
     (if pk_dport p \<noteq> LOCAL_UDP_RELAY_PORT
      then if pk_sport p = 53 \<and> pk_payload p \<noteq> []
           then (case snoop_dns_response (en_dns_alloc env) (pk_payload p) (en_now env) s of
                   Inl f \<Rightarrow> Faulted f
                 | Inr s1 \<Rightarrow> Done (Sent p) s1)
           else Done (Sent p) s
      else Done (Resent p) s)"

definition handle_udp_v6 :: "pkt_env \<Rightarrow> ip6 packet \<Rightarrow> pb \<Rightarrow> ip6 packet outcome" where
  "handle_udp_v6 env p s =
     (if \<not> pk_outbound p then udp_v6_in env p s
      else if pk_sport p = LOCAL_UDP_RELAY_PORT then udp_v6_relay_reply (en_now env) p s
      else if udp_direct_cached True (pk_src p) (pk_sport p) (pk_dst p) (pk_dport p) (en_now env) s
      then Done (Sent p) s
      else case udp_flow_validate (pk_sport p) True 0 (pk_src p) 0 (pk_dst p) (pk_dport p) (en_now env) s of
        (valid, s1) \<Rightarrow>
          if valid then Done (Resent (udp_v6_redirect p)) s1
          else udp_v6_new env (g_udp_generation s) p s1)"

section \<open>TCP over IPv6\<close>

definition tcp_v6_swap :: "ip6 packet \<Rightarrow> ip6 packet" where
  "tcp_v6_swap p = (if pk_src p = loopback6 \<and> pk_dst p = loopback6 then p else swap_inbound p)"

definition tcp_v6_redirect :: "pb \<Rightarrow> ip6 packet \<Rightarrow> ip6 packet" where
  "tcp_v6_redirect s p = tcp_v6_swap (p\<lparr>pk_dport := g_local_relay_port s\<rparr>)"

definition tcp_v6_relay_reply :: "u64 \<Rightarrow> ip6 packet \<Rightarrow> pb \<Rightarrow> ip6 packet outcome" where
  "tcp_v6_relay_reply now p s =
     (case get_connection_full_v6 (pk_dport p) False now s of (c, s1) \<Rightarrow>
        let orig_dst_port = (case c of Some (_, port, _) \<Rightarrow> port | None \<Rightarrow> 0);
            p1 = (if orig_dst_port \<noteq> 0 then p\<lparr>pk_sport := orig_dst_port\<rparr> else p);
            s2 = (if pk_rst p then remove_connection (pk_dport p) False True s1
                  else if pk_fin p then connection_fin (pk_dport p) True 2 now s1 else s1)
        in Done (Resent (tcp_v6_swap p1)) s2)"

definition tcp_v6_tracked :: "u64 \<Rightarrow> ip6 packet \<Rightarrow> pb \<Rightarrow> ip6 packet outcome" where
  "tcp_v6_tracked now p s =
     (let s1 = (if pk_rst p then port_clear (pk_sport p) (remove_connection (pk_sport p) False True s)
                else if pk_fin p then connection_fin (pk_sport p) True 1 now s else s)
      in Done (Resent (tcp_v6_redirect s1 p)) s1)"

definition tcp_v6_action :: "ip6 packet \<Rightarrow> pb \<Rightarrow> RuleAction \<Rightarrow> RuleAction" where
  "tcp_v6_action p s action =
     (let dst6 = pk_dst p in
      if action = RULE_ACTION_PROXY \<and> \<not> g_localhost_via_proxy s \<and>
         (dst6 = loopback6 \<or> (dst6 \<noteq> loopback6 \<and> take 12 dst6 = mapped_prefix \<and> dst6 ! 12 = 127))
      then RULE_ACTION_DIRECT else action)"

definition tcp_v6_new :: "pkt_env \<Rightarrow> ip6 packet \<Rightarrow> pb \<Rightarrow> ip6 packet outcome" where
  "tcp_v6_new env p s =
     (if pk_fin p \<or> pk_rst p then Done (Sent p) s
      else if is_ipv6_multicast_or_linklocal (pk_dst p) then Done (Sent p) s
      else if \<not> g_has_active_rules s \<and> \<not> g_connection_callback s then Done (Sent p) s
      else with_verdict (check_process_rule_v6 (en_os env) (en_start env) (en_rounds env) (en_later env)
             (pk_src p) (pk_sport p) (pk_dst p) (pk_dport p) False s)
        (\<lambda>action0 pid cid s1.
           let action = tcp_v6_action p s1 action0;
               s2 = (if pk_syn p \<and> \<not> pk_ack p
                     then report_connection (en_os env) (en_log_alloc env) pid (Inr (pk_dst p)) (v6key (pk_dst p))
                            (pk_dport p) action s1
                     else s1)
           in case action of
                RULE_ACTION_DIRECT \<Rightarrow> Done (Sent p) (if pid \<noteq> 0 then port_set_direct (pk_sport p) s2 else s2)
              | RULE_ACTION_BLOCK \<Rightarrow> Done Dropped (port_set_decided (pk_sport p) s2)
              | RULE_ACTION_PROXY \<Rightarrow>
                  let s3 = port_set_decided (pk_sport p)
                             (add_connection_v6 (en_calloc env s2) (pk_sport p) False (pk_src p) (pk_dst p)
                                (pk_dport p) cid (en_later env) s2)
                  in Done (Resent (tcp_v6_redirect s3 p)) s3))"

definition tcp_v6_admit :: "ip6 packet \<Rightarrow> pb \<Rightarrow> bool \<times> pb" where
  "tcp_v6_admit p s =
     (let sp = pk_sport p;
          s1 = (if pk_syn p \<and> \<not> pk_ack p then reset_stale_tcp_state sp True s else s)
      in if port_is_decided s1 sp then consume_direct_decision sp (pk_fin p \<or> pk_rst p) s1 else (False, s1))"

definition handle_tcp_v6 :: "pkt_env \<Rightarrow> ip6 packet \<Rightarrow> pb \<Rightarrow> ip6 packet outcome" where
  "handle_tcp_v6 env p s =
     (if \<not> pk_outbound p
      then if pk_dport p \<noteq> g_local_relay_port s then Done (Sent p) s else Done (Resent p) s
      else case tcp_v6_admit p s of (direct, s1) \<Rightarrow>
        if direct then Done (Sent p) s1
        else if pk_sport p = g_local_relay_port s1 then tcp_v6_relay_reply (en_now env) p s1
        else if is_connection_tracked s1 (pk_sport p) False True then tcp_v6_tracked (en_now env) p s1
        else tcp_v6_new env p s1)"

section \<open>UDP over IPv4\<close>

definition first_octet :: "u32 \<Rightarrow> u32" where
  "first_octet ip = drop_bit 24 (ntohl ip) AND 0xFF"

definition udp_v4_relay_reply :: "u64 \<Rightarrow> u32 packet \<Rightarrow> pb \<Rightarrow> u32 packet outcome" where
  "udp_v4_relay_reply now p s =
     (case get_connection (pk_dport p) True now s of
        (Some (orig_dest_ip, orig_dest_port), s1) \<Rightarrow>
          let p1 = p\<lparr>pk_src := orig_dest_ip, pk_sport := orig_dest_port\<rparr>
          in Done (Resent (if first_octet (pk_dst p1) \<noteq> 127 then p1\<lparr>pk_outbound := False\<rparr> else p1)) s1
      | (None, s1) \<Rightarrow> Done Dropped s1)"

definition udp_v4_redirect :: "u32 packet \<Rightarrow> u32 packet" where
  "udp_v4_redirect p =
     (let p1 = p\<lparr>pk_dport := LOCAL_UDP_RELAY_PORT\<rparr> in
      if first_octet (pk_src p) = 127 then p1\<lparr>pk_dst := 0x0100007F\<rparr> else swap_inbound p1)"

definition udp_v4_action :: "u32 packet \<Rightarrow> pb \<Rightarrow> RuleAction \<Rightarrow> RuleAction" where
  "udp_v4_action p s action =
     (let a1 = (if action = RULE_ACTION_PROXY \<and> \<not> g_localhost_via_proxy s \<and> pk_dst p AND 0xFF = 127
                then RULE_ACTION_DIRECT else action);
          a2 = (if a1 = RULE_ACTION_PROXY \<and> is_broadcast_or_multicast (pk_dst p) then RULE_ACTION_DIRECT else a1)
      in if a2 = RULE_ACTION_PROXY \<and> (pk_dport p = 67 \<or> pk_dport p = 68) then RULE_ACTION_DIRECT else a2)"

definition udp_v4_new :: "pkt_env \<Rightarrow> u32 \<Rightarrow> u32 packet \<Rightarrow> pb \<Rightarrow> u32 packet outcome" where
  "udp_v4_new env udp_generation p s =
     (if \<not> g_has_active_rules s \<and> \<not> g_connection_callback s then Done (Sent p) s
      else with_verdict (check_process_rule (en_os env) (en_start env) (en_rounds env) (en_later env)
             (pk_src p) (pk_sport p) (pk_dst p) (pk_dport p) True s)
        (\<lambda>action0 pid cid s1.
           let action = udp_v4_action p s1 action0;
               s2 = report_connection (en_os env) (en_log_alloc env) pid (Inl (pk_dst p)) (pk_dst p)
                      (pk_dport p) action s1
           in if action = RULE_ACTION_BLOCK then Done Dropped s2
              else if action = RULE_ACTION_PROXY
              then Done (Resent (udp_v4_redirect p))
                     (udp_flow_stamp (pk_sport p) False udp_generation
                        (add_connection (en_calloc env s2) (pk_sport p) True (pk_src p) (pk_dst p)
                           (pk_dport p) cid (en_later env) s2))
              else Done (Sent p)
                     (if pid \<noteq> 0
                      then udp_direct_remember False (u32_to_bytes (pk_src p)) (pk_sport p)
                             (u32_to_bytes (pk_dst p)) (pk_dport p) udp_generation (en_later env) s2
                      else s2)))"

definition udp_v4_in :: "pkt_env \<Rightarrow> u32 packet \<Rightarrow> pb \<Rightarrow> u32 packet outcome" where
  "udp_v4_in env p s =
     (if pk_dport p \<noteq> LOCAL_UDP_RELAY_PORT
      then if pk_sport p = 53 \<and> pk_payload p \<noteq> []
           then (case snoop_dns_response (en_dns_alloc env) (pk_payload p) (en_now env) s of
                   Inl f \<Rightarrow> Faulted f
                 | Inr s1 \<Rightarrow> Done (Sent p) s1)
           else Done (Sent p) s
      else Done (Resent p) s)"

definition handle_udp_v4 :: "pkt_env \<Rightarrow> u32 packet \<Rightarrow> pb \<Rightarrow> u32 packet outcome" where
  "handle_udp_v4 env p s =
     (if \<not> pk_outbound p then udp_v4_in env p s
      else if pk_sport p \<noteq> LOCAL_UDP_RELAY_PORT \<and>
         (is_proxy_udp_endpoint s (pk_dst p) (pk_dport p) \<or>
          udp_direct_cached False (u32_to_bytes (pk_src p)) (pk_sport p) (u32_to_bytes (pk_dst p)) (pk_dport p)
            (en_now env) s)
      then Done (Sent p) s
      else if pk_sport p = LOCAL_UDP_RELAY_PORT then udp_v4_relay_reply (en_now env) p s
      else case udp_flow_validate (pk_sport p) False (pk_src p) [] (pk_dst p) [] (pk_dport p) (en_now env) s of
        (valid, s1) \<Rightarrow>
          if valid then Done (Resent (udp_v4_redirect p)) s1
          else udp_v4_new env (g_udp_generation s) p s1)"

section \<open>TCP over IPv4\<close>

definition tcp_v4_swap :: "u32 packet \<Rightarrow> u32 packet" where
  "tcp_v4_swap p = (if first_octet (pk_src p) = 127 \<and> first_octet (pk_dst p) = 127 then p else swap_inbound p)"

definition tcp_v4_redirect :: "pb \<Rightarrow> u32 packet \<Rightarrow> u32 packet" where
  "tcp_v4_redirect s p = tcp_v4_swap (p\<lparr>pk_dport := g_local_relay_port s\<rparr>)"

definition tcp_v4_relay_reply :: "u64 \<Rightarrow> u32 packet \<Rightarrow> pb \<Rightarrow> u32 packet outcome" where
  "tcp_v4_relay_reply now p s =
     (case get_connection (pk_dport p) False now s of (c, s1) \<Rightarrow>
        let p1 = (case c of Some (_, orig_dest_port) \<Rightarrow> p\<lparr>pk_sport := orig_dest_port\<rparr> | None \<Rightarrow> p);
            s2 = (if pk_rst p then remove_connection (pk_dport p) False False s1
                  else if pk_fin p then connection_fin (pk_dport p) False 2 now s1 else s1)
        in Done (Resent (tcp_v4_swap p1)) s2)"

definition tcp_v4_tracked :: "u64 \<Rightarrow> u32 packet \<Rightarrow> pb \<Rightarrow> u32 packet outcome" where
  "tcp_v4_tracked now p s =
     (let s1 = (if pk_rst p then port_clear (pk_sport p) (remove_connection (pk_sport p) False False s)
                else if pk_fin p then connection_fin (pk_sport p) False 1 now s else s)
      in Done (Resent (tcp_v4_redirect s1 p)) s1)"

definition tcp_v4_action :: "u32 packet \<Rightarrow> pb \<Rightarrow> RuleAction \<Rightarrow> RuleAction" where
  "tcp_v4_action p s action =
     (let a1 = (if action = RULE_ACTION_PROXY \<and> \<not> g_localhost_via_proxy s \<and> pk_dst p AND 0xFF = 127
                then RULE_ACTION_DIRECT else action)
      in if a1 = RULE_ACTION_PROXY \<and> is_broadcast_or_multicast (pk_dst p) then RULE_ACTION_DIRECT else a1)"

definition tcp_v4_new :: "pkt_env \<Rightarrow> u32 packet \<Rightarrow> pb \<Rightarrow> u32 packet outcome" where
  "tcp_v4_new env p s =
     (if pk_fin p \<or> pk_rst p then Done (Sent p) s
      else if \<not> g_has_active_rules s \<and> \<not> g_connection_callback s then Done (Sent p) s
      else with_verdict (check_process_rule (en_os env) (en_start env) (en_rounds env) (en_later env)
             (pk_src p) (pk_sport p) (pk_dst p) (pk_dport p) False s)
        (\<lambda>action0 pid cid s1.
           let action = tcp_v4_action p s1 action0;
               s2 = (if pk_syn p \<and> \<not> pk_ack p
                     then report_connection (en_os env) (en_log_alloc env) pid (Inl (pk_dst p)) (pk_dst p)
                            (pk_dport p) action s1
                     else s1)
           in case action of
                RULE_ACTION_DIRECT \<Rightarrow> Done (Sent p) (if pid \<noteq> 0 then port_set_direct (pk_sport p) s2 else s2)
              | RULE_ACTION_BLOCK \<Rightarrow> Done Dropped (port_set_decided (pk_sport p) s2)
              | RULE_ACTION_PROXY \<Rightarrow>
                  let s3 = port_set_decided (pk_sport p)
                             (add_connection (en_calloc env s2) (pk_sport p) False (pk_src p) (pk_dst p)
                                (pk_dport p) cid (en_later env) s2)
                  in Done (Resent (tcp_v4_redirect s3 p)) s3))"

text \<open>A fresh SYN forgets what an earlier connection left for its port; then the cached decision is consulted.\<close>

definition tcp_v4_admit :: "u32 packet \<Rightarrow> pb \<Rightarrow> bool \<times> pb" where
  "tcp_v4_admit p s =
     (let sp = pk_sport p;
          s1 = (if pk_syn p \<and> \<not> pk_ack p
                then reset_stale_tcp_state sp False (remove_cached_pid (pk_src p) sp False s) else s)
      in if port_is_decided s1 sp then consume_direct_decision sp (pk_fin p \<or> pk_rst p) s1 else (False, s1))"

definition handle_tcp_v4 :: "pkt_env \<Rightarrow> u32 packet \<Rightarrow> pb \<Rightarrow> u32 packet outcome" where
  "handle_tcp_v4 env p s =
     (if \<not> pk_outbound p
      then if pk_dport p \<noteq> g_local_relay_port s then Done (Sent p) s else Done (Resent p) s
      else if pk_sport p \<noteq> g_local_relay_port s \<and> is_proxy_server_endpoint s (pk_dst p) (pk_dport p)
      then Done (Sent p) s
      else case tcp_v4_admit p s of (direct, s1) \<Rightarrow>
        if direct then Done (Sent p) s1
        else if pk_sport p = g_local_relay_port s1 then tcp_v4_relay_reply (en_now env) p s1
        else if is_connection_tracked s1 (pk_sport p) False False then tcp_v4_tracked (en_now env) p s1
        else tcp_v4_new env p s1)"

section \<open>The batch\<close>

text \<open>What the parser finds at the head of the receive buffer.\<close>

datatype parsed =
    V4_UDP "u32 packet" | V4_TCP "u32 packet" | V4_Other
  | V6_UDP "ip6 packet" | V6_TCP "ip6 packet" | V6_Other bytes
  | No_IP | Unparsable

datatype any_packet = P4 "u32 packet" | P6 "ip6 packet" | P_raw bytes

definition lift_fate :: "('p \<Rightarrow> any_packet) \<Rightarrow> 'p outcome \<Rightarrow> any_packet outcome" where
  "lift_fate wrap out =
     (case out of Waiting \<Rightarrow> Waiting | Faulted f \<Rightarrow> Faulted f | Done fate s \<Rightarrow> Done (map_fate wrap fate) s)"

definition handle_packet :: "pkt_env \<Rightarrow> parsed \<Rightarrow> pb \<Rightarrow> any_packet outcome" where
  "handle_packet env x s =
     (case x of
        Unparsable \<Rightarrow> Done Dropped s
      | No_IP \<Rightarrow> Done Dropped s
      | V6_UDP p \<Rightarrow> lift_fate P6 (handle_udp_v6 env p s)
      | V6_Other raw \<Rightarrow> Done (Sent (P_raw raw)) s
      | V6_TCP p \<Rightarrow> lift_fate P6 (handle_tcp_v6 env p s)
      | V4_UDP p \<Rightarrow> lift_fate P4 (handle_udp_v4 env p s)
      | V4_Other \<Rightarrow> Done Dropped s
      | V4_TCP p \<Rightarrow> lift_fate P4 (handle_tcp_v4 env p s))"

text \<open>The send batch: what it holds, and the bytes used of its buffer.\<close>

record send_batch =
  sb_packets :: "any_packet list"
  sb_length :: nat
  sb_capacity :: nat

definition queue_packet_for_send :: "any_packet \<Rightarrow> nat \<Rightarrow> send_batch \<Rightarrow> bool \<times> send_batch" where
  "queue_packet_for_send packet packet_len batch =
     (if PACKET_BATCH_SIZE \<le> length (sb_packets batch) \<or> sb_capacity batch - sb_length batch < packet_len
      then (False, batch)
      else (True, batch\<lparr>sb_packets := sb_packets batch @ [packet], sb_length := sb_length batch + packet_len\<rparr>))"

text \<open>One pass over a received batch: for each packet its environment, its length and what the parser finds.
  The result is the send batch and whether every packet that was to be sent found room in it.\<close>

fun process_batch ::
  "(pkt_env \<times> nat \<times> parsed) list \<Rightarrow> send_batch \<Rightarrow> pb \<Rightarrow> (fault + bool \<times> send_batch \<times> pb) option" where
  "process_batch [] batch s = Some (Inr (True, batch, s))"
| "process_batch ((env, packet_len, x) # rest) batch s =
     (case handle_packet env x s of
        Waiting \<Rightarrow> None
      | Faulted f \<Rightarrow> Some (Inl f)
      | Done Dropped s1 \<Rightarrow> process_batch rest batch s1
      | Done (Sent p) s1 \<Rightarrow>
          (case queue_packet_for_send p packet_len batch of (ok, batch1) \<Rightarrow>
             map_option (map_sum id (\<lambda>(oks, r). (ok \<and> oks, r))) (process_batch rest batch1 s1))
      | Done (Resent p) s1 \<Rightarrow>
          (case queue_packet_for_send p packet_len batch of (ok, batch1) \<Rightarrow>
             map_option (map_sum id (\<lambda>(oks, r). (ok \<and> oks, r))) (process_batch rest batch1 s1)))"

section \<open>The loop of a packet thread\<close>

text \<open>What one receive call returns, and what an iteration does besides changing the state. The failure counter
  counts consecutive failures and wraps.\<close>

datatype received = Recv_Failed u32 | Received "(pkt_env \<times> nat \<times> parsed) list"

datatype loop_act =
    Send_Batch "any_packet list" nat
  | Log_Failure u32 u32
  | Log_Restart
  | Pause u32

text \<open>The buffers hold a full batch of the largest packets of the capture driver, whose bound is \<open>mtu\<close>.\<close>

definition PACKET_BATCH_BUFFER_SIZE :: "nat \<Rightarrow> nat" where
  "PACKET_BATCH_BUFFER_SIZE mtu = PACKET_BATCH_SIZE * mtu"

definition handle_closed :: "u32 \<Rightarrow> bool" where
  "handle_closed error \<longleftrightarrow> error = 6 \<or> error = 232 \<or> error = 995"

definition receive_failed :: "bool \<Rightarrow> u32 \<Rightarrow> u32 \<Rightarrow> loop_act list" where
  "receive_failed shutdown_event error receive_failures =
     (if receive_failures = 1 \<or> receive_failures mod 1000 = 0 then [Log_Failure error receive_failures] else []) @
     (if receive_failures = 5000 then [Log_Restart] else []) @
     (if receive_failures > 10 \<and> shutdown_event then [Pause (if receive_failures > 1000 then 100 else 5)] else [])"

definition empty_batch :: "nat \<Rightarrow> send_batch" where
  "empty_batch mtu = \<lparr>sb_packets = [], sb_length = 0, sb_capacity = PACKET_BATCH_BUFFER_SIZE mtu\<rparr>"

definition prefix_acts :: "loop_act list \<Rightarrow> (fault + loop_act list \<times> pb) option \<Rightarrow> (fault + loop_act list \<times> pb) option" where
  "prefix_acts acts = map_option (map_sum id (\<lambda>(rest, s). (acts @ rest, s)))"

text \<open>Each element is what other threads do before the iteration and what the receive call then returns; \<open>None\<close>
  is a loop that is still running when they are used up.\<close>

fun packet_loop :: "nat \<Rightarrow> bool \<Rightarrow> ((pb \<Rightarrow> pb) \<times> received) list \<Rightarrow> u32 \<Rightarrow> pb \<Rightarrow> (fault + loop_act list \<times> pb) option" where
  "packet_loop mtu shutdown_event [] receive_failures s = None"
| "packet_loop mtu shutdown_event ((others, r) # rest) receive_failures s =
     (if \<not> running (others s) then Some (Inr ([], others s))
      else case r of
        Recv_Failed error \<Rightarrow>
          if handle_closed error then Some (Inr ([], others s))
          else prefix_acts (receive_failed shutdown_event error (receive_failures + 1))
                 (packet_loop mtu shutdown_event rest (receive_failures + 1) (others s))
      | Received packets \<Rightarrow>
          (case process_batch packets (empty_batch mtu) (others s) of
             None \<Rightarrow> None
           | Some (Inl f) \<Rightarrow> Some (Inl f)
           | Some (Inr (_, batch, s1)) \<Rightarrow>
               prefix_acts (if sb_packets batch \<noteq> [] then [Send_Batch (sb_packets batch) (sb_length batch)] else [])
                 (packet_loop mtu shutdown_event rest 0 s1)))"

text \<open>The thread: without its two buffers it ends at once with exit code 1.\<close>

definition packet_processor ::
  "nat \<Rightarrow> bool \<Rightarrow> bool \<Rightarrow> bool \<Rightarrow> ((pb \<Rightarrow> pb) \<times> received) list \<Rightarrow> pb \<Rightarrow> (fault + u32 \<times> loop_act list \<times> pb) option" where
  "packet_processor mtu recv_packets send_packets shutdown_event iterations s =
     (if \<not> recv_packets \<or> \<not> send_packets then Some (Inr (1, [], s))
      else map_option (map_sum id (\<lambda>(acts, s1). (0, acts, s1))) (packet_loop mtu shutdown_event iterations 0 s))"

section \<open>What the operations leave alone\<close>

named_theorems frame_simps \<open>fields an operation does not change\<close>

lemma rev_frame [frame_simps]:
  "port_decided_bitmap (rev_insert a s) = port_decided_bitmap s"
  "port_direct_bitmap (rev_insert a s) = port_direct_bitmap s"
  "g_local_relay_port (rev_insert a s) = g_local_relay_port s"
  "port_decided_bitmap (rev_unlink a s) = port_decided_bitmap s"
  "port_direct_bitmap (rev_unlink a s) = port_direct_bitmap s"
  "g_local_relay_port (rev_unlink a s) = g_local_relay_port s"
  "port_decided_bitmap (write_conn a f s) = port_decided_bitmap s"
  "port_direct_bitmap (write_conn a f s) = port_direct_bitmap s"
  "g_local_relay_port (write_conn a f s) = g_local_relay_port s"
  by (simp_all add: rev_insert_def rev_unlink_def write_conn_def Let_def)

lemma drop_frame [frame_simps]:
  "port_decided_bitmap (drop_connection b a s) = port_decided_bitmap s"
  "port_direct_bitmap (drop_connection b a s) = port_direct_bitmap s"
  "g_local_relay_port (drop_connection b a s) = g_local_relay_port s"
  by (simp_all add: drop_connection_def Let_def frame_simps)

text \<open>The port decisions and the relay port, which every operation on flows leaves alone.\<close>

definition same_ports :: "pb \<Rightarrow> pb \<Rightarrow> bool" where
  "same_ports s s' \<longleftrightarrow> port_decided_bitmap s' = port_decided_bitmap s \<and>
     port_direct_bitmap s' = port_direct_bitmap s \<and> g_local_relay_port s' = g_local_relay_port s"

lemma same_ports_flow_ops [frame_simps]:
  "same_ports s (add_connection fresh port udp src dst dport pid now s)"
  "same_ports s (add_connection_v6 fresh port udp src6 dst6 dport pid now s)"
  "same_ports s (remove_connection port udp v6 s)"
  "same_ports s (connection_fin port v6 bits now s)"
  "same_ports s (udp_flow_stamp port v6 gen s)"
  "same_ports s (udp_direct_remember v6 source port dest dport gen now s)"
  "same_ports s (snd (get_connection port udp now s))"
  "same_ports s (snd (get_connection_full_v6 port udp now s))"
  "same_ports s (snd (udp_flow_validate port v6 src src6 dst dst6 dport now s))"
  "same_ports s (remove_cached_pid src port udp s)"
  "same_ports s (report_connection os alloc pid target key dport action s)"
  by (simp_all add: same_ports_def add_connection_def add_connection_v6_def remove_connection_def connection_fin_def
    udp_flow_stamp_def udp_direct_remember_def get_connection_def get_connection_full_v6_def udp_flow_validate_def
    touch_conn_def remove_cached_pid_def report_connection_def add_logged_connection_def trim_logged_def Let_def frame_simps
    split: option.split)

text \<open>The DNS caches.\<close>

definition same_dns :: "pb \<Rightarrow> pb \<Rightarrow> bool" where
  "same_dns s s' \<longleftrightarrow> g_dns_cache s' = g_dns_cache s \<and> g_dns_cache_v6 s' = g_dns_cache_v6 s"

lemma same_dns_refl [frame_simps]: "same_dns s s"
  by (simp add: same_dns_def)

lemma rev_dns [frame_simps]:
  "g_dns_cache (rev_insert a s) = g_dns_cache s" "g_dns_cache_v6 (rev_insert a s) = g_dns_cache_v6 s"
  "g_dns_cache (rev_unlink a s) = g_dns_cache s" "g_dns_cache_v6 (rev_unlink a s) = g_dns_cache_v6 s"
  "g_dns_cache (write_conn a f s) = g_dns_cache s" "g_dns_cache_v6 (write_conn a f s) = g_dns_cache_v6 s"
  "g_dns_cache (drop_connection b a s) = g_dns_cache s" "g_dns_cache_v6 (drop_connection b a s) = g_dns_cache_v6 s"
  by (simp_all add: rev_insert_def rev_unlink_def write_conn_def drop_connection_def Let_def)

lemma same_dns_ops [frame_simps]:
  "same_dns s (add_connection fresh port udp src dst dport pid now s)"
  "same_dns s (add_connection_v6 fresh port udp src6 dst6 dport pid now s)"
  "same_dns s (remove_connection port udp v6 s)"
  "same_dns s (connection_fin port v6 bits now s)"
  "same_dns s (udp_flow_stamp port v6 gen s)"
  "same_dns s (udp_direct_remember v6 source port dest dport gen now s)"
  "same_dns s (snd (get_connection port udp now s))"
  "same_dns s (snd (get_connection_full_v6 port udp now s))"
  "same_dns s (snd (udp_flow_validate port v6 src src6 dst dst6 dport now s))"
  "same_dns s (remove_cached_pid src port udp s)"
  "same_dns s (report_connection os alloc pid target key dport action s)"
  "same_dns s (port_set_direct port s)" "same_dns s (port_set_decided port s)" "same_dns s (port_clear port s)"
  by (simp_all add: same_dns_def add_connection_def add_connection_v6_def remove_connection_def connection_fin_def
    udp_flow_stamp_def udp_direct_remember_def get_connection_def get_connection_full_v6_def udp_flow_validate_def
    touch_conn_def remove_cached_pid_def report_connection_def add_logged_connection_def trim_logged_def Let_def frame_simps
    port_set_direct_def port_set_decided_def port_clear_def split: option.split)

definition same_flows :: "pb \<Rightarrow> pb \<Rightarrow> bool" where
  "same_flows s s' \<longleftrightarrow> conn_heap s' = conn_heap s \<and> connection_hash_table s' = connection_hash_table s \<and>
     connection_rev_table s' = connection_rev_table s"

lemma same_flows_ops [frame_simps]:
  "same_flows s (port_set_direct p s)" "same_flows s (port_set_decided p s)" "same_flows s (port_clear p s)"
  "same_flows s (remove_cached_pid src port udp s)"
  "same_flows s (report_connection os alloc pid target key dport action s)"
  "same_flows s (udp_direct_remember v6 source port dest dport gen now s)"
  by (simp_all add: same_flows_def port_set_direct_def port_set_decided_def port_clear_def remove_cached_pid_def
    report_connection_def add_logged_connection_def trim_logged_def udp_direct_remember_def Let_def split: option.split)

lemma relay_port_ops [frame_simps]:
  "g_local_relay_port (port_set_direct p s) = g_local_relay_port s"
  "g_local_relay_port (port_set_decided p s) = g_local_relay_port s"
  "g_local_relay_port (port_clear p s) = g_local_relay_port s"
  by (simp_all add: port_set_direct_def port_set_decided_def port_clear_def)

lemma same_flowsD:
  assumes "same_flows s s'"
  shows "conn_inv s' = conn_inv s" "connection_of s' k = connection_of s k" "find_conn s' a b c = find_conn s a b c"
    "usable s' f = usable s f" "is_connection_tracked s' a b c = is_connection_tracked s a b c"
  using assms
  by (simp_all add: same_flows_def conn_inv_def connection_of_def find_conn_def conn_at_def usable_def is_connection_tracked_def
    cong: option.case_cong)

lemma same_portsD:
  assumes "same_ports s s'"
  shows "ports_inv s' = ports_inv s" "port_state s' p = port_state s p" "port_is_decided s' p = port_is_decided s p"
    "port_is_direct s' p = port_is_direct s p" "g_local_relay_port s' = g_local_relay_port s"
  using assms by (simp_all add: same_ports_def ports_inv_def port_state_def port_is_decided_def port_is_direct_def)


section \<open>The invariant of the packet path\<close>

text \<open>The flow tables are consistent, a direct bit implies a decided bit, the DNS caches keep their shape, and
  the port of the TCP relay itself is never decided.\<close>

definition pkt_inv :: "pb \<Rightarrow> bool" where
  "pkt_inv s \<longleftrightarrow> conn_inv s \<and> ports_inv s \<and> dns_inv s \<and> \<not> port_is_decided s (g_local_relay_port s)"

lemma pkt_inv_flow_op:
  "pkt_inv s \<Longrightarrow> conn_step s s' \<Longrightarrow> same_ports s s' \<Longrightarrow> same_dns s s' \<Longrightarrow> pkt_inv s'"
  by (auto simp: pkt_inv_def same_portsD same_dns_def dns_inv_def dest: conn_step_inv)

lemma pkt_inv_other_op:
  "pkt_inv s \<Longrightarrow> same_flows s s' \<Longrightarrow> same_ports s s' \<Longrightarrow> same_dns s s' \<Longrightarrow> pkt_inv s'"
  by (auto simp: pkt_inv_def same_portsD same_flowsD same_dns_def dns_inv_def)

lemma pkt_inv_port_op:
  assumes "pkt_inv s"
  shows "p \<noteq> g_local_relay_port s \<Longrightarrow> pkt_inv (port_set_direct p s)"
    "p \<noteq> g_local_relay_port s \<Longrightarrow> pkt_inv (port_set_decided p s)" "pkt_inv (port_clear p s)"
proof -
  have f: "same_flows s s' \<Longrightarrow> same_dns s s' \<Longrightarrow> conn_inv s' \<and> dns_inv s'" for s'
    using assms by (simp add: pkt_inv_def same_flowsD same_dns_def dns_inv_def)
  have i: "ports_inv s" and r: "\<not> port_is_decided s (g_local_relay_port s)" using assms by (simp_all add: pkt_inv_def)
  show "p \<noteq> g_local_relay_port s \<Longrightarrow> pkt_inv (port_set_direct p s)"
    using f [of "port_set_direct p s"] ports.inv_set_direct [OF i] r by (simp add: pkt_inv_def frame_simps)
  show "p \<noteq> g_local_relay_port s \<Longrightarrow> pkt_inv (port_set_decided p s)"
    using f [of "port_set_decided p s"] ports.inv_set_decided [OF i] r by (simp add: pkt_inv_def frame_simps)
  show "pkt_inv (port_clear p s)"
    using f [of "port_clear p s"] ports.inv_clear [OF i] r by (simp add: pkt_inv_def frame_simps)
qed

lemma pkt_inv_ops:
  assumes "pkt_inv s"
  shows "fresh = None \<or> usable s fresh \<Longrightarrow> pkt_inv (add_connection fresh port udp src dst dport cid now s)"
    "fresh = None \<or> usable s fresh \<Longrightarrow> pkt_inv (add_connection_v6 fresh port udp src6 dst6 dport cid now s)"
    "pkt_inv (remove_connection port udp v6 s)" "pkt_inv (connection_fin port v6 bits now s)"
    "pkt_inv (udp_flow_stamp port v6 gen s)" "pkt_inv (snd (get_connection port udp now s))"
    "pkt_inv (snd (get_connection_full_v6 port udp now s))"
    "pkt_inv (snd (udp_flow_validate port v6 src src6 dst dst6 dport now s))"
  using assms by (blast intro: pkt_inv_flow_op conn_step.intros frame_simps)+

lemma pkt_inv_quiet_ops:
  assumes "pkt_inv s"
  shows "pkt_inv (remove_cached_pid src port udp s)" "pkt_inv (udp_direct_remember v6 source port dest dport gen now s)"
    "pkt_inv (report_connection os alloc pid target key dport action s)"
  using assms by (blast intro: pkt_inv_other_op frame_simps)+

lemma pkt_inv_reset: "pkt_inv s \<Longrightarrow> pkt_inv (reset_stale_tcp_state port v6 s)"
  by (simp add: reset_stale_tcp_state_def pkt_inv_port_op pkt_inv_ops)

section \<open>Verdicts keep the invariant\<close>

text \<open>Looking an owner up only touches the PID cache and the scratch buffer.\<close>

definition same_core :: "pb \<Rightarrow> pb \<Rightarrow> bool" where
  "same_core s s' \<longleftrightarrow> same_flows s s' \<and> same_ports s s' \<and> same_dns s s'"

lemma same_core_refl [simp]: "same_core s s"
  by (simp add: same_core_def same_flows_def same_ports_def same_dns_def)

lemma same_core_trans: "same_core s s1 \<Longrightarrow> same_core s1 s2 \<Longrightarrow> same_core s s2"
  by (simp add: same_core_def same_flows_def same_ports_def same_dns_def)

lemma same_core_upd [simp]:
  "same_core s (s'\<lparr>pid_cache := x\<rparr>) = same_core s s'" "same_core s (s'\<lparr>g_pidtbl_cap := c\<rparr>) = same_core s s'"
  by (simp_all add: same_core_def same_flows_def same_ports_def same_dns_def)

lemma pidtbl_reserve_core: "pidtbl_reserve realloc need s = (ok, s') \<Longrightarrow> same_core s s'"
  by (auto simp: pidtbl_reserve_def split: if_splits option.splits)

lemma fetch_attempts_core: "fetch_attempts call realloc n i sz s = (r, s') \<Longrightarrow> same_core s s'"
  by (induction call realloc n i sz s rule: fetch_attempts.induct)
    (auto simp: Let_def split: if_splits prod.splits bool.splits table_rc.splits
      intro: same_core_trans dest!: pidtbl_reserve_core)

lemma owner_table_fetch_core: "owner_table_fetch call realloc s = (r, s') \<Longrightarrow> same_core s s'"
  by (auto simp: owner_table_fetch_def split: if_splits table_rc.splits dest: fetch_attempts_core)

lemma process_id_core:
  "get_process_id_from_connection ow src port now s = (pid, s') \<Longrightarrow> same_core s s'"
  "get_process_id_from_udp_connection ow src port now s = (pid, s') \<Longrightarrow> same_core s s'"
  "get_process_id_from_connection_v6 ow src6 port s = (pid, s') \<Longrightarrow> same_core s s'"
  "get_process_id_from_udp_connection_v6 ow src6 port s = (pid, s') \<Longrightarrow> same_core s s'"
  by (auto simp: get_process_id_from_connection_def get_process_id_from_udp_connection_def
      get_process_id_from_connection_v6_def get_process_id_from_udp_connection_v6_def cache_pid_def Let_def
    split: if_splits option.splits prod.splits dest!: owner_table_fetch_core)

lemma pkt_inv_core: "pkt_inv s \<Longrightarrow> same_core s s' \<Longrightarrow> pkt_inv s'"
  by (auto simp: same_core_def intro: pkt_inv_other_op)

text \<open>\<open>kept s s'\<close>: a step from \<open>s\<close> kept the invariant and the relay port, and made no port direct.\<close>

definition kept :: "pb \<Rightarrow> pb \<Rightarrow> bool" where
  "kept s s' \<longleftrightarrow> pkt_inv s' \<and> g_local_relay_port s' = g_local_relay_port s \<and>
     (\<forall>p. port_is_direct s' p \<longrightarrow> port_is_direct s p)"

text \<open>Other threads and the allocator behave: what happens while a packet waits for its owner keeps the
  invariant and sets no port bit, and the allocator returns memory that is not in use.\<close>

definition good_env :: "pkt_env \<Rightarrow> bool" where
  "good_env env \<longleftrightarrow> (\<forall>r \<in> set (en_rounds env). \<forall>s. pkt_inv s \<longrightarrow> kept s (rd_events r s)) \<and>
     (\<forall>s. en_calloc env s = None \<or> usable s (en_calloc env s))"

lemma good_env_calloc: "good_env env \<Longrightarrow> en_calloc env s = None \<or> usable s (en_calloc env s)"
  by (simp add: good_env_def)

lemma kept_trans: "kept s s1 \<Longrightarrow> kept s1 s2 \<Longrightarrow> kept s s2"
  by (simp add: kept_def)

lemma kept_core: "pkt_inv s \<Longrightarrow> same_core s s' \<Longrightarrow> kept s s'"
  by (auto simp: kept_def same_core_def same_portsD intro: pkt_inv_other_op)

lemma resolve_owner_loop_kept:
  assumes "\<And>r s. pkt_inv s \<Longrightarrow> kept s (snd (lookup r s))"
    and "\<forall>r \<in> set rounds. \<forall>s. pkt_inv s \<longrightarrow> kept s (rd_events r s)"
    and "pkt_inv s" and "resolve_owner_loop lookup deadline rounds s = Some (pid, s')"
  shows "kept s s'"
  using assms(2-4)
proof (induction rounds arbitrary: s)
  case (Cons r rs)
  obtain pid1 s1 where l: "lookup r (rd_events r s) = (pid1, s1)" by force
  have e: "kept s (rd_events r s)" using Cons.prems by simp
  then have "kept (rd_events r s) s1" using assms(1) [of "rd_events r s" r] l by (simp add: kept_def)
  with e have k: "kept s s1" by (rule kept_trans)
  have "kept s s'" if "resolve_owner_loop lookup deadline rs s1 = Some (pid, s')"
  proof -
    have "pkt_inv s1" using k unfolding kept_def by blast
    moreover have "\<forall>r \<in> set rs. \<forall>s. pkt_inv s \<longrightarrow> kept s (rd_events r s)" using Cons.prems(1) by simp
    ultimately show ?thesis using kept_trans [OF k] Cons.IH [OF _ _ that] by blast
  qed
  with k l Cons.prems(3) show ?case by (auto split: if_splits)
qed simp

lemma resolve_owner_kept:
  assumes "good_env env" and "pkt_inv s"
  shows "resolve_process_owner_v4 start (en_rounds env) src sport dst dport udp s = Some (pid, s') \<Longrightarrow> kept s s'"
    "resolve_process_owner_v6 start (en_rounds env) src6 sport dst6 dport udp s = Some (pid, s') \<Longrightarrow> kept s s'"
proof -
  have lookup: "kept x (snd (f x))" if "pkt_inv x" "\<And>p y. f x = (p, y) \<Longrightarrow> same_core x y" for f :: "pb \<Rightarrow> u32 \<times> pb" and x
    using that kept_core by (cases "f x") auto
  have ev: "\<forall>r \<in> set (en_rounds env). \<forall>s. pkt_inv s \<longrightarrow> kept s (rd_events r s)"
    using assms(1) by (simp add: good_env_def)
  note loop = resolve_owner_loop_kept [OF _ ev assms(2)]
  show "resolve_process_owner_v4 start (en_rounds env) src sport dst dport udp s = Some (pid, s') \<Longrightarrow> kept s s'"
    unfolding resolve_process_owner_v4_def
    by (erule loop [rotated]) (auto simp: Let_def intro!: lookup kept_core [OF _ same_core_refl] intro: process_id_core split: if_split)
  show "resolve_process_owner_v6 start (en_rounds env) src6 sport dst6 dport udp s = Some (pid, s') \<Longrightarrow> kept s s'"
    unfolding resolve_process_owner_v6_def
    by (erule loop [rotated]) (auto simp: Let_def intro!: lookup kept_core [OF _ same_core_refl] intro: process_id_core split: if_split)
qed

lemma decide_keeps: "snd (snd (snd (decide_for_owner os search udp pid s))) = s"
  by (auto simp: decide_for_owner_def Let_def split: option.split prod.split)

lemma verdict_kept:
  assumes "good_env env" and "pkt_inv s"
  shows "check_process_rule os start (en_rounds env) now src sport dst dport udp s = Some (action, pid, cid, s') \<Longrightarrow> kept s s'"
    "check_process_rule_v6 os start (en_rounds env) now src6 sport dst6 dport udp s = Some (action, pid, cid, s') \<Longrightarrow> kept s s'"
  using assms resolve_owner_kept [OF assms] decide_keeps
  by (auto simp: check_process_rule_def check_process_rule_v6_def kept_def split: if_splits option.splits)
    (metis snd_conv)+

section \<open>Every packet keeps the invariant\<close>

lemmas kept_ops = pkt_inv_ops pkt_inv_quiet_ops pkt_inv_port_op pkt_inv_reset

text \<open>Some round of the owner lookup reads a tick at or past the deadline.\<close>

definition deadline_reached :: "pkt_env \<Rightarrow> bool" where
  "deadline_reached env \<longleftrightarrow> (\<exists>r \<in> set (en_rounds env). en_start env + OWNER_LOOKUP_TIMEOUT_MS \<le> rd_check r)"

text \<open>A handler ends without a fault, in a state that satisfies \<open>P\<close>; it may only wait while no round reaches
  the deadline.\<close>

definition out_ok :: "pkt_env \<Rightarrow> (pb \<Rightarrow> bool) \<Rightarrow> 'p outcome \<Rightarrow> bool" where
  "out_ok env P out \<longleftrightarrow> (case out of Waiting \<Rightarrow> \<not> deadline_reached env | Faulted _ \<Rightarrow> False | Done _ s \<Rightarrow> P s)"

lemma out_ok_simps [simp]:
  "out_ok env P Waiting = (\<not> deadline_reached env)" "\<not> out_ok env P (Faulted f)" "out_ok env P (Done d s) = P s"
  by (simp_all add: out_ok_def)

lemma out_ok_verdict:
  assumes "good_env env" and "pkt_inv s"
    and "\<And>action pid cid s1. kept s s1 \<Longrightarrow> out_ok env P (k action pid cid s1)"
  shows "out_ok env P (with_verdict (check_process_rule os (en_start env) (en_rounds env) now src sport dst dport udp s) k)"
    "out_ok env P (with_verdict (check_process_rule_v6 os (en_start env) (en_rounds env) now src6 sport dst6 dport udp s) k)"
proof -
  have n: "check_process_rule os (en_start env) (en_rounds env) now src sport dst dport udp s \<noteq> None"
    "check_process_rule_v6 os (en_start env) (en_rounds env) now src6 sport dst6 dport udp s \<noteq> None"
    if "deadline_reached env"
    using verdict_answers that unfolding deadline_reached_def by blast+
  show "out_ok env P (with_verdict (check_process_rule os (en_start env) (en_rounds env) now src sport dst dport udp s) k)"
    using assms(3) verdict_kept(1) [OF assms(1,2)] n(1) by (auto simp: with_verdict_def split: option.split)
  show "out_ok env P (with_verdict (check_process_rule_v6 os (en_start env) (en_rounds env) now src6 sport dst6 dport udp s) k)"
    using assms(3) verdict_kept(2) [OF assms(1,2)] n(2) by (auto simp: with_verdict_def split: option.split)
qed

lemma relay_port_reports [frame_simps]:
  "g_local_relay_port (report_connection os alloc pid target key dport action s) = g_local_relay_port s"
  "g_local_relay_port (add_connection fresh port udp src dst dport cid now s) = g_local_relay_port s"
  "g_local_relay_port (add_connection_v6 fresh port udp src6 dst6 dport cid now s) = g_local_relay_port s"
  "g_local_relay_port (remove_connection port udp v6 s) = g_local_relay_port s"
  "g_local_relay_port (remove_cached_pid src port udp s) = g_local_relay_port s"
  using same_ports_flow_ops [unfolded same_ports_def] by simp_all

lemma tcp_v4_new_inv:
  assumes "good_env env" and "pkt_inv s" and "pk_sport p \<noteq> g_local_relay_port s"
  shows "out_ok env pkt_inv (tcp_v4_new env p s)"
  unfolding tcp_v4_new_def
  by (auto intro!: out_ok_verdict assms(1,2) split: RuleAction.splits
      simp: assms kept_def Let_def kept_ops good_env_calloc [OF assms(1)] frame_simps)

lemma tcp_v6_new_inv:
  assumes "good_env env" and "pkt_inv s" and "pk_sport p \<noteq> g_local_relay_port s"
  shows "out_ok env pkt_inv (tcp_v6_new env p s)"
  unfolding tcp_v6_new_def
  by (auto intro!: out_ok_verdict assms(1,2) split: RuleAction.splits
      simp: assms kept_def Let_def kept_ops good_env_calloc [OF assms(1)] frame_simps)

lemma udp_v4_new_inv:
  assumes "good_env env" and "pkt_inv s"
  shows "out_ok env pkt_inv (udp_v4_new env gen p s)"
  unfolding udp_v4_new_def
  by (auto intro!: out_ok_verdict assms(1,2)
      simp: assms kept_def Let_def kept_ops good_env_calloc [OF assms(1)])

lemma udp_v6_new_inv:
  assumes "good_env env" and "pkt_inv s"
  shows "out_ok env pkt_inv (udp_v6_new env gen p s)"
  unfolding udp_v6_new_def
  by (auto intro!: out_ok_verdict assms(1,2) split: option.splits
      simp: assms kept_def Let_def kept_ops good_env_calloc [OF assms(1)])

lemma dns_store_core:
  "same_flows s (dns_cache_store a ip d now s) \<and> same_ports s (dns_cache_store a ip d now s)"
  "same_flows s (dns_cache_store_v6 a ip6 d now s) \<and> same_ports s (dns_cache_store_v6 a ip6 d now s)"
  by (simp_all add: dns_cache_store_def dns_cache_store_v6_def same_flows_def same_ports_def split: option.split)

lemma same_flows_ports_trans:
  "same_flows s s1 \<and> same_ports s s1 \<Longrightarrow> same_flows s1 s2 \<and> same_ports s1 s2 \<Longrightarrow> same_flows s s2 \<and> same_ports s s2"
  by (simp add: same_flows_def same_ports_def)

lemma scan_answers_core:
  "scan_answers alloc payload qname now n i off s = Inr s' \<Longrightarrow> same_flows s s' \<and> same_ports s s'"
proof (induction n arbitrary: i off s)
  case 0
  then show ?case by (simp add: same_flows_def same_ports_def)
next
  case (Suc n)
  have refl: "same_flows s s \<and> same_ports s s" by (simp add: same_flows_def same_ports_def)
  have "\<exists>s1 i' off'. (same_flows s s1 \<and> same_ports s s1) \<and> (s' = s1 \<or> scan_answers alloc payload qname now n i' off' s1 = Inr s')"
    using Suc.prems refl dns_store_core by (simp split: if_splits sum.splits option.splits prod.splits) blast+
  then show ?case using Suc.IH same_flows_ports_trans by blast
qed

lemma snoop_core:
  "snoop_dns_response alloc payload now s = Inr s' \<Longrightarrow> same_flows s s' \<and> same_ports s s'"
  by (auto simp: snoop_dns_response_def same_flows_def same_ports_def
    split: if_splits sum.splits option.splits dest!: scan_answers_core)

lemma snoop_kept:
  assumes "pkt_inv s"
  shows "\<exists>s'. snoop_dns_response alloc payload now s = Inr s' \<and> pkt_inv s'"
proof -
  obtain s' where s': "snoop_dns_response alloc payload now s = Inr s'" "dns_inv s'"
    using snoop_dns_response_ok [of s alloc payload now] assms by (auto simp: pkt_inv_def)
  then show ?thesis
    using snoop_core [OF s'(1)] assms by (auto simp: pkt_inv_def same_flowsD same_portsD)
qed

lemma udp_in_inv:
  assumes "pkt_inv s"
  shows "out_ok env pkt_inv (udp_v4_in env p s)" "out_ok env pkt_inv (udp_v6_in env q s)"
  using assms snoop_kept [OF assms, of "en_dns_alloc env" "pk_payload p" "en_now env"]
    snoop_kept [OF assms, of "en_dns_alloc env" "pk_payload q" "en_now env"]
  by (auto simp: udp_v4_in_def udp_v6_in_def)

lemma relay_reply_inv:
  assumes "pkt_inv s"
  shows "out_ok env pkt_inv (udp_v4_relay_reply now p s)" "out_ok env pkt_inv (udp_v6_relay_reply now q s)"
    "out_ok env pkt_inv (tcp_v4_relay_reply now p s)" "out_ok env pkt_inv (tcp_v6_relay_reply now q s)"
  using assms kept_ops(6) [OF assms] kept_ops(7) [OF assms]
  by (auto simp: udp_v4_relay_reply_def udp_v6_relay_reply_def tcp_v4_relay_reply_def tcp_v6_relay_reply_def Let_def
      kept_ops split: prod.split option.split) (metis kept_ops snd_conv)+

lemma handle_udp_inv:
  assumes "good_env env" and "pkt_inv s"
  shows "out_ok env pkt_inv (handle_udp_v4 env p s)" "out_ok env pkt_inv (handle_udp_v6 env q s)"
proof -
  have v: "pkt_inv s1" if "udp_flow_validate port v6 src src6 dst dst6 dport now s = (ok, s1)"
    for port v6 src src6 dst dst6 dport now ok s1
    using kept_ops(8) [OF assms(2), of port v6 src src6 dst dst6 dport now] that by simp
  show "out_ok env pkt_inv (handle_udp_v4 env p s)" "out_ok env pkt_inv (handle_udp_v6 env q s)"
    using assms by (auto simp: handle_udp_v4_def handle_udp_v6_def udp_in_inv relay_reply_inv udp_v4_new_inv udp_v6_new_inv
      v split: prod.split)
qed

lemma tcp_tracked_inv:
  assumes "pkt_inv s"
  shows "out_ok env pkt_inv (tcp_v4_tracked now p s)" "out_ok env pkt_inv (tcp_v6_tracked now q s)"
  using assms by (simp_all add: tcp_v4_tracked_def tcp_v6_tracked_def Let_def kept_ops)

lemma reset_kept: "pkt_inv s \<Longrightarrow> kept s (reset_stale_tcp_state sp v6 s)"
  by (auto simp: kept_def kept_ops reset_stale_tcp_state_def frame_simps same_portsD [OF same_ports_flow_ops(3)])

lemma admit_kept:
  assumes "pkt_inv s"
  shows "kept s (snd (tcp_v4_admit p s))" "kept s (snd (tcp_v6_admit q s))"
proof -
  have c: "kept s (snd (if port_is_decided x sp then consume_direct_decision sp t x else (False, x)))"
    if "kept s x" for x sp t
    using that by (simp add: kept_def consume_direct_decision_def kept_ops frame_simps)
  have r: "kept s (reset_stale_tcp_state sp False (remove_cached_pid ip sp False s))" for sp ip
    using reset_kept [OF pkt_inv_quiet_ops(1) [OF assms]]
    by (simp add: kept_def frame_simps same_portsD [OF same_ports_flow_ops(10)])
  show "kept s (snd (tcp_v4_admit p s))" unfolding tcp_v4_admit_def Let_def
    by (rule c) (use r assms in \<open>simp add: kept_def\<close>)
  show "kept s (snd (tcp_v6_admit q s))" unfolding tcp_v6_admit_def Let_def
    by (rule c) (use reset_kept [OF assms] assms in \<open>simp add: kept_def\<close>)
qed

lemma handle_tcp_inv:
  assumes "good_env env" and "pkt_inv s"
  shows "out_ok env pkt_inv (handle_tcp_v4 env p s)" "out_ok env pkt_inv (handle_tcp_v6 env q s)"
proof -
  obtain d4 s4 d6 s6 where a: "tcp_v4_admit p s = (d4, s4)" "tcp_v6_admit q s = (d6, s6)" by force
  then have k: "pkt_inv s4" "pkt_inv s6" using admit_kept(1) [OF assms(2), of p] admit_kept(2) [OF assms(2), of q] by (simp_all add: kept_def)
  show "out_ok env pkt_inv (handle_tcp_v4 env p s)" "out_ok env pkt_inv (handle_tcp_v6 env q s)"
    using assms k
    by (auto simp: handle_tcp_v4_def handle_tcp_v6_def a relay_reply_inv tcp_tracked_inv tcp_v4_new_inv tcp_v6_new_inv)
qed

lemma handle_packet_inv:
  assumes "good_env env" and "pkt_inv s"
  shows "out_ok env pkt_inv (handle_packet env x s)"
proof -
  have l: "out_ok env pkt_inv (lift_fate w out)" if "out_ok env pkt_inv out" for w :: "'p \<Rightarrow> any_packet" and out
    using that by (cases out) (simp_all add: lift_fate_def)
  show ?thesis
    using assms by (cases x) (simp_all add: handle_packet_def l handle_udp_inv handle_tcp_inv)
qed

end
