(* ===== verification/PB_Translate.thy ===== *)
theory PB_Translate
  imports PB_Packet
begin

text \<open>
  What the packet processor does to whole connections: answers of the relays reach the application as answers of
  the destination, a fresh connection is judged by the rules in force, a decided direct one skips them, and a
  change of policy sends every UDP flow through them again.
\<close>

section \<open>Batches\<close>

lemma handle_packet_done:
  assumes "good_env env" and "deadline_reached env" and "pkt_inv s"
  obtains d s' where "handle_packet env x s = Done d s'" and "pkt_inv s'"
  using handle_packet_inv [OF assms(1,3), of x] assms(2) that by (cases "handle_packet env x s") auto

text \<open>Packets processed one at a time, each sent as soon as it is classified.\<close>

definition forwarded :: "any_packet fate \<Rightarrow> any_packet list" where
  "forwarded d = (case d of Dropped \<Rightarrow> [] | Sent p \<Rightarrow> [p] | Resent p \<Rightarrow> [p])"

fun one_by_one :: "(pkt_env \<times> nat \<times> parsed) list \<Rightarrow> pb \<Rightarrow> any_packet list \<times> pb" where
  "one_by_one [] s = ([], s)"
| "one_by_one ((env, _, x) # rest) s =
     (case handle_packet env x s of
        Done d s1 \<Rightarrow> (case one_by_one rest s1 of (out, s2) \<Rightarrow> (forwarded d @ out, s2))
      | _ \<Rightarrow> ([], s))"

lemma queue_room:
  assumes "length (sb_packets b) < PACKET_BATCH_SIZE" and "sb_length b + n \<le> sb_capacity b"
  shows "queue_packet_for_send x n b = (True, b\<lparr>sb_packets := sb_packets b @ [x], sb_length := sb_length b + n\<rparr>)"
  using assms by (simp add: queue_packet_for_send_def)

text \<open>Batching changes nothing: for packets that fit the receive buffer, the batch holds exactly what processing and
  sending them one by one would send, in the same order; no packet is lost for lack of room, nothing faults, the
  loop ends, and the state is the same and satisfies the invariant.\<close>

lemma process_batch_exact:
  assumes "\<forall>(env, n, x) \<in> set xs. good_env env \<and> deadline_reached env" and "pkt_inv s"
    and "length (sb_packets b) + length xs \<le> PACKET_BATCH_SIZE"
    and "sb_length b + sum_list (map (\<lambda>(_, n, _). n) xs) \<le> sb_capacity b"
  shows "\<exists>b'. process_batch xs b s = Some (Inr (True, b', snd (one_by_one xs s))) \<and>
     sb_packets b' = sb_packets b @ fst (one_by_one xs s) \<and> pkt_inv (snd (one_by_one xs s))"
  using assms
proof (induction xs arbitrary: b s)
  case Nil
  then show ?case by simp
next
  case (Cons e xs)
  obtain env n x where e: "e = (env, n, x)" by (cases e)
  have g: "good_env env" "deadline_reached env" using Cons.prems(1) e by auto
  obtain d s1 where h: "handle_packet env x s = Done d s1" and i: "pkt_inv s1"
    using handle_packet_done [OF g Cons.prems(2)] .
  obtain out s2 where o: "one_by_one xs s1 = (out, s2)" by force
  note IH = Cons.IH [OF _ i, unfolded o fst_conv snd_conv]
  show ?case
  proof (cases "forwarded d")
    case Nil
    then have "d = Dropped" by (cases d) (simp_all add: forwarded_def)
    then show ?thesis using IH [of b] Cons.prems h o e by (simp add: forwarded_def)
  next
    case (Cons p ps)
    then have d: "d = Sent p \<or> d = Resent p" "ps = []" by (cases d; simp add: forwarded_def)+
    let ?b = "b\<lparr>sb_packets := sb_packets b @ [p], sb_length := sb_length b + n\<rparr>"
    have q: "queue_packet_for_send p n b = (True, ?b)"
      using queue_room [of b n p] Cons.prems(3,4) e by simp
    have "\<exists>b'. process_batch xs ?b s1 = Some (Inr (True, b', s2)) \<and> sb_packets b' = sb_packets ?b @ out \<and> pkt_inv s2"
      using IH [of ?b] Cons.prems e by simp
    then obtain b' where "process_batch xs ?b s1 = Some (Inr (True, b', s2))" "sb_packets b' = sb_packets b @ p # out"
        "pkt_inv s2" by auto
    then show ?thesis using d h o e q by (auto simp: forwarded_def)
  qed
qed

section \<open>Translation between applications and relays\<close>

text \<open>A packet \<open>q\<close> that goes back where \<open>p\<close> came from.\<close>

definition answers :: "'a packet \<Rightarrow> 'a packet \<Rightarrow> bool" where
  "answers q p \<longleftrightarrow> pk_src q = pk_dst p \<and> pk_dst q = pk_src p \<and> pk_sport q = pk_dport p \<and> pk_dport q = pk_sport p"

text \<open>Both TCP paths rewrite addresses alike: a pair of local addresses stays, any other pair is exchanged
  and injected inbound.\<close>

locale tcp_family =
  fixes local_pair :: "'a \<Rightarrow> 'a \<Rightarrow> bool"
    and swap :: "'a packet \<Rightarrow> 'a packet"
  assumes local_sym: "local_pair a b = local_pair b a"
    and swap_eq: "swap p = (if local_pair (pk_src p) (pk_dst p) then p else swap_inbound p)"
begin

text \<open>What the relay answers to a redirected packet becomes, with the original port put back, an answer to the
  packet the application sent.\<close>

lemma answer_translated:
  assumes "answers q (swap (p\<lparr>pk_dport := relay\<rparr>))"
  shows "answers (swap (q\<lparr>pk_sport := pk_dport p\<rparr>)) p"
    and "pk_outbound (swap (q\<lparr>pk_sport := pk_dport p\<rparr>)) = (local_pair (pk_src p) (pk_dst p) \<and> pk_outbound q)"
  using assms local_sym [of "pk_src p" "pk_dst p"]
  by (auto simp: answers_def swap_eq swap_inbound_def split: if_splits)

lemma answer_source: "answers q (swap (p\<lparr>pk_dport := relay\<rparr>)) \<Longrightarrow> pk_sport q = relay \<and> pk_dport q = pk_sport p"
  by (simp add: answers_def swap_eq swap_inbound_def split: if_splits)

end

interpretation fam4: tcp_family "\<lambda>a b. first_octet a = 127 \<and> first_octet b = 127" tcp_v4_swap
  by unfold_locales (auto simp: tcp_v4_swap_def)

interpretation fam6: tcp_family "\<lambda>a b. a = loopback6 \<and> b = loopback6" tcp_v6_swap
  by unfold_locales (auto simp: tcp_v6_swap_def)

lemma find_conn_of:
  "conn_inv s \<Longrightarrow> connection_of s (port, udp, v6) = Some c \<Longrightarrow>
   \<exists>a. find_conn s port udp v6 = Some a \<and> conn_at s a = c"
  using find_conn_None [of s port udp v6] find_conn_Some [of s port udp v6]
  by (cases "find_conn s port udp v6") (fastforce simp: conn_at_def)+

lemma same_flows_refl [simp]: "same_flows s s" and same_ports_refl [simp]: "same_ports s s"
  by (simp_all add: same_flows_def same_ports_def)

lemma admit_relay_v4:
  assumes "pkt_inv s" and "pk_sport p = g_local_relay_port s"
  obtains s1 where "tcp_v4_admit p s = (False, s1)" and "same_flows s s1" and "same_ports s s1"
proof -
  let ?s = "remove_cached_pid (pk_src p) (pk_sport p) False s"
  have f: "same_flows s ?s" "same_ports s ?s" by (simp_all add: frame_simps)
  have "tcp_v4_admit p s = (False, if pk_syn p \<and> \<not> pk_ack p then ?s else s)"
    using assms same_portsD [OF f(2)]
    by (simp add: pkt_inv_def tcp_v4_admit_def reset_stale_tcp_state_def Let_def frame_simps)
  then show ?thesis using f that by (cases "pk_syn p \<and> \<not> pk_ack p") simp_all
qed

lemma admit_relay_v6:
  "pkt_inv s \<Longrightarrow> pk_sport p = g_local_relay_port s \<Longrightarrow> tcp_v6_admit p s = (False, s)"
  by (simp add: pkt_inv_def tcp_v6_admit_def reset_stale_tcp_state_def Let_def)

lemma swap_payload [simp]:
  "pk_payload (tcp_v4_swap p) = pk_payload p" "pk_payload (tcp_v6_swap q) = pk_payload q"
  by (simp_all add: tcp_v4_swap_def tcp_v6_swap_def swap_inbound_def)

lemma tcp_v4_answer:
  assumes "pkt_inv s" and c: "connection_of s (pk_sport p, False, False) = Some c" "c_orig_dest_port c = pk_dport p"
    and "pk_outbound q" and q: "answers q (tcp_v4_redirect s p)"
  shows "\<exists>s'. handle_tcp_v4 env q s = Done (Resent (tcp_v4_swap (q\<lparr>pk_sport := pk_dport p\<rparr>))) s'"
proof -
  note ports = fam4.answer_source [OF q [unfolded tcp_v4_redirect_def]]
  obtain s1 where s1: "tcp_v4_admit q s = (False, s1)" "same_flows s s1" "same_ports s s1"
    using admit_relay_v4 [OF assms(1)] ports by blast
  have "conn_inv s1" "connection_of s1 (pk_sport p, False, False) = Some c"
    using assms(1) c same_flowsD [OF s1(2)] by (simp_all add: pkt_inv_def)
  then obtain a where "find_conn s1 (pk_sport p) False False = Some a" "conn_at s1 a = c"
    using find_conn_of by blast
  then have "fst (get_connection (pk_sport p) False (en_now env) s1) = Some (c_orig_dest_ip c, pk_dport p)"
    using c(2) by (simp add: get_connection_def)
  then show ?thesis
    using s1(1) same_portsD(5) [OF s1(3)] assms(4) ports
    by (auto simp: handle_tcp_v4_def tcp_v4_relay_reply_def Let_def split: prod.split)
qed

lemma tcp_v6_answer:
  assumes "pkt_inv s" and c: "connection_of s (pk_sport p, False, True) = Some c" "c_orig_dest_port c = pk_dport p"
    and "pk_dport p \<noteq> 0" and "pk_outbound q" and q: "answers q (tcp_v6_redirect s p)"
  shows "\<exists>s'. handle_tcp_v6 env q s = Done (Resent (tcp_v6_swap (q\<lparr>pk_sport := pk_dport p\<rparr>))) s'"
proof -
  note ports = fam6.answer_source [OF q [unfolded tcp_v6_redirect_def]]
  have s1: "tcp_v6_admit q s = (False, s)"
    using admit_relay_v6 [OF assms(1)] ports by blast
  have "conn_inv s" using assms(1) by (simp add: pkt_inv_def)
  then obtain a where "find_conn s (pk_sport p) False True = Some a" "conn_at s a = c"
    using find_conn_of c(1) by blast
  then have "fst (get_connection_full_v6 (pk_sport p) False (en_now env) s) =
      Some (c_orig_dest_ip6 c, pk_dport p, c_proxy_config_id c)"
    using c(2) by (simp add: get_connection_full_v6_def)
  then show ?thesis
    using s1 assms(4,5) ports
    by (auto simp: handle_tcp_v6_def tcp_v6_relay_reply_def Let_def split: prod.split)
qed

text \<open>C7. The relays are invisible to applications: whatever a TCP relay answers to a redirected segment reaches the
  application as an answer from the address and port it had contacted, over IPv4 and IPv6, loopback or not.\<close>

theorem tcp_relay_transparent:
  assumes "pkt_inv s"
  shows "(connection_of s (pk_sport p, False, False) = Some c \<and> c_orig_dest_port c = pk_dport p \<and>
      pk_outbound q \<and> answers q (tcp_v4_redirect s p) \<longrightarrow>
      (\<exists>r s'. handle_tcp_v4 env q s = Done (Resent r) s' \<and> answers r p \<and> pk_payload r = pk_payload q)) \<and>
    (connection_of s (pk_sport p6, False, True) = Some c6 \<and> c_orig_dest_port c6 = pk_dport p6 \<and> pk_dport p6 \<noteq> 0 \<and>
      pk_outbound q6 \<and> answers q6 (tcp_v6_redirect s p6) \<longrightarrow>
      (\<exists>r s'. handle_tcp_v6 env q6 s = Done (Resent r) s' \<and> answers r p6 \<and> pk_payload r = pk_payload q6))"
  using tcp_v4_answer [OF assms, of p c q env] tcp_v6_answer [OF assms, of p6 c6 q6 env]
    fam4.answer_translated(1) [where q = q and p = p] fam6.answer_translated(1) [where q = q6 and p = p6]
  by (auto simp: tcp_v4_redirect_def tcp_v6_redirect_def)

section \<open>Fresh connections\<close>

text \<open>What a new connection's first segment must lead to, given the action that applies to it: \<open>redirected\<close> is the
  segment on its way to the relay, \<open>tracked\<close> says that the flow table holds the destination and proxy.\<close>

definition obeys :: "'a packet \<Rightarrow> 'a packet \<Rightarrow> RuleAction \<Rightarrow> u32 \<Rightarrow> (pb \<Rightarrow> bool) \<Rightarrow> 'a packet outcome \<Rightarrow> bool" where
  "obeys p redirected action pid tracked out \<longleftrightarrow>
     (case action of
        RULE_ACTION_DIRECT \<Rightarrow> \<exists>s'. out = Done (Sent p) s' \<and> (pid \<noteq> 0 \<longrightarrow> port_state s' (pk_sport p) = Decided_Direct)
      | RULE_ACTION_BLOCK \<Rightarrow> \<exists>s'. out = Done Dropped s' \<and> port_state s' (pk_sport p) = Decided_Other
      | RULE_ACTION_PROXY \<Rightarrow> \<exists>s'. out = Done (Resent redirected) s' \<and> tracked s' \<and>
          port_state s' (pk_sport p) = Decided_Other)"

definition fresh_syn :: "'a packet \<Rightarrow> bool" where
  "fresh_syn p \<longleftrightarrow> pk_outbound p \<and> pk_syn p \<and> \<not> pk_ack p \<and> \<not> pk_fin p \<and> \<not> pk_rst p"

lemma tracked_connection:
  assumes "conn_inv s" and "is_connection_tracked s port udp v6"
  shows "connection_of s (port, udp, v6) \<noteq> None"
proof -
  have "find_conn s port udp v6 \<noteq> None"
    using assms(2) by (auto simp: is_connection_tracked_def find_conn_def find_None_iff)
  then show ?thesis using find_conn_Some [OF assms(1)] by (metis option.exhaust option.distinct(1))
qed

lemma reset_untracked:
  assumes "pkt_inv s" and "port \<noteq> g_local_relay_port s" and "s1 = reset_stale_tcp_state port v6 s"
  shows "\<not> port_is_decided s1 port" "\<not> is_connection_tracked s1 port False v6" "kept s s1"
proof -
  let ?r = "remove_connection port False v6 s"
  have i: "conn_inv s" using assms(1) by (simp add: pkt_inv_def)
  have f: "same_flows ?r s1" using assms(2,3) by (simp add: reset_stale_tcp_state_def frame_simps)
  have "\<not> is_connection_tracked ?r port False v6"
    using tracked_connection [OF remove_connection_flow(1) [OF i], of port False v6 port False v6]
      remove_connection_flow(2) [OF i, of port False v6 "(port, False, v6)"] by auto
  then show "\<not> is_connection_tracked s1 port False v6" using same_flowsD(5) [OF f] by simp
  show "\<not> port_is_decided s1 port" using assms(2,3) by (simp add: reset_stale_tcp_state_def)
  show "kept s s1" using reset_kept [OF assms(1)] assms(3) by simp
qed

lemma fresh_syn_admitted:
  assumes "pkt_inv s" and "fresh_syn p" and "pk_sport p \<noteq> g_local_relay_port s"
    and "s1 = reset_stale_tcp_state (pk_sport p) False (remove_cached_pid (pk_src p) (pk_sport p) False s)"
  shows "tcp_v4_admit p s = (False, s1)" "\<not> is_connection_tracked s1 (pk_sport p) False False" "kept s s1"
proof -
  have i: "pkt_inv (remove_cached_pid (pk_src p) (pk_sport p) False s)" using assms(1) by (rule kept_ops)
  note r = reset_untracked [OF i _ assms(4)]
  show "tcp_v4_admit p s = (False, s1)" "\<not> is_connection_tracked s1 (pk_sport p) False False" "kept s s1"
    using r assms(2,3,4) same_portsD [OF same_ports_flow_ops(10)]
    by (simp_all add: tcp_v4_admit_def fresh_syn_def Let_def frame_simps kept_def)
qed

lemma decided_other:
  "\<not> port_is_direct s p \<Longrightarrow> port_state (port_set_decided p s) p = Decided_Other"
  by (simp add: port_state_def)

lemma tcp_v4_new_obeys:
  assumes "good_env env" and "pkt_inv s1" and "fresh_syn p" and "\<not> port_is_direct s1 (pk_sport p)"
    and "g_has_active_rules s1 \<or> g_connection_callback s1"
    and v: "check_process_rule (en_os env) (en_start env) (en_rounds env) (en_later env)
      (pk_src p) (pk_sport p) (pk_dst p) (pk_dport p) False s1 = Some (action, pid, cid, s2)"
    and "en_calloc env (report_connection (en_os env) (en_log_alloc env) pid (Inl (pk_dst p)) (pk_dst p) (pk_dport p)
      (tcp_v4_action p s2 action) s2) \<noteq> None"
  shows "obeys p (tcp_v4_redirect s1 p) (tcp_v4_action p s2 action) pid
     (\<lambda>s'. \<exists>c. connection_of s' (pk_sport p, False, False) = Some c \<and> c_orig_dest_ip c = pk_dst p \<and>
        c_orig_dest_port c = pk_dport p \<and> c_proxy_config_id c = cid)
     (tcp_v4_new env p s1)"
proof -
  let ?a = "tcp_v4_action p s2 action"
  let ?r = "report_connection (en_os env) (en_log_alloc env) pid (Inl (pk_dst p)) (pk_dst p) (pk_dport p) ?a s2"
  let ?n = "add_connection (en_calloc env ?r) (pk_sport p) False (pk_src p) (pk_dst p) (pk_dport p) cid (en_later env) ?r"
  have k: "kept s1 s2" using verdict_kept(1) [OF assms(1,2) v] .
  note fr = same_portsD [OF same_ports_flow_ops(11)] and fn = same_portsD [OF same_ports_flow_ops(1)]
  have nd: "\<not> port_is_direct s2 (pk_sport p)" and rp: "g_local_relay_port s2 = g_local_relay_port s1" "pkt_inv s2"
    using k assms(4) by (auto simp: kept_def)
  have "conn_inv ?r" using kept_ops(11) [OF rp(2)] by (simp add: pkt_inv_def)
  moreover have "usable ?r (en_calloc env ?r)" using good_env_calloc [OF assms(1), of ?r] assms(7) by simp
  ultimately obtain c where c: "flow_v4 (pk_sport p) False (pk_src p) (pk_dst p) (pk_dport p) cid (g_udp_generation ?r) (en_later env) c"
      "connection_of ?n (pk_sport p, False, False) = Some c"
    using add_connection_flow [OF _ _ refl, of ?r "pk_sport p" False "en_calloc env ?r" "pk_src p" "pk_dst p" "pk_dport p" cid "en_later env"]
    by auto
  show ?thesis
    using assms(3,5) v nd c rp(1)
    by (cases ?a) (auto simp: obeys_def tcp_v4_new_def fresh_syn_def with_verdict_def Let_def decided_other fr fn flow_v4_def
      port_state_simps same_flowsD(2) [OF same_flows_ops(2)] tcp_v4_redirect_def frame_simps)
qed

lemma tcp_v6_new_obeys:
  assumes "good_env env" and "pkt_inv s1" and "fresh_syn p" and "\<not> port_is_direct s1 (pk_sport p)"
    and "g_has_active_rules s1 \<or> g_connection_callback s1" and "\<not> is_ipv6_multicast_or_linklocal (pk_dst p)"
    and v: "check_process_rule_v6 (en_os env) (en_start env) (en_rounds env) (en_later env)
      (pk_src p) (pk_sport p) (pk_dst p) (pk_dport p) False s1 = Some (action, pid, cid, s2)"
    and "en_calloc env (report_connection (en_os env) (en_log_alloc env) pid (Inr (pk_dst p)) (v6key (pk_dst p)) (pk_dport p)
      (tcp_v6_action p s2 action) s2) \<noteq> None"
  shows "obeys p (tcp_v6_redirect s1 p) (tcp_v6_action p s2 action) pid
     (\<lambda>s'. \<exists>c. connection_of s' (pk_sport p, False, True) = Some c \<and> c_orig_dest_ip6 c = pk_dst p \<and>
        c_orig_dest_port c = pk_dport p \<and> c_proxy_config_id c = cid)
     (tcp_v6_new env p s1)"
proof -
  let ?a = "tcp_v6_action p s2 action"
  let ?r = "report_connection (en_os env) (en_log_alloc env) pid (Inr (pk_dst p)) (v6key (pk_dst p)) (pk_dport p) ?a s2"
  let ?n = "add_connection_v6 (en_calloc env ?r) (pk_sport p) False (pk_src p) (pk_dst p) (pk_dport p) cid (en_later env) ?r"
  have k: "kept s1 s2" using verdict_kept(2) [OF assms(1,2) v] .
  note fr = same_portsD [OF same_ports_flow_ops(11)] and fn = same_portsD [OF same_ports_flow_ops(2)]
  have nd: "\<not> port_is_direct s2 (pk_sport p)" and rp: "g_local_relay_port s2 = g_local_relay_port s1" "pkt_inv s2"
    using k assms(4) by (auto simp: kept_def)
  have "conn_inv ?r" using kept_ops(11) [OF rp(2)] by (simp add: pkt_inv_def)
  moreover have "usable ?r (en_calloc env ?r)" using good_env_calloc [OF assms(1), of ?r] assms(8) by simp
  ultimately obtain c where c: "flow_v6 (pk_sport p) False (pk_src p) (pk_dst p) (pk_dport p) cid (g_udp_generation ?r) (en_later env) c"
      "connection_of ?n (pk_sport p, False, True) = Some c"
    using add_connection_v6_flow [OF _ _ refl, of ?r "pk_sport p" False "en_calloc env ?r" "pk_src p" "pk_dst p" "pk_dport p" cid "en_later env"]
    by auto
  show ?thesis
    using assms(3,5,6) v nd c rp(1)
    by (cases ?a) (auto simp: obeys_def tcp_v6_new_def fresh_syn_def with_verdict_def Let_def decided_other fr fn flow_v6_def
      port_state_simps same_flowsD(2) [OF same_flows_ops(2)] tcp_v6_redirect_def frame_simps)
qed

lemma rule_flags_kept:
  "g_has_active_rules (reset_stale_tcp_state port v6 s) = g_has_active_rules s"
  "g_connection_callback (reset_stale_tcp_state port v6 s) = g_connection_callback s"
  "g_has_active_rules (remove_cached_pid src port udp s) = g_has_active_rules s"
  "g_connection_callback (remove_cached_pid src port udp s) = g_connection_callback s"
  by (simp_all add: reset_stale_tcp_state_def port_clear_def remove_connection_def drop_connection_def rev_unlink_def
    write_conn_def remove_cached_pid_def Let_def split: option.split)

lemma fresh_syn_obeys:
  assumes "good_env env" and "pkt_inv s" and "fresh_syn p" and "pk_sport p \<noteq> g_local_relay_port s"
    and "\<not> is_proxy_server_endpoint s (pk_dst p) (pk_dport p)" and "g_has_active_rules s"
    and "s1 = reset_stale_tcp_state (pk_sport p) False (remove_cached_pid (pk_src p) (pk_sport p) False s)"
    and "check_process_rule (en_os env) (en_start env) (en_rounds env) (en_later env)
      (pk_src p) (pk_sport p) (pk_dst p) (pk_dport p) False s1 = Some (action, pid, cid, s2)"
    and "s3 = report_connection (en_os env) (en_log_alloc env) pid (Inl (pk_dst p)) (pk_dst p) (pk_dport p)
      (tcp_v4_action p s2 action) s2" and "en_calloc env s3 \<noteq> None"
  shows "obeys p (tcp_v4_redirect s p) (tcp_v4_action p s2 action) pid
     (\<lambda>s'. \<exists>c. connection_of s' (pk_sport p, False, False) = Some c \<and> c_orig_dest_ip c = pk_dst p \<and>
        c_orig_dest_port c = pk_dport p \<and> c_proxy_config_id c = cid)
     (handle_tcp_v4 env p s)"
proof -
  note a = fresh_syn_admitted [OF assms(2-4,7)]
  have "\<not> port_is_direct s1 (pk_sport p)" using assms(4,7) by (simp add: reset_stale_tcp_state_def frame_simps)
  moreover have "g_has_active_rules s1" using assms(6,7) by (simp add: rule_flags_kept)
  moreover have "tcp_v4_redirect s1 p = tcp_v4_redirect s p" using a(3) by (simp add: kept_def tcp_v4_redirect_def)
  moreover have "handle_tcp_v4 env p s = tcp_v4_new env p s1"
    using a assms(3-5) by (simp add: handle_tcp_v4_def fresh_syn_def kept_def)
  ultimately show ?thesis
    using tcp_v4_new_obeys [OF assms(1) _ assms(3) _ _ assms(8)] a(3) assms(9,10) by (simp add: kept_def)
qed


definition sample_env :: pkt_env where
  "sample_env = \<lparr>en_os = sample_os, en_start = 8, en_rounds = [sample_round], en_now = 9, en_later = 10,
     en_calloc = (\<lambda>s. if conn_heap s 7 = None then Some 7 else None), en_log_alloc = True, en_dns_alloc = (\<lambda>_. True)\<rparr>"

definition sample_syn :: "u32 packet" where
  "sample_syn = \<lparr>pk_src = 1, pk_dst = 2, pk_sport = 5000, pk_dport = 443, pk_outbound = True, pk_syn = True, pk_ack = False,
     pk_fin = False, pk_rst = False, pk_payload = []\<rparr>"

lemma sample_env_good: "good_env sample_env" "deadline_reached sample_env"
  by (auto simp: good_env_def deadline_reached_def sample_env_def sample_round_def kept_def usable_def)

lemma sample_pkt_inv: "pkt_inv sample_rules"
  by (simp add: pkt_inv_def conn_inv_def tables_ok_def ports_inv_def dns_inv_def chain_inv_def port_is_decided_def port_is_direct_def
    sample_rules_def one_config_def pb_init_def empty_table_def)

lemma sample_reset:
  "reset_stale_tcp_state 5000 False (remove_cached_pid 1 5000 False sample_rules) = sample_rules"
  by (simp add: reset_stale_tcp_state_def remove_connection_def find_conn_def remove_cached_pid_def port_clear_def
    sample_rules_def one_config_def pb_init_def empty_table_def Let_def fun_upd_idem_iff)

lemma sample_verdict_core:
  assumes "check_process_rule os start [sample_round] now src sport dst dport False s = Some (action, pid, cid, s')"
  shows "same_core s s'"
proof -
  have r: "same_core s s1" if "resolve_process_owner_v4 start [sample_round] src sport dst dport False s = Some (p, s1)" for p s1
    using that process_id_core(1)
    by (auto simp: resolve_process_owner_v4_def sample_round_def Let_def split: if_splits prod.splits)
  show ?thesis
    using assms r decide_keeps by (auto simp: check_process_rule_def split: if_splits option.splits) (metis snd_conv)+
qed

lemma sample_calloc: "same_flows sample_rules s \<Longrightarrow> en_calloc sample_env s = Some 7"
  by (simp add: sample_env_def same_flows_def sample_rules_def one_config_def pb_init_def)

lemma sample_syn_facts:
  "fresh_syn sample_syn" "pk_sport sample_syn = 5000" "pk_dport sample_syn = 443" "pk_src sample_syn = 1" "pk_dst sample_syn = 2"
  "g_local_relay_port sample_rules = LOCAL_PROXY_PORT" "g_has_active_rules sample_rules"
  "\<not> is_proxy_server_endpoint sample_rules 2 443"
  by (simp_all add: sample_syn_def fresh_syn_def sample_rules_def one_config_def pb_init_def is_proxy_server_endpoint_def)

lemma sample_syn_verdict:
  obtains s2 where "check_process_rule sample_os 8 [sample_round] 10 1 5000 2 443 False sample_rules = Some (RULE_ACTION_PROXY, 77, 1, s2)"
    and "tcp_v4_action sample_syn s2 RULE_ACTION_PROXY = RULE_ACTION_PROXY"
    and "en_calloc sample_env (report_connection sample_os True 77 (Inl 2) 2 443 RULE_ACTION_PROXY s2) \<noteq> None"
proof -
  obtain s2 where v: "check_process_rule sample_os 8 [sample_round] 10 1 5000 2 443 False sample_rules =
      Some (RULE_ACTION_PROXY, 77, 1, s2)" using sample_verdict by blast
  then have c: "same_core sample_rules s2" by (rule sample_verdict_core)
  have act: "tcp_v4_action sample_syn s2 RULE_ACTION_PROXY = RULE_ACTION_PROXY"
    by (simp add: tcp_v4_action_def sample_syn_def is_broadcast_or_multicast_def octet_def)
  let ?s3 = "report_connection sample_os True 77 (Inl 2) 2 443 RULE_ACTION_PROXY s2"
  have "same_flows sample_rules ?s3"
    using c same_flows_ops(5) [of s2 sample_os True 77 "Inl 2" 2 443 RULE_ACTION_PROXY]
    by (simp add: same_core_def same_flows_def)
  then have "en_calloc sample_env ?s3 \<noteq> None" by (simp add: sample_calloc)
  then show ?thesis using that v act by blast
qed


section \<open>Decided and undecided flows\<close>

lemma admit_direct:
  assumes "port_state s (pk_sport p) = Decided_Direct" and "port_state s (pk_sport q) = Decided_Direct"
    and "\<not> (pk_syn p \<and> \<not> pk_ack p)" and "\<not> (pk_syn q \<and> \<not> pk_ack q)"
  shows "tcp_v4_admit p s = (True, if pk_fin p \<or> pk_rst p then port_clear (pk_sport p) s else s)"
    "tcp_v6_admit q s = (True, if pk_fin q \<or> pk_rst q then port_clear (pk_sport q) s else s)"
  using assms
  by (auto simp: tcp_v4_admit_def tcp_v6_admit_def consume_direct_decision_def Let_def port_state_def split: if_splits)

text \<open>Later segments of a connection that was found direct skip owner and rule lookups: they pass unchanged, and
  the segment that ends the connection withdraws the decision, so the port's next user is judged afresh.\<close>

theorem direct_fast_path:
  assumes "pkt_inv s" and "pk_outbound p" and "pk_outbound q" and "\<not> (pk_syn p \<and> \<not> pk_ack p)" and "\<not> (pk_syn q \<and> \<not> pk_ack q)"
    and "port_state s (pk_sport p) = Decided_Direct" and "port_state s (pk_sport q) = Decided_Direct"
  shows "(\<exists>s'. handle_tcp_v4 env p s = Done (Sent p) s' \<and>
       port_state s' (pk_sport p) = (if (pk_fin p \<or> pk_rst p) \<and> \<not> is_proxy_server_endpoint s (pk_dst p) (pk_dport p)
         then Undecided else Decided_Direct)) \<and>
     (\<exists>s'. handle_tcp_v6 env q s = Done (Sent q) s' \<and>
       port_state s' (pk_sport q) = (if pk_fin q \<or> pk_rst q then Undecided else Decided_Direct))"
proof -
  have "pk_sport p \<noteq> g_local_relay_port s"
    using assms(1,6) by (auto simp: pkt_inv_def port_state_def split: if_splits)
  then show ?thesis
    using assms(2,3,6,7) admit_direct [OF assms(6,7,4,5)]
    by (simp add: handle_tcp_v4_def handle_tcp_v6_def port_state_simps)
qed

lemma stale_flow_rejected:
  assumes "conn_inv s" and "case connection_of s (port, True, v6) of None \<Rightarrow> True | Some c \<Rightarrow> c_policy_generation c \<noteq> g_udp_generation s + 1"
    and "ud_generation (udp_direct_entries s (udp_direct_slot v6 srcb port dstb dport)) \<noteq> g_udp_generation s + 1"
    and "r = udp_flow_validate port v6 src src6 dst dst6 dport now (invalidate_udp_decisions s)"
  shows "\<not> fst r" "connection_of (snd r) (port, True, v6) = None"
    "\<not> udp_direct_cached v6 srcb port dstb dport now (invalidate_udp_decisions s)"
proof -
  let ?s = "invalidate_udp_decisions s"
  have i: "conn_inv ?s" and c: "connection_of ?s (port, True, v6) = connection_of s (port, True, v6)"
      and g: "g_udp_generation ?s = g_udp_generation s + 1"
    using assms(1) by (simp_all add: invalidate_udp_decisions_def connection_of_def find_conn_def conn_at_def split: option.split)
  note v = udp_flow_validate_flow [OF i assms(4)]
  show f: "\<not> fst r" using v(2) assms(2) c g by (auto split: option.splits)
  then show "connection_of (snd r) (port, True, v6) = None" using v(3) [of "(port, True, v6)"] by simp
  show "\<not> udp_direct_cached v6 srcb port dstb dport now ?s"
    using assms(3) by (auto simp: udp_direct_cached_def Let_def invalidate_udp_decisions_def)
qed


definition tracked_udp :: pb where
  "tracked_udp = add_connection (Some 7) 4000 True 1 2 53 3 100 pb_init"

definition sample_dgram :: "u32 packet" where
  "sample_dgram = \<lparr>pk_src = 1, pk_dst = 2, pk_sport = 4000, pk_dport = 53, pk_outbound = True, pk_syn = False, pk_ack = False,
     pk_fin = False, pk_rst = False, pk_payload = []\<rparr>"


lemma pkt_inv_init: "pkt_inv pb_init"
  using conn_inv_init
  by (simp add: pkt_inv_def ports_inv_def dns_inv_def chain_inv_def port_is_decided_def port_is_direct_def)
    (simp add: pb_init_def empty_table_def)

theorem direct_fast_path_witness:
  "\<exists>s'. handle_tcp_v4 sample_env (sample_syn\<lparr>pk_syn := False, pk_fin := True\<rparr>) (port_set_direct 5000 pb_init) =
     Done (Sent (sample_syn\<lparr>pk_syn := False, pk_fin := True\<rparr>)) s' \<and> port_state s' 5000 = Undecided"
proof -
  let ?p = "sample_syn\<lparr>pk_syn := False, pk_fin := True\<rparr>"
  let ?q = "\<lparr>pk_src = loopback6, pk_dst = loopback6, pk_sport = 5000, pk_dport = 80, pk_outbound = True, pk_syn = False,
     pk_ack = True, pk_fin = False, pk_rst = False, pk_payload = []\<rparr>"
  have "\<not> is_proxy_server_endpoint (port_set_direct 5000 pb_init) 2 443"
    by (simp add: is_proxy_server_endpoint_def port_set_direct_def pb_init_def)
  moreover have "port_state (port_set_direct 5000 pb_init) 5000 = Decided_Direct" by (simp add: port_state_simps)
  moreover have "pkt_inv (port_set_direct 5000 pb_init)"
    using pkt_inv_init by (rule pkt_inv_port_op) (simp add: pb_init_def)
  ultimately show ?thesis
    using direct_fast_path [of "port_set_direct 5000 pb_init" ?p ?q sample_env]
    by (simp add: sample_syn_def)
qed

definition sample_flows :: pb where
  "sample_flows = add_connection_v6 (Some 8) 6000 False (replicate 16 7) (replicate 16 9) 443 1 10
     (add_connection (Some 7) 5000 False 1 2 443 1 10 pb_init)"

lemma sample_flows_inv: "pkt_inv sample_flows"
proof -
  have "pkt_inv (add_connection (Some 7) 5000 False 1 2 443 1 10 pb_init)"
    using pkt_inv_init by (rule pkt_inv_ops) (simp add: usable_def pb_init_def)
  then show ?thesis unfolding sample_flows_def
    by (rule pkt_inv_ops) (simp add: usable_def pb_init_def add_connection_def find_conn_def empty_table_def rev_insert_def
      write_conn_def Let_def)
qed

lemma sample_flows_of:
  obtains c c6 where "connection_of sample_flows (5000, False, False) = Some c" "c_orig_dest_port c = 443"
    "connection_of sample_flows (6000, False, True) = Some c6" "c_orig_dest_port c6 = 443"
proof -
  let ?s = "add_connection (Some 7) 5000 False 1 2 443 1 10 pb_init"
  have "usable pb_init (Some 7)" by (simp add: usable_def pb_init_def)
  then obtain c where c: "conn_inv ?s" "connection_of ?s (5000, False, False) = Some c"
      "flow_v4 5000 False 1 2 443 1 (g_udp_generation pb_init) 10 c"
    using add_connection_flow [OF conn_inv_init impI refl, of 5000 False "Some 7" 1 2 443 1 10] by auto
  have "usable ?s (Some 8)"
    by (simp add: usable_def pb_init_def add_connection_def find_conn_def empty_table_def rev_insert_def write_conn_def Let_def)
  then obtain c6 where "flow_v6 6000 False (replicate 16 7) (replicate 16 9) 443 1 (g_udp_generation ?s) 10 c6"
      "connection_of sample_flows (6000, False, True) = Some c6" "connection_of sample_flows (5000, False, False) = Some c"
    using add_connection_v6_flow [OF c(1) impI refl, of 6000 False "Some 8" "replicate 16 7" "replicate 16 9" 443 1 10] c(2)
    by (auto simp: sample_flows_def)
  with c(3) that show ?thesis by (auto simp: flow_v4_def flow_v6_def)
qed

theorem tcp_relay_transparent_witness:
  "\<exists>r s' r6 s6. handle_tcp_v4 sample_env \<lparr>pk_src = 1, pk_dst = 2, pk_sport = LOCAL_PROXY_PORT, pk_dport = 5000, pk_outbound = True,
       pk_syn = False, pk_ack = True, pk_fin = False, pk_rst = False, pk_payload = [1, 2, 3]\<rparr> sample_flows = Done (Resent r) s' \<and>
     pk_src r = 2 \<and> pk_sport r = 443 \<and> pk_dst r = 1 \<and> pk_payload r = [1, 2, 3] \<and>
     handle_tcp_v6 sample_env \<lparr>pk_src = replicate 16 7, pk_dst = replicate 16 9, pk_sport = LOCAL_PROXY_PORT, pk_dport = 6000,
       pk_outbound = True, pk_syn = False, pk_ack = True, pk_fin = False, pk_rst = False, pk_payload = [4]\<rparr> sample_flows = Done (Resent r6) s6 \<and>
     pk_src r6 = replicate 16 9 \<and> pk_sport r6 = 443"
proof -
  obtain c c6 where c: "connection_of sample_flows (5000, False, False) = Some c" "c_orig_dest_port c = 443"
    "connection_of sample_flows (6000, False, True) = Some c6" "c_orig_dest_port c6 = 443"
    by (rule sample_flows_of)
  have "g_local_relay_port pb_init = LOCAL_PROXY_PORT" by (simp add: pb_init_def)
  then have port: "g_local_relay_port sample_flows = LOCAL_PROXY_PORT"
    by (simp add: sample_flows_def frame_simps)
  let ?p6 = "\<lparr>pk_src = replicate 16 7, pk_dst = replicate 16 9, pk_sport = 6000, pk_dport = 443, pk_outbound = True,
     pk_syn = True, pk_ack = False, pk_fin = False, pk_rst = False, pk_payload = []\<rparr>"
  let ?q = "\<lparr>pk_src = 1, pk_dst = 2, pk_sport = LOCAL_PROXY_PORT, pk_dport = 5000, pk_outbound = True,
       pk_syn = False, pk_ack = True, pk_fin = False, pk_rst = False, pk_payload = [1, 2, 3]\<rparr>"
  let ?q6 = "\<lparr>pk_src = replicate 16 7, pk_dst = replicate 16 9, pk_sport = LOCAL_PROXY_PORT, pk_dport = 6000,
       pk_outbound = True, pk_syn = False, pk_ack = True, pk_fin = False, pk_rst = False, pk_payload = [4]\<rparr>"
  have "answers ?q (tcp_v4_redirect sample_flows sample_syn)"
    by (simp add: answers_def tcp_v4_redirect_def tcp_v4_swap_def swap_inbound_def port sample_syn_def first_octet_def ntohl_def)
  moreover have "answers ?q6 (tcp_v6_redirect sample_flows ?p6)"
    by (simp add: answers_def tcp_v6_redirect_def tcp_v6_swap_def swap_inbound_def port loopback6_def)
  ultimately show ?thesis
    using tcp_relay_transparent [OF sample_flows_inv, where p = sample_syn and c = c and q = ?q and env = sample_env
        and ?p6.0 = ?p6 and ?c6.0 = c6 and ?q6.0 = ?q6] c
    by (simp add: answers_def sample_syn_def) (metis)
qed

section \<open>The loop delivers\<close>

text \<open>The packets an iteration may receive: each in a benign environment and of at most \<open>mtu\<close> bytes, at most a batch.\<close>

definition good_batch :: "nat \<Rightarrow> (pkt_env \<times> nat \<times> parsed) list \<Rightarrow> bool" where
  "good_batch mtu xs \<longleftrightarrow> list_all (\<lambda>(env, n, x). good_env env \<and> deadline_reached env \<and> n \<le> mtu) xs \<and>
     length xs \<le> PACKET_BATCH_SIZE"

definition good_iteration :: "nat \<Rightarrow> (pb \<Rightarrow> pb) \<times> received \<Rightarrow> bool" where
  "good_iteration mtu = (\<lambda>(others, r). (\<forall>s. pkt_inv s \<longrightarrow> pkt_inv (others s)) \<and>
     (case r of Recv_Failed _ \<Rightarrow> True | Received xs \<Rightarrow> good_batch mtu xs))"

text \<open>An iteration that ends the loop: the handle was closed or another thread has cleared \<open>running\<close>.\<close>

definition ends_loop :: "(pb \<Rightarrow> pb) \<times> received \<Rightarrow> bool" where
  "ends_loop = (\<lambda>(others, r). (\<forall>s. \<not> running (others s)) \<or> (\<exists>e. r = Recv_Failed e \<and> handle_closed e))"

fun sent_packets :: "loop_act list \<Rightarrow> any_packet list" where
  "sent_packets [] = []"
| "sent_packets (Send_Batch ps _ # rest) = ps @ sent_packets rest"
| "sent_packets (_ # rest) = sent_packets rest"

lemma sent_packets_append [simp]: "sent_packets (xs @ ys) = sent_packets xs @ sent_packets ys"
  by (induction xs rule: sent_packets.induct) simp_all

lemma sent_packets_failed [simp]: "sent_packets (receive_failed ev error n) = []"
  by (simp add: receive_failed_def)

text \<open>The loop without batches: what each received packet comes to, in order of arrival.\<close>

fun unbatched :: "((pb \<Rightarrow> pb) \<times> received) list \<Rightarrow> pb \<Rightarrow> any_packet list \<times> pb" where
  "unbatched [] s = ([], s)"
| "unbatched ((others, r) # rest) s =
     (if \<not> running (others s) then ([], others s)
      else case r of
        Recv_Failed error \<Rightarrow> if handle_closed error then ([], others s) else unbatched rest (others s)
      | Received packets \<Rightarrow>
          (case one_by_one packets (others s) of (out, s1) \<Rightarrow> map_prod ((@) out) id (unbatched rest s1)))"

lemma good_batch_fits: "good_batch mtu xs \<Longrightarrow> sum_list (map (\<lambda>(_, n, _). n) xs) \<le> PACKET_BATCH_BUFFER_SIZE mtu"
proof -
  assume g: "good_batch mtu xs"
  then have "sum_list (map (\<lambda>(_, n, _). n) xs) \<le> length xs * mtu"
    unfolding good_batch_def by (induction xs) auto
  also have "\<dots> \<le> PACKET_BATCH_BUFFER_SIZE mtu"
    using g unfolding good_batch_def PACKET_BATCH_BUFFER_SIZE_def by (intro mult_le_mono1) simp
  finally show ?thesis .
qed

lemma received_batch:
  assumes "good_batch mtu xs" and "pkt_inv s"
  obtains b where "process_batch xs (empty_batch mtu) s = Some (Inr (True, b, snd (one_by_one xs s)))"
    and "sb_packets b = fst (one_by_one xs s)" and "pkt_inv (snd (one_by_one xs s))"
proof -
  have "\<forall>(env, n, x) \<in> set xs. good_env env \<and> deadline_reached env"
    using assms(1) by (auto simp: good_batch_def list_all_iff)
  then show ?thesis
    using process_batch_exact [of xs s "empty_batch mtu"] good_batch_fits [OF assms(1)] assms that
    by (auto simp: empty_batch_def good_batch_def)
qed

lemma packet_loop_delivers:
  assumes "list_all (good_iteration mtu) iterations" and "list_ex ends_loop iterations" and "pkt_inv s"
  shows "\<exists>acts. packet_loop mtu ev iterations failures s = Some (Inr (acts, snd (unbatched iterations s))) \<and>
     sent_packets acts = fst (unbatched iterations s) \<and> pkt_inv (snd (unbatched iterations s))"
  using assms
proof (induction iterations arbitrary: failures s)
  case (Cons i rest)
  obtain others r where i: "i = (others, r)" by (cases i)
  have inv: "pkt_inv (others s)" using Cons.prems(1,3) by (simp add: i good_iteration_def)
  show ?case
  proof (cases "\<not> running (others s) \<or> ends_loop i")
    case True
    then show ?thesis using inv by (auto simp: i ends_loop_def)
  next
    case False
    show ?thesis
    proof (cases r)
      case (Recv_Failed e)
      then show ?thesis
        using Cons.IH [of "others s" "failures + 1"] Cons.prems inv False by (auto simp: i prefix_acts_def)
    next
      case (Received xs)
      then have g: "good_batch mtu xs" using Cons.prems(1) by (simp add: i good_iteration_def)
      obtain b where b: "process_batch xs (empty_batch mtu) (others s) = Some (Inr (True, b, snd (one_by_one xs (others s))))"
          "sb_packets b = fst (one_by_one xs (others s))" "pkt_inv (snd (one_by_one xs (others s)))"
        using received_batch [OF g inv] by blast
      then show ?thesis
        using Cons.IH [OF _ _ b(3), of 0] Cons.prems False Received by (auto simp: i prefix_acts_def case_prod_beta)
    qed
  qed
qed simp

text \<open>C8. Batching loses, adds and reorders nothing, and the thread ends: over any sequence of receive calls in which
  the handle is eventually closed or the engine stopped, a packet thread sends exactly what classifying and sending
  each packet on arrival would have sent, in the same order, without a fault, and leaves the same state, which
  satisfies the invariant.\<close>

theorem packet_processor_delivers:
  assumes "list_all (good_iteration mtu) iterations" and "list_ex ends_loop iterations" and "pkt_inv s"
  shows "\<exists>acts. packet_processor mtu True True ev iterations s = Some (Inr (0, acts, snd (unbatched iterations s))) \<and>
     sent_packets acts = fst (unbatched iterations s) \<and> pkt_inv (snd (unbatched iterations s))"
  using packet_loop_delivers [OF assms, of ev 0] by (auto simp: packet_processor_def)

lemma sample_running_inv: "pkt_inv (sample_rules\<lparr>running := True\<rparr>)"
  by (rule pkt_inv_other_op [OF sample_pkt_inv]) (simp_all add: same_flows_def same_ports_def same_dns_def)

theorem packet_processor_delivers_witness:
  "\<exists>acts. packet_processor 65575 True True True [(\<lambda>s. s, Received [(sample_env, 40, V4_TCP sample_syn)]), (\<lambda>s. s, Recv_Failed 995)] (sample_rules\<lparr>running := True\<rparr>) =
     Some (Inr (0, acts, snd (unbatched [(\<lambda>s. s, Received [(sample_env, 40, V4_TCP sample_syn)]), (\<lambda>s. s, Recv_Failed 995)] (sample_rules\<lparr>running := True\<rparr>))))"
  using packet_processor_delivers [of 65575 "[(\<lambda>s. s, Received [(sample_env, 40, V4_TCP sample_syn)]), (\<lambda>s. s, Recv_Failed 995)]"
      "sample_rules\<lparr>running := True\<rparr>" True] sample_env_good sample_running_inv
  by (auto simp: good_iteration_def good_batch_def ends_loop_def handle_closed_def)

end
