(* ===== verification/PB_Control.thy ===== *)
theory PB_Control
  imports PB_Translate
begin

text \<open>
  The switches of \<open>ProxyBridge.c\<close> an embedding program turns at run time, the observers that learn socket owners from the
  driver, and the cleanup thread. The lemmas show that a switched policy applies from the next packet on, and that every
  one of these operations keeps the invariant the packet path relies on.
\<close>

section \<open>Switches\<close>

text \<open>Both bitmaps have 2048 words.\<close>

definition clear_port_decisions :: "pb \<Rightarrow> pb" where
  "clear_port_decisions s = s\<lparr>
     port_decided_bitmap := (\<lambda>i. if i < 2048 then 0 else port_decided_bitmap s i),
     port_direct_bitmap := (\<lambda>i. if i < 2048 then 0 else port_direct_bitmap s i)\<rparr>"

definition SetLocalhostViaProxy :: "bool \<Rightarrow> pb \<Rightarrow> pb" where
  "SetLocalhostViaProxy enable s = invalidate_udp_decisions (s\<lparr>g_localhost_via_proxy := enable\<rparr>)"

definition SetLoopbackBypassEnabled :: "bool \<Rightarrow> pb \<Rightarrow> pb" where
  "SetLoopbackBypassEnabled enable s =
     (let previous = g_loopback_bypass_enabled s; s1 = s\<lparr>g_loopback_bypass_enabled := enable\<rparr>
      in invalidate_udp_decisions (if previous \<noteq> enable then clear_port_decisions s1 else s1))"

definition SetProxyUdpDnsEnabled :: "bool \<Rightarrow> pb \<Rightarrow> pb" where
  "SetProxyUdpDnsEnabled enable s =
     (let previous = g_proxy_udp_dns_enabled s; s1 = s\<lparr>g_proxy_udp_dns_enabled := enable\<rparr>
      in invalidate_udp_decisions (if previous \<noteq> enable then clear_port_decisions s1 else s1))"

definition SetFailClosedOnUnknownOwner :: "bool \<Rightarrow> pb \<Rightarrow> pb" where
  "SetFailClosedOnUnknownOwner enable s = invalidate_udp_decisions (s\<lparr>g_fail_closed_on_unknown_owner := enable\<rparr>)"

definition SetConnectionCallback :: "bool \<Rightarrow> pb \<Rightarrow> pb" where
  "SetConnectionCallback callback s = s\<lparr>g_connection_callback := callback\<rparr>"

definition SetTrafficLoggingEnabled :: "bool \<Rightarrow> pb \<Rightarrow> pb" where
  "SetTrafficLoggingEnabled enable s =
     (let s1 = s\<lparr>g_traffic_logging_enabled := enable\<rparr> in if \<not> enable then clear_logged_connections s1 else s1)"

definition ClearConnectionLogs :: "pb \<Rightarrow> pb" where
  "ClearConnectionLogs s = clear_logged_connections s"

section \<open>Owner observers\<close>

abbreviation (input) WINDIVERT_LAYER_FLOW :: u8 where "WINDIVERT_LAYER_FLOW \<equiv> 2"
abbreviation (input) WINDIVERT_LAYER_SOCKET :: u8 where "WINDIVERT_LAYER_SOCKET \<equiv> 3"
abbreviation (input) WINDIVERT_EVENT_FLOW_DELETED :: u8 where "WINDIVERT_EVENT_FLOW_DELETED \<equiv> 2"
abbreviation (input) WINDIVERT_EVENT_SOCKET_CLOSE :: u8 where "WINDIVERT_EVENT_SOCKET_CLOSE \<equiv> 7"
abbreviation (input) IPPROTO_TCP :: u8 where "IPPROTO_TCP \<equiv> 6"
abbreviation (input) IPPROTO_UDP :: u8 where "IPPROTO_UDP \<equiv> 17"

text \<open>What the driver reports; the socket and the flow layer have the same fields. An address is four words in host order.\<close>

record WINDIVERT_ADDRESS =
  wa_layer :: u8
  wa_event :: u8
  wa_local_addr :: "u32 list"
  wa_remote_addr :: "u32 list"
  wa_local_port :: u16
  wa_remote_port :: u16
  wa_protocol :: u8
  wa_pid :: u32
  wa_endpoint_id :: u64

text \<open>\<open>hton6\<close> is the driver's \<open>WinDivertHelperHtonIPv6Address\<close>.\<close>

definition owner_address_to_network_bytes :: "(u32 list \<Rightarrow> u32 list) \<Rightarrow> u32 list \<Rightarrow> ip6" where
  "owner_address_to_network_bytes hton6 address = take 16 (concat (map u32_to_bytes (hton6 address)))"

text \<open>One event: whether it is announced through \<open>owner_update_event\<close>, and the state.\<close>

definition owner_event :: "(u32 list \<Rightarrow> u32 list) \<Rightarrow> bool \<Rightarrow> u64 \<Rightarrow> WINDIVERT_ADDRESS \<Rightarrow> pb \<Rightarrow> bool \<times> pb" where
  "owner_event hton6 alloc now wa s =
     (if wa_layer wa \<noteq> WINDIVERT_LAYER_SOCKET \<and> wa_layer wa \<noteq> WINDIVERT_LAYER_FLOW then (False, s)
      else
        let deleted = (if wa_layer wa = WINDIVERT_LAYER_SOCKET then wa_event wa = WINDIVERT_EVENT_SOCKET_CLOSE
                       else wa_event wa = WINDIVERT_EVENT_FLOW_DELETED)
        in if deleted then (True, remove_owner_event_endpoint (wa_endpoint_id wa) (wa_layer wa) s)
           else if wa_protocol wa \<noteq> IPPROTO_TCP \<and> wa_protocol wa \<noteq> IPPROTO_UDP then (False, s)
           else (True, cache_owner_event alloc (owner_address_to_network_bytes hton6 (wa_local_addr wa)) (wa_local_port wa)
                   (owner_address_to_network_bytes hton6 (wa_remote_addr wa)) (wa_remote_port wa)
                   (wa_protocol wa = IPPROTO_UDP) (wa_pid wa) (wa_endpoint_id wa) (wa_layer wa) now s))"

text \<open>What a receive call returns: an error code, or an event with the answer of the allocator and the time.\<close>

datatype owner_recv = Owner_Failed u32 | Owner_Event bool u64 WINDIVERT_ADDRESS

text \<open>Each element is what other threads do while the receive call waits and what it returns. The result counts the
  announcements; \<open>None\<close>: still running when the calls are used up.\<close>

fun owner_event_processor :: "(u32 list \<Rightarrow> u32 list) \<Rightarrow> ((pb \<Rightarrow> pb) \<times> owner_recv) list \<Rightarrow> pb \<Rightarrow> (nat \<times> pb) option" where
  "owner_event_processor hton6 [] s = (if \<not> running s then Some (0, s) else None)"
| "owner_event_processor hton6 ((others, r) # rest) s =
     (if \<not> running s then Some (0, s)
      else case r of
        Owner_Failed error \<Rightarrow>
          if \<not> running (others s) \<or> error = 6 \<or> error = 995 then Some (0, others s)
          else owner_event_processor hton6 rest (others s)
      | Owner_Event alloc now wa \<Rightarrow>
          (case owner_event hton6 alloc now wa (others s) of (announced, s1) \<Rightarrow>
             map_option (\<lambda>(n, s2). ((if announced then Suc n else n), s2)) (owner_event_processor hton6 rest s1)))"

section \<open>Cleanup\<close>

text \<open>An iteration of the cleanup thread: whether the wait ended because of the shutdown event, and the times the passes see.\<close>

record cleanup_round =
  cr_shutdown :: bool
  cr_now :: u64
  cr_now_cache :: u64
  cr_now_pid :: u64
  cr_now_owner :: u64
  cr_now_dns :: u64

definition cleanup_pass :: "cleanup_round \<Rightarrow> pb \<Rightarrow> pb" where
  "cleanup_pass r s =
     cleanup_stale_dns_cache (cr_now_dns r) (cleanup_stale_owner_cache (cr_now_owner r)
       (cleanup_stale_pid_cache (cr_now_pid r) (cleanup_stale_connections (cr_now r) (cr_now_cache r) s)))"

fun cleanup_worker :: "((pb \<Rightarrow> pb) \<times> cleanup_round) list \<Rightarrow> pb \<Rightarrow> pb option" where
  "cleanup_worker [] s = (if \<not> running s then Some s else None)"
| "cleanup_worker ((others, r) # rest) s =
     (if \<not> running s then Some s
      else if cr_shutdown r then Some (others s)
      else if \<not> running (others s) then Some (others s)
      else cleanup_worker rest (cleanup_pass r (others s)))"

section \<open>The switches\<close>

lemma port_word_lt: "port_word p < 2048"
proof -
  have "unat p < 2 ^ LENGTH(16)" by (rule unsigned_less)
  then show ?thesis by (simp add: port_word_def drop_bit_eq_div unat_div)
qed

lemma cleared_ports [simp]: "\<not> port_is_decided (clear_port_decisions s) p" "\<not> port_is_direct (clear_port_decisions s) p"
  by (simp_all add: port_bits clear_port_decisions_def port_word_lt)

lemma pkt_inv_cleared: "pkt_inv s \<Longrightarrow> pkt_inv (clear_port_decisions s)"
proof -
  assume "pkt_inv s"
  moreover have "same_flows s (clear_port_decisions s)" "same_dns s (clear_port_decisions s)"
    by (simp_all add: clear_port_decisions_def same_flows_def same_dns_def)
  ultimately show ?thesis by (simp add: pkt_inv_def same_flowsD same_dns_def dns_inv_def ports_inv_def)
qed

text \<open>Changing a switch alone.\<close>

lemma pkt_inv_switch [simp]:
  "pkt_inv (s\<lparr>g_localhost_via_proxy := b\<rparr>) = pkt_inv s" "pkt_inv (s\<lparr>g_loopback_bypass_enabled := b\<rparr>) = pkt_inv s"
  "pkt_inv (s\<lparr>g_proxy_udp_dns_enabled := b\<rparr>) = pkt_inv s" "pkt_inv (s\<lparr>g_fail_closed_on_unknown_owner := b\<rparr>) = pkt_inv s"
  "pkt_inv (s\<lparr>g_connection_callback := b\<rparr>) = pkt_inv s" "pkt_inv (s\<lparr>g_traffic_logging_enabled := b\<rparr>) = pkt_inv s"
  "pkt_inv (s\<lparr>g_udp_generation := n\<rparr>) = pkt_inv s" "pkt_inv (s\<lparr>running := b\<rparr>) = pkt_inv s"
  "pkt_inv (s\<lparr>logged_connections := l, g_logged_count := c\<rparr>) = pkt_inv s"
  by (simp_all add: pkt_inv_def conn_inv_def ports_inv_def port_bits dns_inv_def)

lemma pkt_inv_invalidate [simp]: "pkt_inv (invalidate_udp_decisions s) = pkt_inv s"
  by (simp add: invalidate_udp_decisions_def)

lemma undecided_after_clear:
  "\<not> fst (consume_direct_decision p teardown (invalidate_udp_decisions (clear_port_decisions s)))"
  using cleared_ports [of s p]
  by (simp add: consume_direct_decision_def invalidate_udp_decisions_def port_bits)



section \<open>The background threads\<close>

lemma fold_frame:
  assumes "reflp R" and "transp R" and "\<And>x s. R s (f x s)"
  shows "R s (fold f xs s)"
proof (induction xs arbitrary: s)
  case (Cons x xs)
  show ?case using assms(3) [of s x] Cons.IH [of "f x s"] assms(2) by (auto dest: transpD)
qed (use assms(1) in \<open>simp add: reflpD\<close>)

lemma frames_preorder [simp]:
  "reflp same_core" "transp same_core" "reflp same_ports" "transp same_ports" "reflp same_dns" "transp same_dns"
  by (auto intro!: reflpI transpI intro: same_core_trans simp: same_ports_def same_dns_def)

lemma same_core_owner_upd [simp]: "same_core s (s'\<lparr>owner_cache := x\<rparr>) = same_core s s'"
  by (simp add: same_core_def same_flows_def same_ports_def same_dns_def)

lemma same_core_forget [simp]: "same_core s (forget_owner_entry e s)"
  by (simp add: forget_owner_entry_def invalidate_udp_decisions_def Let_def same_core_def same_flows_def same_ports_def same_dns_def)

lemma same_core_event:
  "same_core s (remove_owner_event_endpoint ep layer s)"
  "same_core s (cache_owner_event alloc la lp ra rp udp pid ep layer now s)"
proof -
  show "same_core s (remove_owner_event_endpoint ep layer s)"
    unfolding remove_owner_event_endpoint_def
    by (rule fold_frame [where R = same_core]) (simp_all add: fold_frame [where R = same_core])
  show "same_core s (cache_owner_event alloc la lp ra rp udp pid ep layer now s)"
    by (simp add: cache_owner_event_def Let_def invalidate_udp_decisions_def)
      (simp add: same_core_def same_flows_def same_ports_def same_dns_def)
qed

lemma same_core_owner_event: "same_core s (snd (owner_event hton6 alloc now wa s))"
  by (simp add: owner_event_def Let_def same_core_event)

lemma drop_kept [simp]: "same_ports s (drop_connection i a s)" "same_dns s (drop_connection i a s)"
  by (simp_all add: drop_connection_def rev_unlink_def write_conn_def same_ports_def same_dns_def Let_def)

lemma cleanup_frame: "same_ports s (cleanup_stale_connections now now_cache s)" "same_dns s (cleanup_stale_connections now now_cache s)"
proof -
  have r: "same_ports s s" "same_dns s s" for s by (simp_all add: same_ports_def same_dns_def)
  have "same_ports s (sweep_bucket now i s)" "same_dns s (sweep_bucket now i s)" for i s
    unfolding sweep_bucket_def by (simp_all add: fold_frame r)
  then have "same_ports s (fold (sweep_bucket now) is s)" "same_dns s (fold (sweep_bucket now) is s)" for "is"
    by (simp_all add: fold_frame)
  then show "same_ports s (cleanup_stale_connections now now_cache s)" "same_dns s (cleanup_stale_connections now now_cache s)"
    by (simp_all add: cleanup_stale_connections_def Let_def same_ports_def same_dns_def)
qed

lemma pkt_inv_cleanup:
  assumes "pkt_inv s"
  shows "pkt_inv (cleanup_pass r s)"
proof -
  obtain t1 t2 t3 t4 t5 where t: "t1 = cr_now_dns r" "t2 = cr_now_owner r" "t3 = cr_now_pid r" "t4 = cr_now r" "t5 = cr_now_cache r" by simp
  let ?s = "cleanup_stale_connections t4 t5 s"
  have i: "pkt_inv ?s" by (rule pkt_inv_flow_op [OF assms conn_step.intros(12) cleanup_frame])
  have "same_core ?s (cleanup_stale_owner_cache t2 (cleanup_stale_pid_cache t3 ?s))"
    by (simp add: cleanup_stale_owner_cache_def cleanup_stale_pid_cache_def same_core_def same_flows_def same_ports_def same_dns_def)
  then have j: "pkt_inv (cleanup_stale_owner_cache t2 (cleanup_stale_pid_cache t3 ?s))" by (rule pkt_inv_core [OF i])
  let ?t = "cleanup_stale_owner_cache t2 (cleanup_stale_pid_cache t3 ?s)"
  have "same_flows ?t (cleanup_stale_dns_cache t1 ?t)" "same_ports ?t (cleanup_stale_dns_cache t1 ?t)"
    by (simp_all add: cleanup_stale_dns_cache_def same_flows_def same_ports_def)
  then show ?thesis using j dns_inv_cleanup [of ?t t1] by (simp add: cleanup_pass_def t pkt_inv_def same_flowsD same_portsD)
qed

lemma running_owner_event [simp]: "running (snd (owner_event hton6 alloc now wa s)) = running s"
proof -
  have "running (fold forget_owner_entry es s) = running s" for es s
    by (rule fold_frame [where R = "\<lambda>s t. running t = running s"])
      (auto intro!: reflpI transpI simp: forget_owner_entry_def invalidate_udp_decisions_def Let_def)
  then have "running (remove_owner_event_endpoint ep layer s) = running s" for ep layer s
    unfolding remove_owner_event_endpoint_def
    by (intro fold_frame [where R = "\<lambda>s t. running t = running s"]) (auto intro!: reflpI transpI)
  then show ?thesis by (simp add: owner_event_def cache_owner_event_def invalidate_udp_decisions_def Let_def)
qed

lemma owner_event_processor_keeps:
  assumes "pkt_inv s" and "\<forall>e \<in> set events. \<forall>t. pkt_inv t \<longrightarrow> pkt_inv (fst e t)"
    and "events \<noteq> [] \<and> (\<forall>t. \<not> running (fst (last events) t))"
  shows "\<exists>n s'. owner_event_processor hton6 events s = Some (n, s') \<and> pkt_inv s'"
  using assms
proof (induction events arbitrary: s)
  case (Cons e events)
  obtain others r where e: "e = (others, r)" by force
  have i: "pkt_inv (others s)" using Cons.prems e by simp
  have rest: "\<exists>n s'. owner_event_processor hton6 events t = Some (n, s') \<and> pkt_inv s'"
    if "pkt_inv t" "running t = running (others s)" for t
  proof (cases events)
    case Nil then show ?thesis using that Cons.prems(3) e by auto
  next
    case (Cons a list) then show ?thesis using Cons.IH [OF that(1)] Cons.prems(2,3) by simp
  qed
  show ?case
  proof (cases r)
    case (Owner_Failed error)
    then show ?thesis using i rest [OF i] Cons.prems(1) e by auto
  next
    case (Owner_Event alloc now wa)
    have "pkt_inv (snd (owner_event hton6 alloc now wa (others s)))" using pkt_inv_core [OF i same_core_owner_event] .
    then obtain n s' where "owner_event_processor hton6 events (snd (owner_event hton6 alloc now wa (others s))) = Some (n, s')"
        "pkt_inv s'"
      using rest by fastforce
    then show ?thesis
      using Cons.prems(1) Owner_Event e by (cases "running s"; cases "owner_event hton6 alloc now wa (others s)") auto
  qed
qed simp

lemma cleanup_worker_keeps:
  assumes "pkt_inv s" and "\<forall>e \<in> set passes. \<forall>t. pkt_inv t \<longrightarrow> pkt_inv (fst e t)"
    and "passes \<noteq> [] \<and> (\<forall>t. \<not> running (fst (last passes) t))"
  shows "\<exists>s'. cleanup_worker passes s = Some s' \<and> pkt_inv s'"
  using assms
proof (induction passes arbitrary: s)
  case (Cons e passes)
  obtain others r where e: "e = (others, r)" by force
  have i: "pkt_inv (others s)" using Cons.prems e by simp
  show ?case
  proof (cases "running s \<and> \<not> cr_shutdown r \<and> running (others s)")
    case True
    then have "passes \<noteq> [] \<and> (\<forall>t. \<not> running (fst (last passes) t))" using Cons.prems(3) e by (auto split: if_splits)
    then show ?thesis using Cons.IH [OF pkt_inv_cleanup [OF i]] Cons.prems(2) True e by simp
  qed (use i e Cons.prems(1) in auto)
qed simp


definition sample_owner_event :: WINDIVERT_ADDRESS where
  "sample_owner_event = \<lparr>wa_layer = WINDIVERT_LAYER_SOCKET, wa_event = 3, wa_local_addr = [0x7F000001, 0xFFFF, 0, 0],
     wa_remote_addr = [0x08080808, 0xFFFF, 0, 0], wa_local_port = 5000, wa_remote_port = 443, wa_protocol = IPPROTO_TCP,
     wa_pid = 42, wa_endpoint_id = 7\<rparr>"

definition switch_off :: "pb \<Rightarrow> pb" where
  "switch_off s = s\<lparr>running := False\<rparr>"


end
