(* ===== verification/PB_Iocp.thy ===== *)
theory PB_Iocp
  imports PB_Internal "HOL-Library.Sublist"
begin

text \<open>
  The I/O completion port relay pool of \<open>pb_relay.c\<close>: relayed connections with their two directions, the shared
  buffers, the completion handler of the workers, and starting, aborting and stopping the pool. A completion is
  handled in one step, as the directions of a connection share only interlocked counters and the pool lock.
  The lemmas show the invariant of the pool: a connection lives as long as a request of it is outstanding, its
  sockets are open as long as it lives, its bytes keep their order, and every buffer is accounted for.
\<close>

section \<open>State\<close>

abbreviation (input) RELAY_BUF_SIZE :: nat where "RELAY_BUF_SIZE \<equiv> 65536"
abbreviation (input) RELAY_POOL_KEEP :: nat where "RELAY_POOL_KEEP \<equiv> 256"

datatype relay_state = RS_WAIT | RS_READ | RS_SEND

text \<open>The two directions: \<open>dir[0]\<close> is the upload from the client, \<open>dir[1]\<close> the download from the proxy.\<close>

datatype side = Upload | Download

fun opposite :: "side \<Rightarrow> side" where
  "opposite Upload = Download"
| "opposite Download = Upload"

text \<open>A buffer is what it holds that is valid; \<open>None\<close> is the null pointer.\<close>

record RELAY_DIR =
  d_src :: nat
  d_dst :: nat
  d_buf :: "bytes option"
  d_len :: nat
  d_off :: nat
  d_state :: relay_state

text \<open>\<open>rc_s\<close> is the array of sockets: the client's under \<open>Upload\<close>, the proxy's under \<open>Download\<close>.\<close>

record RELAY_CONN =
  rc_s :: "side \<Rightarrow> nat"
  rc_dir :: "side \<Rightarrow> RELAY_DIR"
  rc_refs :: int
  rc_closing :: bool

text \<open>The static variables of the pool, then what the system keeps: open socket handles, the bytes received from and
  accepted by each since the relay took it over, the sockets whose sending side is shut down, the outstanding
  overlapped requests, and the number of buffers allocated. \<open>g_relay_done\<close> is the event, \<open>None\<close> while there is none.\<close>

record relay_pool =
  g_iocp :: bool
  g_relay_nworkers :: nat
  g_relay_accepting :: bool
  g_relay_done :: "bool option"
  g_relay_head :: "addr list"
  g_active_relays :: int
  g_relay_pool_n :: nat
  relay_heap :: "addr \<rightharpoonup> RELAY_CONN"
  sys_open :: "nat set"
  sys_recvd :: "nat \<Rightarrow> bytes"
  sys_sent :: "nat \<Rightarrow> bytes"
  sys_fin :: "nat set"
  sys_pending :: "(addr \<times> side) set"
  sys_buffers :: nat

definition pool_init :: relay_pool where
  "pool_init = \<lparr>g_iocp = False, g_relay_nworkers = 0, g_relay_accepting = False, g_relay_done = None, g_relay_head = [],
     g_active_relays = 0, g_relay_pool_n = 0, relay_heap = Map.empty, sys_open = {}, sys_recvd = (\<lambda>_. []),
     sys_sent = (\<lambda>_. []), sys_fin = {}, sys_pending = {}, sys_buffers = 0\<rparr>"

text \<open>Working on a connection through its pointer, and on one direction of it.\<close>

definition with_conn :: "addr \<Rightarrow> (RELAY_CONN \<Rightarrow> relay_pool \<Rightarrow> fault + 'r) \<Rightarrow> relay_pool \<Rightarrow> fault + 'r" where
  "with_conn a f s = (case relay_heap s a of None \<Rightarrow> Inl UseAfterFree | Some rc \<Rightarrow> f rc s)"

definition set_dir :: "addr \<Rightarrow> side \<Rightarrow> (RELAY_DIR \<Rightarrow> RELAY_DIR) \<Rightarrow> relay_pool \<Rightarrow> relay_pool" where
  "set_dir a x f s =
     s\<lparr>relay_heap := (relay_heap s)(a := map_option (\<lambda>rc. rc\<lparr>rc_dir := (rc_dir rc)(x := f (rc_dir rc x))\<rparr>) (relay_heap s a))\<rparr>"

section \<open>Buffers\<close>

text \<open>\<open>malloc\<close>: what the allocator answers when the pool is empty.\<close>

definition relay_buf_get :: "bool \<Rightarrow> relay_pool \<Rightarrow> bool \<times> relay_pool" where
  "relay_buf_get malloc s =
     (if g_relay_pool_n s > 0 then (True, s\<lparr>g_relay_pool_n := g_relay_pool_n s - 1\<rparr>)
      else if malloc then (True, s\<lparr>sys_buffers := sys_buffers s + 1\<rparr>) else (False, s))"

definition relay_buf_put :: "bytes option \<Rightarrow> relay_pool \<Rightarrow> relay_pool" where
  "relay_buf_put b s =
     (if b = None then s
      else if g_relay_pool_n s < RELAY_POOL_KEEP then s\<lparr>g_relay_pool_n := g_relay_pool_n s + 1\<rparr>
      else s\<lparr>sys_buffers := sys_buffers s - 1\<rparr>)"

section \<open>Ending a direction\<close>

text \<open>A handle that is not open may belong to somebody else by now: closing it again is a fault.\<close>

definition closesocket :: "nat \<Rightarrow> relay_pool \<Rightarrow> fault + relay_pool" where
  "closesocket h s = (if h \<in> sys_open s then Inr (s\<lparr>sys_open := sys_open s - {h}\<rparr>) else Inl DoubleFree)"

definition relay_abort :: "addr \<Rightarrow> relay_pool \<Rightarrow> fault + relay_pool" where
  "relay_abort a = with_conn a (\<lambda>rc s.
     if rc_closing rc then Inr s
     else Inr (s\<lparr>relay_heap := (relay_heap s)(a \<mapsto> rc\<lparr>rc_closing := True\<rparr>),
                sys_fin := insert (rc_s rc Upload) (insert (rc_s rc Download) (sys_fin s))\<rparr>))"

definition relay_release :: "addr \<Rightarrow> relay_pool \<Rightarrow> fault + relay_pool" where
  "relay_release a = with_conn a (\<lambda>rc s.
     let refs = rc_refs rc - 1 in
     if refs \<noteq> 0 then Inr (s\<lparr>relay_heap := (relay_heap s)(a \<mapsto> rc\<lparr>rc_refs := refs\<rparr>)\<rparr>)
     else
       let active = g_active_relays s - 1;
           s1 = s\<lparr>g_relay_head := remove1 a (g_relay_head s), g_active_relays := active,
                  g_relay_done := (if active = 0 then Some True else g_relay_done s)\<rparr>
       in and_then (closesocket (rc_s rc Upload) s1) (\<lambda>s2.
          and_then (closesocket (rc_s rc Download) s2) (\<lambda>s3.
            let s4 = relay_buf_put (d_buf (rc_dir rc Download)) (relay_buf_put (d_buf (rc_dir rc Upload)) s3)
            in Inr (s4\<lparr>relay_heap := (relay_heap s4)(a := None)\<rparr>))))"

definition relay_dir_end :: "addr \<Rightarrow> side \<Rightarrow> bool \<Rightarrow> relay_pool \<Rightarrow> fault + relay_pool" where
  "relay_dir_end a x clean_eof = with_conn a (\<lambda>rc s.
     and_then (if clean_eof then Inr (s\<lparr>sys_fin := insert (d_dst (rc_dir rc x)) (sys_fin s)\<rparr>) else relay_abort a s)
       (relay_release a))"

section \<open>Posting requests\<close>

abbreviation (input) SOCKET_ERROR :: int where "SOCKET_ERROR \<equiv> - 1"
abbreviation (input) WSA_IO_PENDING :: int where "WSA_IO_PENDING \<equiv> 997"

definition relay_io_ok :: "int \<Rightarrow> int \<Rightarrow> bool" where
  "relay_io_ok rc err \<longleftrightarrow> \<not> (rc = SOCKET_ERROR \<and> err \<noteq> WSA_IO_PENDING)"

text \<open>What the system answers to a call: its result and error code, and the allocator's answer.\<close>

record io_answer =
  an_rc :: int
  an_err :: int
  an_malloc :: bool

text \<open>A request the system has accepted completes later.\<close>

definition posted :: "io_answer \<Rightarrow> addr \<Rightarrow> side \<Rightarrow> relay_pool \<Rightarrow> bool \<times> relay_pool" where
  "posted an a x s =
     (if relay_io_ok (an_rc an) (an_err an) then (True, s\<lparr>sys_pending := insert (a, x) (sys_pending s)\<rparr>) else (False, s))"

definition relay_post_wait :: "io_answer \<Rightarrow> addr \<Rightarrow> side \<Rightarrow> relay_pool \<Rightarrow> fault + bool \<times> relay_pool" where
  "relay_post_wait an a x = with_conn a (\<lambda>rc s.
     Inr (posted an a x (set_dir a x (\<lambda>d. d\<lparr>d_buf := None, d_state := RS_WAIT\<rparr>) (relay_buf_put (d_buf (rc_dir rc x)) s))))"

definition relay_post_read :: "io_answer \<Rightarrow> addr \<Rightarrow> side \<Rightarrow> relay_pool \<Rightarrow> fault + bool \<times> relay_pool" where
  "relay_post_read an a x = with_conn a (\<lambda>rc s.
     case (if d_buf (rc_dir rc x) = None then relay_buf_get (an_malloc an) s else (True, s)) of (got, s1) \<Rightarrow>
       if \<not> got then Inr (False, s1)
       else Inr (posted an a x (set_dir a x
              (\<lambda>d. d\<lparr>d_buf := (if d_buf d = None then Some [] else d_buf d), d_state := RS_READ\<rparr>) s1)))"

definition relay_post_send :: "io_answer \<Rightarrow> addr \<Rightarrow> side \<Rightarrow> relay_pool \<Rightarrow> fault + bool \<times> relay_pool" where
  "relay_post_send an a x = with_conn a (\<lambda>rc s.
     Inr (posted an a x (set_dir a x (\<lambda>d. d\<lparr>d_state := RS_SEND\<rparr>) s)))"

section \<open>Workers\<close>

text \<open>A completed request: whether it succeeded, how many bytes it moved and, for a read, which.\<close>

record completion =
  cp_ok :: bool
  cp_n :: nat
  cp_data :: bytes

text \<open>What a successful request has done by the time its completion is dequeued.\<close>

definition io_effect :: "completion \<Rightarrow> addr \<Rightarrow> side \<Rightarrow> relay_pool \<Rightarrow> relay_pool" where
  "io_effect c a x s =
     (case relay_heap s a of
        None \<Rightarrow> s
      | Some rc \<Rightarrow>
          let d = rc_dir rc x in
          if \<not> cp_ok c then s
          else case d_state d of
            RS_WAIT \<Rightarrow> s
          | RS_READ \<Rightarrow> set_dir a x (\<lambda>d. d\<lparr>d_buf := Some (cp_data c)\<rparr>)
              (s\<lparr>sys_recvd := (sys_recvd s)(d_src d := sys_recvd s (d_src d) @ cp_data c)\<rparr>)
          | RS_SEND \<Rightarrow> s\<lparr>sys_sent := (sys_sent s)(d_dst d := sys_sent s (d_dst d) @
                          take (cp_n c) (drop (d_off d) (the (d_buf d))))\<rparr>)"

text \<open>A direction whose next request was refused ends.\<close>

definition proceed :: "addr \<Rightarrow> side \<Rightarrow> bool \<times> relay_pool \<Rightarrow> fault + relay_pool" where
  "proceed a x = (\<lambda>(ok, s). if ok then Inr s else relay_dir_end a x False s)"

text \<open>One iteration of a worker for a completion of direction \<open>x\<close> of the connection at \<open>a\<close>.\<close>

definition relay_worker :: "io_answer \<Rightarrow> completion \<Rightarrow> addr \<Rightarrow> side \<Rightarrow> relay_pool \<Rightarrow> fault + relay_pool" where
  "relay_worker an c a x = with_conn a (\<lambda>rc s.
     let d = rc_dir rc x in
        if \<not> cp_ok c then relay_dir_end a x False s
        else case d_state d of
          RS_WAIT \<Rightarrow> and_then (relay_post_read an a x s) (proceed a x)
        | RS_READ \<Rightarrow>
            if cp_n c = 0 then relay_dir_end a x True s
            else and_then (relay_post_send an a x (set_dir a x (\<lambda>d. d\<lparr>d_len := cp_n c, d_off := 0\<rparr>) s)) (proceed a x)
        | RS_SEND \<Rightarrow>
            if cp_n c = 0 then relay_dir_end a x False s
            else
              let off = d_off d + cp_n c;
                  s1 = set_dir a x (\<lambda>d. d\<lparr>d_off := off\<rparr>) s
              in if off < d_len d then and_then (relay_post_send an a x s1) (proceed a x)
                 else if d_len d < RELAY_BUF_SIZE div 4 then and_then (relay_post_wait an a x s1) (proceed a x)
                 else and_then (relay_post_read an a x s1) (proceed a x))"

text \<open>Dequeue a completion and handle it.\<close>

definition complete :: "io_answer \<Rightarrow> completion \<Rightarrow> addr \<Rightarrow> side \<Rightarrow> relay_pool \<Rightarrow> fault + relay_pool" where
  "complete an c a x s =
     relay_worker an c a x (io_effect c a x (s\<lparr>sys_pending := sys_pending s - {(a, x)}\<rparr>))"

section \<open>Starting and stopping\<close>

text \<open>What the system answers while the pool starts: the event, the port, the number of processors, and which of the
  worker threads could be created.\<close>

record pool_start =
  ps_event :: bool
  ps_port :: bool
  ps_cpus :: nat
  ps_thread :: "nat \<Rightarrow> bool"

definition relay_pool_start :: "pool_start \<Rightarrow> relay_pool \<Rightarrow> bool \<times> relay_pool" where
  "relay_pool_start ps s =
     (if g_iocp s then (True, s)
      else if \<not> ps_event ps then (False, s\<lparr>g_relay_done := None\<rparr>)
      else if \<not> ps_port ps then (False, s\<lparr>g_relay_done := None\<rparr>)
      else
        let n = min 8 (max 2 (ps_cpus ps div 2));
            workers = length (filter (ps_thread ps) [0..<n])
        in if workers = 0 then (False, s\<lparr>g_relay_nworkers := 0, g_iocp := False, g_relay_done := None\<rparr>)
           else (True, s\<lparr>g_iocp := True, g_relay_done := Some True, g_relay_nworkers := workers, g_relay_accepting := True\<rparr>))"

fun abort_all :: "addr list \<Rightarrow> relay_pool \<Rightarrow> fault + relay_pool" where
  "abort_all [] s = Inr s"
| "abort_all (a # as) s = and_then (relay_abort a s) (abort_all as)"

definition relay_pool_abort :: "relay_pool \<Rightarrow> fault + relay_pool" where
  "relay_pool_abort s = abort_all (g_relay_head s) (s\<lparr>g_relay_accepting := False\<rparr>)"

text \<open>The completions that are handled while \<open>relay_pool_stop\<close> waits for the event; \<open>None\<close>: it is still waiting
  when they are used up.\<close>

fun wait_relays_done :: "(io_answer \<times> completion \<times> addr \<times> side) list \<Rightarrow> relay_pool \<Rightarrow> (fault + relay_pool) option" where
  "wait_relays_done [] s = (if g_relay_done s = Some True then Some (Inr s) else None)"
| "wait_relays_done ((an, c, a, x) # rest) s =
     (if g_relay_done s = Some True then Some (Inr s)
      else case complete an c a x s of Inl e \<Rightarrow> Some (Inl e) | Inr s1 \<Rightarrow> wait_relays_done rest s1)"

text \<open>What follows the wait: the workers exit, the handles are closed, the free buffers released.\<close>

definition pool_shutdown :: "relay_pool \<Rightarrow> relay_pool" where
  "pool_shutdown s = s\<lparr>g_relay_nworkers := 0, g_iocp := False, g_relay_done := None,
     sys_buffers := sys_buffers s - g_relay_pool_n s, g_relay_pool_n := 0\<rparr>"

definition relay_pool_stop :: "(io_answer \<times> completion \<times> addr \<times> side) list \<Rightarrow> relay_pool \<Rightarrow> (fault + relay_pool) option" where
  "relay_pool_stop completions s =
     (if \<not> g_iocp s then Some (Inr s)
      else case relay_pool_abort s of
        Inl e \<Rightarrow> Some (Inl e)
      | Inr s1 \<Rightarrow> map_option (map_sum id pool_shutdown) (wait_relays_done completions s1))"

text \<open>What the system answers when a relay starts: the allocation, the association of both sockets with the port, the
  first request of each direction, and the two readings of \<open>running\<close>.\<close>

record relay_begin =
  rb_calloc :: "addr option"
  rb_assoc :: bool
  rb_up :: io_answer
  rb_down :: io_answer
  rb_running :: bool
  rb_still_running :: bool

definition new_dir :: "nat \<Rightarrow> nat \<Rightarrow> RELAY_DIR" where
  "new_dir src dst = \<lparr>d_src = src, d_dst = dst, d_buf = None, d_len = 0, d_off = 0, d_state = RS_WAIT\<rparr>"

definition first_wait :: "io_answer \<Rightarrow> addr \<Rightarrow> side \<Rightarrow> relay_pool \<Rightarrow> fault + relay_pool" where
  "first_wait an a x s = and_then (relay_post_wait an a x s) (proceed a x)"

definition relay_start :: "relay_begin \<Rightarrow> nat \<Rightarrow> nat \<Rightarrow> relay_pool \<Rightarrow> fault + bool \<times> relay_pool" where
  "relay_start rb client proxy s =
     (if \<not> g_iocp s \<or> \<not> rb_running rb then Inr (False, s)
      else case rb_calloc rb of
        None \<Rightarrow> Inr (False, s)
      | Some a \<Rightarrow>
          if \<not> rb_assoc rb then Inr (False, s)
          else if \<not> g_relay_accepting s \<or> \<not> rb_still_running rb then Inr (False, s)
          else
            let rc = \<lparr>rc_s = case_side client proxy, rc_dir = case_side (new_dir client proxy) (new_dir proxy client),
                      rc_refs = 2, rc_closing = False\<rparr>;
                s1 = s\<lparr>relay_heap := (relay_heap s)(a \<mapsto> rc), g_relay_head := a # g_relay_head s,
                       g_active_relays := g_active_relays s + 1, g_relay_done := Some False\<rparr>
            in and_then (first_wait (rb_up rb) a Upload s1) (\<lambda>s2.
               and_then (first_wait (rb_down rb) a Download s2) (\<lambda>s3. Inr (True, s3))))"

section \<open>The invariant of the pool\<close>

lemma side_UNIV: "UNIV = {Upload, Download}"
  using side.exhaust by auto

lemma finite_sides [simp]: "finite (S :: side set)"
  by (rule finite_subset [OF subset_UNIV]) (simp add: side_UNIV)

lemma opposite_simps [simp]: "opposite (opposite x) = x" "opposite x \<noteq> x" "x \<noteq> opposite x" "(opposite x = opposite y) = (x = y)"
  by (cases x; cases y; simp)+

lemma all_sides: "(\<forall>y. P y) \<longleftrightarrow> P x \<and> P (opposite x)"
  by (cases x) (metis opposite.simps side.exhaust)+

text \<open>The directions of a connection that are alive: with a request outstanding, or in the hands of a thread (\<open>H\<close>).\<close>

definition alive :: "(addr \<times> side) set \<Rightarrow> relay_pool \<Rightarrow> addr \<Rightarrow> side set" where
  "alive H s a = {x. (a, x) \<in> sys_pending s \<union> H}"

text \<open>What direction \<open>x\<close> has taken in and what it has passed on.\<close>

definition taken :: "relay_pool \<Rightarrow> RELAY_CONN \<Rightarrow> side \<Rightarrow> bytes" where
  "taken s rc x = sys_recvd s (rc_s rc x)"

definition passed :: "relay_pool \<Rightarrow> RELAY_CONN \<Rightarrow> side \<Rightarrow> bytes" where
  "passed s rc x = sys_sent s (rc_s rc (opposite x))"

text \<open>The bytes a direction holds, by what it waits for: \<open>i\<close> is what it has taken in, \<open>out\<close> what it has passed on.\<close>

definition waits :: "RELAY_DIR \<Rightarrow> bytes \<Rightarrow> bytes \<Rightarrow> bool" where
  "waits d i out \<longleftrightarrow>
     (case d_state d of
        RS_WAIT \<Rightarrow> d_buf d = None \<and> out = i
      | RS_READ \<Rightarrow> d_buf d \<noteq> None \<and> out = i
      | RS_SEND \<Rightarrow> (case d_buf d of None \<Rightarrow> False | Some b \<Rightarrow>
          length b = d_len d \<and> d_off d < d_len d \<and> d_len d \<le> RELAY_BUF_SIZE \<and> out @ drop (d_off d) b = i))"

text \<open>An orderly end of a direction has passed everything on and shut the destination's sending side.\<close>

definition dir_ok :: "(addr \<times> side) set \<Rightarrow> relay_pool \<Rightarrow> addr \<Rightarrow> RELAY_CONN \<Rightarrow> side \<Rightarrow> bool" where
  "dir_ok H s a rc x \<longleftrightarrow>
     d_src (rc_dir rc x) = rc_s rc x \<and> d_dst (rc_dir rc x) = rc_s rc (opposite x) \<and>
     prefix (passed s rc x) (taken s rc x) \<and>
     ((a, x) \<in> sys_pending s \<longrightarrow> waits (rc_dir rc x) (taken s rc x) (passed s rc x) \<and>
        (rc_closing rc \<or> rc_s rc (opposite x) \<notin> sys_fin s)) \<and>
     (x \<notin> alive H s a \<longrightarrow> rc_closing rc \<or> (rc_s rc (opposite x) \<in> sys_fin s \<and> passed s rc x = taken s rc x))"

definition conn_ok :: "(addr \<times> side) set \<Rightarrow> relay_pool \<Rightarrow> addr \<Rightarrow> RELAY_CONN \<Rightarrow> bool" where
  "conn_ok H s a rc \<longleftrightarrow> alive H s a \<noteq> {} \<and> rc_refs rc = int (card (alive H s a)) \<and>
     range (rc_s rc) \<subseteq> sys_open s \<and> inj (rc_s rc) \<and> (\<forall>x. dir_ok H s a rc x)"

definition conns_ok :: "(addr \<times> side) set \<Rightarrow> relay_pool \<Rightarrow> bool" where
  "conns_ok H s \<longleftrightarrow> (\<forall>a x. (a, x) \<in> sys_pending s \<longrightarrow> (a, x) \<notin> H \<and> a \<in> dom (relay_heap s)) \<and>
     (\<forall>a rc. relay_heap s a = Some rc \<longrightarrow> conn_ok H s a rc) \<and>
     (\<forall>a b rc rc'. relay_heap s a = Some rc \<and> relay_heap s b = Some rc' \<and> a \<noteq> b \<longrightarrow>
        range (rc_s rc) \<inter> range (rc_s rc') = {})"

text \<open>The list of connections, the counter and the event agree.\<close>

definition list_ok :: "relay_pool \<Rightarrow> bool" where
  "list_ok s \<longleftrightarrow> distinct (g_relay_head s) \<and> set (g_relay_head s) = dom (relay_heap s) \<and>
     g_active_relays s = int (length (g_relay_head s)) \<and>
     (if g_iocp s then g_relay_done s = Some (g_relay_head s = []) else g_relay_head s = [])"

text \<open>Every allocated buffer is in the pool or held by a direction.\<close>

definition bufs :: "RELAY_CONN \<Rightarrow> nat" where
  "bufs rc = (\<Sum>x \<in> UNIV. if d_buf (rc_dir rc x) = None then 0 else 1)"

definition held :: "relay_pool \<Rightarrow> nat" where
  "held s = (\<Sum>a \<in> dom (relay_heap s). bufs (the (relay_heap s a)))"

definition buf_ok :: "relay_pool \<Rightarrow> bool" where
  "buf_ok s \<longleftrightarrow> finite (dom (relay_heap s)) \<and> g_relay_pool_n s \<le> RELAY_POOL_KEEP \<and>
     sys_buffers s = g_relay_pool_n s + held s"

definition pool_ok :: "(addr \<times> side) set \<Rightarrow> relay_pool \<Rightarrow> bool" where
  "pool_ok H s \<longleftrightarrow> conns_ok H s \<and> list_ok s \<and> buf_ok s"

section \<open>Changing one connection\<close>

lemma bufs_sides: "bufs rc = (if d_buf (rc_dir rc Upload) = None then 0 else 1) + (if d_buf (rc_dir rc Download) = None then 0 else 1)"
  by (simp add: bufs_def side_UNIV)

lemma held_upd:
  assumes "finite (dom (relay_heap s))" and "relay_heap s a = Some rc" and "relay_heap s' = (relay_heap s)(a \<mapsto> rc')"
  shows "held s' + bufs rc = held s + bufs rc'"
proof -
  let ?D = "dom (relay_heap s)"
  have a: "a \<in> ?D" and d: "dom (relay_heap s') = ?D" and v: "relay_heap s' a = Some rc'" using assms by auto
  have "(\<Sum>b \<in> ?D - {a}. bufs (the (relay_heap s' b))) = (\<Sum>b \<in> ?D - {a}. bufs (the (relay_heap s b)))"
    using assms by (intro sum.cong) auto
  then show ?thesis
    using sum.remove [OF assms(1) a, of "\<lambda>b. bufs (the (relay_heap s b))"]
      sum.remove [OF assms(1) a, of "\<lambda>b. bufs (the (relay_heap s' b))"]
    by (simp add: held_def d v assms(2))
qed

lemma held_del:
  assumes "finite (dom (relay_heap s))" and "relay_heap s a = Some rc" and "relay_heap s' = (relay_heap s)(a := None)"
  shows "held s' + bufs rc = held s"
proof -
  let ?D = "dom (relay_heap s)"
  have a: "a \<in> ?D" and d: "dom (relay_heap s') = ?D - {a}" using assms by auto
  have "(\<Sum>b \<in> ?D - {a}. bufs (the (relay_heap s' b))) = (\<Sum>b \<in> ?D - {a}. bufs (the (relay_heap s b)))"
    using assms by (intro sum.cong) auto
  then show ?thesis
    using assms sum.remove [OF assms(1) a, of "\<lambda>b. bufs (the (relay_heap s b))"] by (simp add: held_def d)
qed

lemma held_new:
  assumes "finite (dom (relay_heap s))" and "relay_heap s a = None" and "relay_heap s' = (relay_heap s)(a \<mapsto> rc)"
  shows "held s' = held s + bufs rc"
proof -
  have a: "a \<notin> dom (relay_heap s)" and d: "dom (relay_heap s') = insert a (dom (relay_heap s))" using assms by auto
  have "(\<Sum>b \<in> dom (relay_heap s). bufs (the (relay_heap s' b))) = held s"
    unfolding held_def using assms by (intro sum.cong) auto
  then show ?thesis using assms a by (simp add: held_def [of s'] d)
qed

text \<open>\<open>same_elsewhere a S s s'\<close>: only the connection at \<open>a\<close>, its requests and what concerns the sockets \<open>S\<close> differ.\<close>

definition same_elsewhere :: "addr \<Rightarrow> nat set \<Rightarrow> relay_pool \<Rightarrow> relay_pool \<Rightarrow> bool" where
  "same_elsewhere a S s s' \<longleftrightarrow> (\<forall>b. b \<noteq> a \<longrightarrow> relay_heap s' b = relay_heap s b) \<and>
     (\<forall>b x. b \<noteq> a \<longrightarrow> ((b, x) \<in> sys_pending s') = ((b, x) \<in> sys_pending s)) \<and>
     (\<forall>h. h \<notin> S \<longrightarrow> sys_recvd s' h = sys_recvd s h \<and> sys_sent s' h = sys_sent s h \<and>
        (h \<in> sys_fin s') = (h \<in> sys_fin s) \<and> (h \<in> sys_open s') = (h \<in> sys_open s))"

lemma conn_ok_cong:
  assumes "same_elsewhere a S s s'" and "b \<noteq> a" and "range (rc_s rc) \<inter> S = {}"
    and "\<And>y. ((b, y) \<in> H') = ((b, y) \<in> H)"
  shows "conn_ok H' s' b rc = conn_ok H s b rc"
proof -
  have l: "alive H' s' b = alive H s b" "\<And>x. ((b, x) \<in> sys_pending s') = ((b, x) \<in> sys_pending s)"
    using assms(1,2,4) by (auto simp: same_elsewhere_def alive_def)
  have n: "rc_s rc x \<notin> S" for x using assms(3) by auto
  have t: "taken s' rc x = taken s rc x" "passed s' rc x = passed s rc x"
      "(rc_s rc x \<in> sys_fin s') = (rc_s rc x \<in> sys_fin s)" "(rc_s rc x \<in> sys_open s') = (rc_s rc x \<in> sys_open s)" for x
    using assms(1) n by (simp_all add: same_elsewhere_def taken_def passed_def)
  have "dir_ok H' s' b rc x = dir_ok H s b rc x" for x
    by (simp add: dir_ok_def l t)
  then show ?thesis by (auto simp: conn_ok_def l t image_subset_iff)
qed

lemma conns_okD:
  assumes "conns_ok H s" and "relay_heap s a = Some rc"
  shows "conn_ok H s a rc" "alive H s a \<noteq> {}" "rc_refs rc = int (card (alive H s a))" "inj (rc_s rc)"
    "rc_s rc x \<in> sys_open s" "dir_ok H s a rc x" "rc_s rc x \<noteq> rc_s rc (opposite x)"
    "d_src (rc_dir rc x) = rc_s rc x" "d_dst (rc_dir rc x) = rc_s rc (opposite x)"
proof -
  show c: "conn_ok H s a rc" using assms by (auto simp: conns_ok_def)
  then show "alive H s a \<noteq> {}" "rc_refs rc = int (card (alive H s a))" "inj (rc_s rc)" "rc_s rc x \<in> sys_open s" "dir_ok H s a rc x"
    by (auto simp: conn_ok_def)
  then show "rc_s rc x \<noteq> rc_s rc (opposite x)" "d_src (rc_dir rc x) = rc_s rc x" "d_dst (rc_dir rc x) = rc_s rc (opposite x)"
    by (simp_all add: dir_ok_def inj_eq)
qed

lemma conns_ok_disjoint:
  "conns_ok H s \<Longrightarrow> relay_heap s a = Some rc \<Longrightarrow> relay_heap s b = Some rc' \<Longrightarrow> a \<noteq> b \<Longrightarrow> range (rc_s rc) \<inter> range (rc_s rc') = {}"
  unfolding conns_ok_def by blast

lemma conns_ok_pending:
  assumes "conns_ok H s" and "(a, x) \<in> sys_pending s"
  shows "\<exists>rc. relay_heap s a = Some rc" "(a, x) \<notin> H"
  using assms unfolding conns_ok_def by blast+

lemma conns_ok_upd:
  assumes "conns_ok H s" and "relay_heap s a = Some rc" and "relay_heap s' a = Some rc'" and "rc_s rc' = rc_s rc"
    and e: "same_elsewhere a (range (rc_s rc)) s s'" and "\<And>b y. b \<noteq> a \<Longrightarrow> ((b, y) \<in> H') = ((b, y) \<in> H)"
    and "\<And>y. (a, y) \<in> sys_pending s' \<Longrightarrow> (a, y) \<notin> H'" and "conn_ok H' s' a rc'"
  shows "conns_ok H' s'"
proof -
  have ok: "conn_ok H' s' b r" if "relay_heap s' b = Some r" for b r
  proof (cases "b = a")
    case False
    then have r: "relay_heap s b = Some r" using that e by (simp add: same_elsewhere_def)
    then have "range (rc_s r) \<inter> range (rc_s rc) = {}" using conns_ok_disjoint [OF assms(1) _ assms(2) False] by simp
    then show ?thesis
      using conn_ok_cong [OF e False _ assms(6) [OF False]] conns_okD(1) [OF assms(1) r] by blast
  qed (use assms(3,8) that in simp)
  have old: "\<exists>r0. relay_heap s b = Some r0 \<and> rc_s r0 = rc_s r" if "relay_heap s' b = Some r" for b r
    using that e assms(2-4) by (cases "b = a") (auto simp: same_elsewhere_def)
  have dis: "range (rc_s r1) \<inter> range (rc_s r2) = {}" if "relay_heap s' b = Some r1" "relay_heap s' c = Some r2" "b \<noteq> c" for b c r1 r2
  proof -
    from old [OF that(1)] old [OF that(2)]
    obtain q1 q2 where "relay_heap s b = Some q1" "rc_s q1 = rc_s r1" "relay_heap s c = Some q2" "rc_s q2 = rc_s r2"
      by blast
    then show ?thesis using conns_ok_disjoint [OF assms(1) _ _ that(3)] by metis
  qed
  have "(b, y) \<notin> H' \<and> b \<in> dom (relay_heap s')" if "(b, y) \<in> sys_pending s'" for b y
  proof (cases "b = a")
    case False
    then show ?thesis
      using that e conns_ok_pending [OF assms(1), of b y] assms(6) by (auto simp: same_elsewhere_def)
  qed (use that assms(3,7) in auto)
  then show ?thesis using ok dis unfolding conns_ok_def by metis
qed

lemma conns_ok_del:
  assumes "conns_ok H s" and "relay_heap s a = Some rc" and "relay_heap s' a = None"
    and e: "same_elsewhere a (range (rc_s rc)) s s'" and "\<And>b y. ((b, y) \<in> H') = ((b, y) \<in> H \<and> b \<noteq> a)"
    and "\<And>y. (a, y) \<notin> sys_pending s'"
  shows "conns_ok H' s'"
proof -
  have old: "b \<noteq> a \<and> relay_heap s b = Some r" if "relay_heap s' b = Some r" for b r
    using that e assms(3) by (cases "b = a") (auto simp: same_elsewhere_def)
  have ok: "conn_ok H' s' b r" if "relay_heap s' b = Some r" for b r
  proof -
    have r: "relay_heap s b = Some r" "b \<noteq> a" using old that by auto
    then have "range (rc_s r) \<inter> range (rc_s rc) = {}" using conns_ok_disjoint [OF assms(1) _ assms(2)] by simp
    then show ?thesis
      using conn_ok_cong [OF e r(2)] conns_okD(1) [OF assms(1) r(1)] assms(5) r(2) by blast
  qed
  have "(b, y) \<notin> H' \<and> b \<in> dom (relay_heap s')" if "(b, y) \<in> sys_pending s'" for b y
  proof -
    have "b \<noteq> a" using that assms(6) by blast
    then show ?thesis using that e conns_ok_pending [OF assms(1), of b y] assms(5) by (auto simp: same_elsewhere_def)
  qed
  moreover have "range (rc_s r1) \<inter> range (rc_s r2) = {}"
    if "relay_heap s' b = Some r1" "relay_heap s' c = Some r2" "b \<noteq> c" for b c r1 r2
    using old [OF that(1)] old [OF that(2)] conns_ok_disjoint [OF assms(1) _ _ that(3)] by simp
  ultimately show ?thesis using ok unfolding conns_ok_def by metis
qed

section \<open>Ending a direction keeps the invariant\<close>

lemma buf_put_simps [simp]:
  "relay_heap (relay_buf_put b s) = relay_heap s" "g_relay_head (relay_buf_put b s) = g_relay_head s"
  "g_active_relays (relay_buf_put b s) = g_active_relays s" "g_relay_done (relay_buf_put b s) = g_relay_done s"
  "g_iocp (relay_buf_put b s) = g_iocp s" "sys_open (relay_buf_put b s) = sys_open s" "sys_recvd (relay_buf_put b s) = sys_recvd s"
  "sys_sent (relay_buf_put b s) = sys_sent s" "sys_fin (relay_buf_put b s) = sys_fin s" "sys_pending (relay_buf_put b s) = sys_pending s"
  "g_relay_accepting (relay_buf_put b s) = g_relay_accepting s"
  by (simp_all add: relay_buf_put_def)

text \<open>A buffer given back moves from the holders to the pool, or out of memory.\<close>

lemma buf_put_balance:
  assumes "g_relay_pool_n s \<le> RELAY_POOL_KEEP" and "sys_buffers s = g_relay_pool_n s + (if b = None then 0 else 1) + n"
  shows "g_relay_pool_n (relay_buf_put b s) \<le> RELAY_POOL_KEEP" "sys_buffers (relay_buf_put b s) = g_relay_pool_n (relay_buf_put b s) + n"
  using assms by (auto simp: relay_buf_put_def)

text \<open>A direction in hand may end when it has passed everything on and shut its destination, or is aborted.\<close>

definition may_end :: "relay_pool \<Rightarrow> RELAY_CONN \<Rightarrow> side \<Rightarrow> bool" where
  "may_end s rc x \<longleftrightarrow> rc_closing rc \<or> (rc_s rc (opposite x) \<in> sys_fin s \<and> passed s rc x = taken s rc x)"

lemma alive_end:
  assumes "(a, x) \<in> H" and "conns_ok H s"
  shows "alive (H - {(a, x)}) s a = alive H s a - {x}" "x \<in> alive H s a"
  using assms conns_ok_pending(2) [OF assms(2), of a x] by (auto simp: alive_def)

lemma relay_abort_ok:
  assumes "pool_ok H s" and "relay_heap s a = Some rc"
  obtains s' where "relay_abort a s = Inr s'" and "pool_ok H s'" and "relay_heap s' = (relay_heap s)(a \<mapsto> rc\<lparr>rc_closing := True\<rparr>)"
    and "sys_pending s' = sys_pending s" and "g_relay_head s' = g_relay_head s"
proof (cases "rc_closing rc")
  case True
  then have "rc\<lparr>rc_closing := True\<rparr> = rc" by simp
  then show ?thesis using that [of s] assms True by (simp add: relay_abort_def with_conn_def fun_upd_idem)
next
  case False
  let ?rc = "rc\<lparr>rc_closing := True\<rparr>"
  let ?s = "s\<lparr>relay_heap := (relay_heap s)(a \<mapsto> ?rc), sys_fin := insert (rc_s rc Upload) (insert (rc_s rc Download) (sys_fin s))\<rparr>"
  have c: "conns_ok H s" and l: "list_ok s" and b: "buf_ok s" using assms(1) by (simp_all add: pool_ok_def)
  have d: "dir_ok H s a rc x" for x using conns_okD(6) [OF c assms(2)] .
  have "dir_ok H ?s a ?rc x" for x
    using d [of x] by (auto simp: dir_ok_def taken_def passed_def alive_def)
  then have "conn_ok H ?s a ?rc"
    using conns_okD(1) [OF c assms(2)] by (simp add: conn_ok_def alive_def)
  moreover have "same_elsewhere a (range (rc_s rc)) s ?s" by (auto simp: same_elsewhere_def)
  ultimately have "conns_ok H ?s"
    using conns_ok_upd [OF c assms(2), of ?s ?rc H] conns_ok_pending(2) [OF c] by simp
  moreover have "list_ok ?s" using l assms(2) by (auto simp: list_ok_def)
  moreover have "buf_ok ?s"
    using b held_upd [OF _ assms(2), of ?s ?rc] by (simp add: buf_ok_def bufs_def insert_absorb domI assms(2))
  ultimately show ?thesis
    using that [of ?s] assms(2) False by (simp add: relay_abort_def with_conn_def pool_ok_def)
qed

lemma dir_ok_drop:
  assumes "dir_ok H s a rc y" and "y \<noteq> x" and "sys_pending s' = sys_pending s" and "sys_recvd s' = sys_recvd s"
    and "sys_sent s' = sys_sent s" and "sys_fin s' = sys_fin s"
  shows "dir_ok (H - {(a, x)}) s' a (rc\<lparr>rc_refs := n\<rparr>) y"
  using assms by (simp add: dir_ok_def taken_def passed_def alive_def)

lemma relay_release_ok:
  assumes "pool_ok H s" and "relay_heap s a = Some rc" and "(a, x) \<in> H" and "may_end s rc x"
  obtains s' where "relay_release a s = Inr s'" and "pool_ok (H - {(a, x)}) s'" and "sys_pending s' = sys_pending s"
proof -
  have c: "conns_ok H s" and l: "list_ok s" and b: "buf_ok s" using assms(1) by (simp_all add: pool_ok_def)
  note cd = conns_okD [OF c assms(2)]
  note live = alive_end [OF assms(3) c]
  have refs: "rc_refs rc - 1 = int (card (alive (H - {(a, x)}) s a))"
    using cd(3) live by (simp add: card_Diff_singleton card_gt_0_iff of_nat_diff Suc_leI cd(2))
  show ?thesis
  proof (cases "rc_refs rc - 1 = 0")
    case False
    let ?rc = "rc\<lparr>rc_refs := rc_refs rc - 1\<rparr>"
    let ?s = "s\<lparr>relay_heap := (relay_heap s)(a \<mapsto> ?rc)\<rparr>"
    have "dir_ok (H - {(a, x)}) ?s a ?rc x"
      using cd(6) [of x] conns_ok_pending(2) [OF c] assms(3,4)
      by (auto simp: dir_ok_def may_end_def taken_def passed_def alive_def)
    moreover have "dir_ok (H - {(a, x)}) ?s a ?rc (opposite x)"
      by (rule dir_ok_drop [OF cd(6)]) simp_all
    ultimately have d: "dir_ok (H - {(a, x)}) ?s a ?rc y" for y by (metis all_sides)
    have "alive (H - {(a, x)}) ?s a = alive (H - {(a, x)}) s a" by (simp add: alive_def)
    then have "conn_ok (H - {(a, x)}) ?s a ?rc"
      using d False refs cd(1) by (auto simp: conn_ok_def)
    then have "conns_ok (H - {(a, x)}) ?s"
      using conns_ok_upd [OF c assms(2), of ?s ?rc "H - {(a, x)}"] conns_ok_pending(2) [OF c] by (simp add: same_elsewhere_def)
    moreover have "list_ok ?s" using l assms(2) by (auto simp: list_ok_def)
    moreover have "buf_ok ?s"
      using b held_upd [OF _ assms(2), of ?s ?rc] by (simp add: buf_ok_def bufs_def insert_absorb domI assms(2))
    ultimately show ?thesis
      using that [of ?s] assms(2) False by (simp add: relay_release_def with_conn_def pool_ok_def Let_def)
  next
    case True
    let ?s1 = "s\<lparr>g_relay_head := remove1 a (g_relay_head s), g_active_relays := g_active_relays s - 1,
      g_relay_done := (if g_active_relays s - 1 = 0 then Some True else g_relay_done s)\<rparr>"
    let ?s3 = "?s1\<lparr>sys_open := sys_open s - {rc_s rc Upload} - {rc_s rc Download}\<rparr>"
    let ?s4 = "relay_buf_put (d_buf (rc_dir rc Download)) (relay_buf_put (d_buf (rc_dir rc Upload)) ?s3)"
    let ?s = "?s4\<lparr>relay_heap := (relay_heap s)(a := None)\<rparr>"
    have run: "relay_release a s = Inr ?s"
      using True assms(2) cd(5) [of Upload] cd(5) [of Download] cd(7) [of Upload]
      by (simp add: relay_release_def with_conn_def Let_def closesocket_def)
    have gone: "alive (H - {(a, x)}) s a = {}" using True refs by simp
    then have h: "(b, y) \<in> H - {(a, x)} \<longleftrightarrow> (b, y) \<in> H \<and> b \<noteq> a" for b y by (auto simp: alive_def)
    have "range (rc_s rc) = {rc_s rc Upload, rc_s rc Download}" by (auto simp: side_UNIV)
    then have "same_elsewhere a (range (rc_s rc)) s ?s" by (auto simp: same_elsewhere_def)
    then have cs: "conns_ok (H - {(a, x)}) ?s"
      using conns_ok_del [OF c assms(2), of ?s "H - {(a, x)}"] h gone by (auto simp: alive_def)
    have len: "length (g_relay_head s) = Suc (length (remove1 a (g_relay_head s)))"
      using l assms(2) by (simp add: list_ok_def length_remove1) (metis domI length_pos_if_in_set Suc_pred)
    then have ls: "list_ok ?s"
      using l assms(2) by (auto simp: list_ok_def)
    have "sys_buffers ?s3 = g_relay_pool_n ?s3 + (if d_buf (rc_dir rc Upload) = None then 0 else 1) +
        ((if d_buf (rc_dir rc Download) = None then 0 else 1) + held ?s)"
      using b held_del [OF _ assms(2), of ?s] bufs_sides [of rc] by (simp add: buf_ok_def)
    note p1 = buf_put_balance [OF _ this]
    have "buf_ok ?s"
      using b p1 buf_put_balance [of "relay_buf_put (d_buf (rc_dir rc Upload)) ?s3" "d_buf (rc_dir rc Download)" "held ?s"]
      by (simp add: buf_ok_def)
    with cs ls run show ?thesis using that [of ?s] by (simp add: pool_ok_def)
  qed
qed

lemma relay_dir_end_ok:
  assumes "pool_ok H s" and "relay_heap s a = Some rc" and "(a, x) \<in> H" and "clean \<Longrightarrow> passed s rc x = taken s rc x"
  obtains s' where "relay_dir_end a x clean s = Inr s'" and "pool_ok (H - {(a, x)}) s'" and "sys_pending s' = sys_pending s"
proof (cases clean)
  case True
  have c: "conns_ok H s" and l: "list_ok s" and b: "buf_ok s" using assms(1) by (simp_all add: pool_ok_def)
  note cd = conns_okD [OF c assms(2)]
  let ?s = "s\<lparr>sys_fin := insert (rc_s rc (opposite x)) (sys_fin s)\<rparr>"
  have "dir_ok H ?s a rc x" "dir_ok H ?s a rc (opposite x)"
    using cd(6) [of x] cd(6) [of "opposite x"] cd(7) [of x] conns_ok_pending(2) [OF c, of a x] assms(3)
    by (auto simp: dir_ok_def taken_def passed_def alive_def)
  then have "dir_ok H ?s a rc y" for y by (metis all_sides)
  then have "conn_ok H ?s a rc" using cd(1) by (simp add: conn_ok_def alive_def)
  then have "conns_ok H ?s"
    using conns_ok_upd [OF c assms(2), of ?s rc H] conns_ok_pending(2) [OF c] assms(2) by (auto simp: same_elsewhere_def)
  then have p: "pool_ok H ?s" using l b by (simp add: pool_ok_def list_ok_def buf_ok_def held_def)
  have "may_end ?s rc x" using assms(4) [OF True] by (simp add: may_end_def taken_def passed_def)
  then obtain s' where "relay_release a ?s = Inr s'" "pool_ok (H - {(a, x)}) s'" "sys_pending s' = sys_pending ?s"
    using relay_release_ok [OF p _ assms(3), of rc] assms(2) by auto
  then show ?thesis using that [of s'] True assms(2) cd(9) by (simp add: relay_dir_end_def with_conn_def)
next
  case False
  obtain s1 where s1: "relay_abort a s = Inr s1" "pool_ok H s1" "relay_heap s1 = (relay_heap s)(a \<mapsto> rc\<lparr>rc_closing := True\<rparr>)"
      "sys_pending s1 = sys_pending s"
    using relay_abort_ok [OF assms(1,2)] .
  have "may_end s1 (rc\<lparr>rc_closing := True\<rparr>) x" by (simp add: may_end_def)
  then obtain s' where "relay_release a s1 = Inr s'" "pool_ok (H - {(a, x)}) s'" "sys_pending s' = sys_pending s1"
    using relay_release_ok [OF s1(2) _ assms(3), of "rc\<lparr>rc_closing := True\<rparr>"] s1(3) by auto
  then show ?thesis using that [of s'] False assms(2) s1(1,4) by (simp add: relay_dir_end_def with_conn_def)
qed

section \<open>Posting a request keeps the invariant\<close>

lemma set_dir_simps [simp]:
  "g_relay_head (set_dir a x f s) = g_relay_head s" "g_active_relays (set_dir a x f s) = g_active_relays s"
  "g_relay_done (set_dir a x f s) = g_relay_done s" "g_iocp (set_dir a x f s) = g_iocp s" "sys_open (set_dir a x f s) = sys_open s"
  "sys_recvd (set_dir a x f s) = sys_recvd s" "sys_sent (set_dir a x f s) = sys_sent s" "sys_fin (set_dir a x f s) = sys_fin s"
  "sys_pending (set_dir a x f s) = sys_pending s" "g_relay_pool_n (set_dir a x f s) = g_relay_pool_n s"
  "sys_buffers (set_dir a x f s) = sys_buffers s" "dom (relay_heap (set_dir a x f s)) = dom (relay_heap s)"
  by (auto simp: set_dir_def split: if_splits)

lemma set_dir_flow [simp]: "taken (set_dir a x f s) = taken s" "passed (set_dir a x f s) = passed s"
  by (simp_all add: taken_def passed_def fun_eq_iff)

definition put_dir :: "side \<Rightarrow> RELAY_DIR \<Rightarrow> RELAY_CONN \<Rightarrow> RELAY_CONN" where
  "put_dir x d rc = rc\<lparr>rc_dir := (rc_dir rc)(x := d)\<rparr>"

lemma put_dir_simps [simp]:
  "rc_s (put_dir x d rc) = rc_s rc" "rc_refs (put_dir x d rc) = rc_refs rc" "rc_closing (put_dir x d rc) = rc_closing rc"
  "rc_dir (put_dir x d rc) = (rc_dir rc)(x := d)" "taken s (put_dir x d rc) = taken s rc" "passed s (put_dir x d rc) = passed s rc"
  by (simp_all add: put_dir_def taken_def passed_def fun_eq_iff)

lemma set_dir_heap:
  "relay_heap s a = Some rc \<Longrightarrow> relay_heap (set_dir a x f s) = (relay_heap s)(a \<mapsto> put_dir x (f (rc_dir rc x)) rc)"
  by (simp add: set_dir_def put_dir_def)

text \<open>Any change of a direction in hand that keeps its sockets, on top of a change of buffers.\<close>

lemma set_dir_ok:
  assumes "conns_ok H s" and "list_ok s" and "relay_heap s a = Some rc" and "(a, x) \<in> H"
    and "d_src (f (rc_dir rc x)) = d_src (rc_dir rc x)" and "d_dst (f (rc_dir rc x)) = d_dst (rc_dir rc x)"
  shows "conns_ok H (set_dir a x f s)" "list_ok (set_dir a x f s)"
proof -
  let ?rc = "put_dir x (f (rc_dir rc x)) rc" and ?s = "set_dir a x f s"
  note cd = conns_okD [OF assms(1,3)]
  have h: "relay_heap ?s = (relay_heap s)(a \<mapsto> ?rc)" using set_dir_heap [OF assms(3)] .
  have "dir_ok H ?s a ?rc x" "dir_ok H ?s a ?rc (opposite x)"
    using cd(6) [of x] cd(6) [of "opposite x"] conns_ok_pending(2) [OF assms(1), of a x] assms(4-6)
    by (auto simp: dir_ok_def alive_def taken_def passed_def)
  then have "dir_ok H ?s a ?rc y" for y by (metis all_sides)
  then have "conn_ok H ?s a ?rc" using cd(1) by (simp add: conn_ok_def alive_def)
  then show "conns_ok H ?s"
    using conns_ok_upd [OF assms(1,3), of ?s ?rc H] conns_ok_pending(2) [OF assms(1)] h by (simp add: same_elsewhere_def)
  show "list_ok ?s" using assms(2) by (simp add: list_ok_def)
qed

lemma buf_ok_set_dir:
  assumes "finite (dom (relay_heap s))" and "relay_heap s a = Some rc" and "g_relay_pool_n s \<le> RELAY_POOL_KEEP"
    and "sys_buffers s + (if d_buf (rc_dir rc x) = None then 0 else 1) =
      g_relay_pool_n s + held s + (if d_buf (f (rc_dir rc x)) = None then 0 else 1)"
  shows "buf_ok (set_dir a x f s)"
proof -
  let ?rc = "put_dir x (f (rc_dir rc x)) rc"
  have "bufs ?rc + (if d_buf (rc_dir rc x) = None then 0 else 1) = bufs rc + (if d_buf (f (rc_dir rc x)) = None then 0 else 1)"
    by (cases x) (simp_all add: bufs_sides)
  then show ?thesis
    using assms held_upd [OF assms(1,2) set_dir_heap [OF assms(2)], of x f] by (simp add: buf_ok_def)
qed

lemma posted_ok:
  assumes "pool_ok H s" and "relay_heap s a = Some rc" and "(a, x) \<in> H"
    and "waits (rc_dir rc x) (taken s rc x) (passed s rc x)" and "rc_closing rc \<or> rc_s rc (opposite x) \<notin> sys_fin s"
    and "posted an a x s = (ok, s')"
  shows "if ok then pool_ok (H - {(a, x)}) s' \<and> sys_pending s' = insert (a, x) (sys_pending s) else s' = s"
proof (cases ok)
  case True
  then have s': "s' = s\<lparr>sys_pending := insert (a, x) (sys_pending s)\<rparr>" using assms(6) by (simp add: posted_def split: if_splits)
  have c: "conns_ok H s" using assms(1) by (simp add: pool_ok_def)
  note cd = conns_okD [OF c assms(2)]
  have al: "alive (H - {(a, x)}) s' a = alive H s a" using assms(3) by (auto simp: alive_def s')
  then have "dir_ok (H - {(a, x)}) s' a rc x" "dir_ok (H - {(a, x)}) s' a rc (opposite x)"
    using cd(6) [of x] cd(6) [of "opposite x"] assms(4,5) unfolding s'
    by (auto simp: dir_ok_def taken_def passed_def)
  then have "dir_ok (H - {(a, x)}) s' a rc y" for y by (metis all_sides)
  then have "conn_ok (H - {(a, x)}) s' a rc" using cd(1) al by (simp add: conn_ok_def s')
  then have "conns_ok (H - {(a, x)}) s'"
    using conns_ok_upd [OF c assms(2), of s' rc "H - {(a, x)}"] conns_ok_pending(2) [OF c] assms(2)
    by (auto simp: same_elsewhere_def s')
  then show ?thesis using True assms(1) by (simp add: pool_ok_def list_ok_def buf_ok_def held_def s')
qed (use assms(6) in \<open>simp add: posted_def split: if_splits\<close>)

lemma proceed_posted:
  assumes "pool_ok H s" and "relay_heap s a = Some rc" and "(a, x) \<in> H"
    and "waits (rc_dir rc x) (taken s rc x) (passed s rc x)" and "rc_closing rc \<or> rc_s rc (opposite x) \<notin> sys_fin s"
  obtains s' where "proceed a x (posted an a x s) = Inr s'" and "pool_ok (H - {(a, x)}) s'"
    and "sys_pending s' \<subseteq> insert (a, x) (sys_pending s)"
proof -
  obtain ok s1 where p: "posted an a x s = (ok, s1)" by force
  show ?thesis
  proof (cases ok)
    case True
    then show ?thesis using that [of s1] p posted_ok [OF assms p] by (simp add: proceed_def)
  next
    case False
    then have "s1 = s" using posted_ok [OF assms p] by simp
    moreover obtain s' where "relay_dir_end a x False s = Inr s'" "pool_ok (H - {(a, x)}) s'" "sys_pending s' = sys_pending s"
      by (rule relay_dir_end_ok [OF assms(1-3), of False]) auto
    ultimately show ?thesis using that [of s'] p False by (auto simp: proceed_def)
  qed
qed

lemma buf_get_simps:
  assumes "relay_buf_get m s = (ok, s')"
  shows "relay_heap s' = relay_heap s" "g_relay_head s' = g_relay_head s" "g_active_relays s' = g_active_relays s"
    "g_relay_done s' = g_relay_done s" "g_iocp s' = g_iocp s" "sys_open s' = sys_open s" "sys_recvd s' = sys_recvd s"
    "sys_sent s' = sys_sent s" "sys_fin s' = sys_fin s" "sys_pending s' = sys_pending s"
    "\<not> ok \<Longrightarrow> s' = s"
    "ok \<Longrightarrow> g_relay_pool_n s \<le> RELAY_POOL_KEEP \<Longrightarrow> g_relay_pool_n s' \<le> RELAY_POOL_KEEP \<and>
       sys_buffers s' + g_relay_pool_n s = sys_buffers s + g_relay_pool_n s' + 1"
  using assms by (auto simp: relay_buf_get_def split: if_splits)

text \<open>States that differ in their buffers only.\<close>

lemma conns_list_cong:
  assumes "relay_heap s' = relay_heap s" "g_relay_head s' = g_relay_head s" "g_active_relays s' = g_active_relays s"
    "g_relay_done s' = g_relay_done s" "g_iocp s' = g_iocp s" "sys_open s' = sys_open s" "sys_recvd s' = sys_recvd s"
    "sys_sent s' = sys_sent s" "sys_fin s' = sys_fin s" "sys_pending s' = sys_pending s"
  shows "conns_ok H s' = conns_ok H s" "list_ok s' = list_ok s" "held s' = held s" "taken s' = taken s" "passed s' = passed s"
proof -
  have t: "taken s' = taken s" "passed s' = passed s" using assms by (simp_all add: taken_def passed_def fun_eq_iff)
  have a: "alive H s' = alive H s" by (simp add: alive_def assms fun_eq_iff)
  show "conns_ok H s' = conns_ok H s" by (simp add: conns_ok_def conn_ok_def dir_ok_def t a assms)
  show "list_ok s' = list_ok s" "held s' = held s" by (simp_all add: list_ok_def held_def assms)
qed (use assms in \<open>simp_all add: taken_def passed_def fun_eq_iff\<close>)

definition idle_ok :: "relay_pool \<Rightarrow> RELAY_CONN \<Rightarrow> side \<Rightarrow> bool" where
  "idle_ok s rc x \<longleftrightarrow> passed s rc x = taken s rc x \<and> (rc_closing rc \<or> rc_s rc (opposite x) \<notin> sys_fin s)"

lemma post_wait_ok:
  assumes "pool_ok H s" and "relay_heap s a = Some rc" and "(a, x) \<in> H" and "idle_ok s rc x"
  obtains s' where "and_then (relay_post_wait an a x s) (proceed a x) = Inr s'" and "pool_ok (H - {(a, x)}) s'"
    and "sys_pending s' \<subseteq> insert (a, x) (sys_pending s)"
proof -
  let ?b = "relay_buf_put (d_buf (rc_dir rc x)) s" and ?f = "\<lambda>d. d\<lparr>d_buf := None, d_state := RS_WAIT\<rparr>"
  let ?s = "set_dir a x ?f ?b"
  note same = conns_list_cong [of ?b s, simplified]
  have p: "conns_ok H s" "list_ok s" "buf_ok s" using assms(1) by (simp_all add: pool_ok_def)
  have rc: "relay_heap ?b a = Some rc" using assms(2) by simp
  note sd = set_dir_ok [of H ?b a rc x ?f]
  have h: "held s = (if d_buf (rc_dir rc x) = None then 0 else 1) + (held s - (if d_buf (rc_dir rc x) = None then 0 else 1))"
  proof -
    have "bufs rc \<le> held s"
      using held_del [of s a rc "s\<lparr>relay_heap := (relay_heap s)(a := None)\<rparr>"] p(3) assms(2) by (simp add: buf_ok_def)
    then show ?thesis by (cases x) (auto simp: bufs_sides)
  qed
  have "buf_ok ?s"
    using buf_put_balance [of s "d_buf (rc_dir rc x)" "held s - (if d_buf (rc_dir rc x) = None then 0 else 1)"] h p(3) same
    by (intro buf_ok_set_dir [OF _ rc]) (auto simp: buf_ok_def split: if_splits)
  then have ok: "pool_ok H ?s" using sd same p rc assms(3) by (simp add: pool_ok_def)
  have hp: "relay_heap ?s a = Some (put_dir x (?f (rc_dir rc x)) rc)" using set_dir_heap [OF rc] by simp
  show ?thesis
    by (rule proceed_posted [OF ok hp assms(3), of an])
      (use assms(2,4) same in \<open>auto simp: waits_def idle_ok_def relay_post_wait_def with_conn_def taken_def passed_def intro!: that\<close>)
qed

lemma post_read_ok:
  assumes "pool_ok H s" and "relay_heap s a = Some rc" and "(a, x) \<in> H" and "idle_ok s rc x"
  obtains s' where "and_then (relay_post_read an a x s) (proceed a x) = Inr s'" and "pool_ok (H - {(a, x)}) s'"
    and "sys_pending s' \<subseteq> insert (a, x) (sys_pending s)"
proof -
  have p: "conns_ok H s" "list_ok s" "buf_ok s" using assms(1) by (simp_all add: pool_ok_def)
  let ?f = "\<lambda>d. d\<lparr>d_buf := (if d_buf d = None then Some [] else d_buf d), d_state := RS_READ\<rparr>"
  obtain got s1 where g: "(if d_buf (rc_dir rc x) = None then relay_buf_get (an_malloc an) s else (True, s)) = (got, s1)" by force
  have same: "conns_ok H s1 = conns_ok H s" "list_ok s1 = list_ok s" "held s1 = held s" "taken s1 = taken s" "passed s1 = passed s"
      "relay_heap s1 = relay_heap s" "sys_pending s1 = sys_pending s" "sys_fin s1 = sys_fin s"
    using g conns_list_cong [of s1 s] buf_get_simps [of "an_malloc an" s got s1] by (auto split: if_splits)
  show ?thesis
  proof (cases got)
    case True
    let ?s = "set_dir a x ?f s1"
    have rc: "relay_heap s1 a = Some rc" using assms(2) same by simp
    have "g_relay_pool_n s1 \<le> RELAY_POOL_KEEP \<and> sys_buffers s1 + g_relay_pool_n s + (if d_buf (rc_dir rc x) = None then 0 else 1) =
        sys_buffers s + g_relay_pool_n s1 + 1"
      using g True p(3) buf_get_simps(12) [of "an_malloc an" s got s1] by (auto simp: buf_ok_def split: if_splits)
    then have "buf_ok ?s" using p(3) same by (intro buf_ok_set_dir [OF _ rc]) (auto simp: buf_ok_def split: if_splits)
    then have ok: "pool_ok H ?s" using set_dir_ok [of H s1 a rc x ?f] same p rc assms(3) by (simp add: pool_ok_def)
    have hp: "relay_heap ?s a = Some (put_dir x (?f (rc_dir rc x)) rc)" using set_dir_heap [OF rc] by simp
    show ?thesis
      by (rule proceed_posted [OF ok hp assms(3), of an])
        (use assms(2,4) g True same(4-8) in \<open>auto simp: waits_def idle_ok_def relay_post_read_def with_conn_def intro!: that\<close>)
  next
    case False
    then have "s1 = s" using g buf_get_simps(11) [of "an_malloc an" s got s1] by (auto split: if_splits)
    moreover obtain s' where "relay_dir_end a x False s = Inr s'" "pool_ok (H - {(a, x)}) s'" "sys_pending s' = sys_pending s"
      by (rule relay_dir_end_ok [OF assms(1-3), of False]) auto
    ultimately show ?thesis
      using that [of s'] g False assms(2) by (auto simp: relay_post_read_def with_conn_def proceed_def)
  qed
qed

lemma post_send_ok:
  assumes "pool_ok H s" and "relay_heap s a = Some rc" and "(a, x) \<in> H" and "rc_closing rc \<or> rc_s rc (opposite x) \<notin> sys_fin s"
    and "waits ((rc_dir rc x)\<lparr>d_state := RS_SEND\<rparr>) (taken s rc x) (passed s rc x)"
  obtains s' where "and_then (relay_post_send an a x s) (proceed a x) = Inr s'" and "pool_ok (H - {(a, x)}) s'"
    and "sys_pending s' \<subseteq> insert (a, x) (sys_pending s)"
proof -
  let ?f = "\<lambda>d. d\<lparr>d_state := RS_SEND\<rparr>"
  let ?s = "set_dir a x ?f s"
  have p: "conns_ok H s" "list_ok s" "buf_ok s" using assms(1) by (simp_all add: pool_ok_def)
  have "buf_ok ?s" using p(3) by (intro buf_ok_set_dir [OF _ assms(2)]) (auto simp: buf_ok_def)
  then have ok: "pool_ok H ?s" using set_dir_ok [of H s a rc x ?f] p assms(2,3) by (simp add: pool_ok_def)
  have hp: "relay_heap ?s a = Some (put_dir x (?f (rc_dir rc x)) rc)" using set_dir_heap [OF assms(2)] by simp
  show ?thesis
    by (rule proceed_posted [OF ok hp assms(3), of an])
      (use assms(2,4,5) in \<open>auto simp: relay_post_send_def with_conn_def taken_def passed_def intro!: that\<close>)
qed

section \<open>Completions\<close>

text \<open>What the system guarantees of a successful completion: a read fits the buffer, and a send accepts no more than
  it was given.\<close>

definition completion_ok :: "completion \<Rightarrow> RELAY_DIR \<Rightarrow> bool" where
  "completion_ok c d \<longleftrightarrow>
     (case d_state d of
        RS_WAIT \<Rightarrow> True
      | RS_READ \<Rightarrow> length (cp_data c) = cp_n c \<and> cp_n c \<le> RELAY_BUF_SIZE
      | RS_SEND \<Rightarrow> d_off d + cp_n c \<le> d_len d)"

lemma take_in_hand:
  assumes "pool_ok {} s" and "(a, x) \<in> sys_pending s"
  shows "pool_ok {(a, x)} (s\<lparr>sys_pending := sys_pending s - {(a, x)}\<rparr>)"
proof -
  let ?s = "s\<lparr>sys_pending := sys_pending s - {(a, x)}\<rparr>"
  have c: "conns_ok {} s" using assms(1) by (simp add: pool_ok_def)
  obtain rc where rc: "relay_heap s a = Some rc" using conns_ok_pending(1) [OF c assms(2)] by blast
  note cd = conns_okD [OF c rc]
  have al: "alive {(a, x)} ?s a = alive {} s a" using assms(2) by (auto simp: alive_def)
  have "dir_ok {(a, x)} ?s a rc y" for y
    using cd(6) [of y] al by (auto simp: dir_ok_def taken_def passed_def)
  then have "conn_ok {(a, x)} ?s a rc" using cd(1) al by (simp add: conn_ok_def)
  then have "conns_ok {(a, x)} ?s"
    using conns_ok_upd [OF c rc, of ?s rc "{(a, x)}"] rc by (auto simp: same_elsewhere_def)
  then show ?thesis using assms(1) by (simp add: pool_ok_def list_ok_def buf_ok_def held_def)
qed

text \<open>Bytes that a direction in hand has moved.\<close>

lemma in_hand_flow:
  assumes "pool_ok H s" and "relay_heap s a = Some rc" and "(a, x) \<in> H" and "prefix out i"
  shows "pool_ok H (s\<lparr>sys_recvd := (sys_recvd s)(rc_s rc x := i), sys_sent := (sys_sent s)(rc_s rc (opposite x) := out)\<rparr>)"
proof -
  let ?s = "s\<lparr>sys_recvd := (sys_recvd s)(rc_s rc x := i), sys_sent := (sys_sent s)(rc_s rc (opposite x) := out)\<rparr>"
  have c: "conns_ok H s" using assms(1) by (simp add: pool_ok_def)
  note cd = conns_okD [OF c assms(2)]
  have "dir_ok H ?s a rc x" "dir_ok H ?s a rc (opposite x)"
    using cd(6) [of x] cd(6) [of "opposite x"] cd(7) [of x] conns_ok_pending(2) [OF c, of a x] assms(3,4)
    by (auto simp: dir_ok_def taken_def passed_def alive_def)
  then have "dir_ok H ?s a rc y" for y by (metis all_sides)
  then have "conn_ok H ?s a rc" using cd(1) by (simp add: conn_ok_def alive_def)
  then have "conns_ok H ?s"
    using conns_ok_upd [OF c assms(2), of ?s rc H] conns_ok_pending(2) [OF c] assms(2) by (auto simp: same_elsewhere_def)
  then show ?thesis using assms(1) by (simp add: pool_ok_def list_ok_def buf_ok_def held_def)
qed

text \<open>A direction after its request has completed and before the worker acts on it.\<close>

definition completed_ok :: "completion \<Rightarrow> relay_pool \<Rightarrow> RELAY_CONN \<Rightarrow> side \<Rightarrow> bool" where
  "completed_ok c s rc x \<longleftrightarrow> (let d = rc_dir rc x in
     case d_state d of
       RS_WAIT \<Rightarrow> passed s rc x = taken s rc x
     | RS_READ \<Rightarrow> d_buf d = Some (cp_data c) \<and> passed s rc x @ cp_data c = taken s rc x
     | RS_SEND \<Rightarrow> (case d_buf d of None \<Rightarrow> False | Some b \<Rightarrow>
         length b = d_len d \<and> d_len d \<le> RELAY_BUF_SIZE \<and> passed s rc x @ drop (d_off d + cp_n c) b = taken s rc x))"

lemma io_effect_ok:
  assumes "pool_ok H s" and "relay_heap s a = Some rc" and "(a, x) \<in> H" and "cp_ok c" and "completion_ok c (rc_dir rc x)"
    and w: "waits (rc_dir rc x) (taken s rc x) (passed s rc x)"
  obtains rc' where "relay_heap (io_effect c a x s) a = Some rc'" and "pool_ok H (io_effect c a x s)"
    and "completed_ok c (io_effect c a x s) rc' x" and "completion_ok c (rc_dir rc' x)"
    and "rc_s rc' = rc_s rc" "rc_closing rc' = rc_closing rc" "sys_fin (io_effect c a x s) = sys_fin s"
    and "sys_pending (io_effect c a x s) = sys_pending s"
proof (cases "d_state (rc_dir rc x)")
  case RS_WAIT
  then have "io_effect c a x s = s" using assms(2,4) by (simp add: io_effect_def Let_def)
  then show ?thesis using that [of rc] assms RS_WAIT by (simp add: completed_ok_def waits_def)
next
  case RS_READ
  have p: "conns_ok H s" using assms(1) by (simp add: pool_ok_def)
  note cd = conns_okD(8,9) [OF p assms(2), of x]
  let ?f = "\<lambda>d. d\<lparr>d_buf := Some (cp_data c)\<rparr>"
  let ?i = "taken s rc x @ cp_data c"
  let ?s0 = "s\<lparr>sys_recvd := (sys_recvd s)(rc_s rc x := ?i)\<rparr>"
  have e: "io_effect c a x s = set_dir a x ?f ?s0"
    using assms(2,4) RS_READ cd(1) by (simp add: io_effect_def Let_def taken_def)
  have "pool_ok H ?s0" using in_hand_flow [OF assms(1-3), of "passed s rc x" ?i] w RS_READ
    by (simp add: waits_def passed_def fun_upd_idem)
  moreover obtain b where b: "d_buf (rc_dir rc x) = Some b" using w RS_READ by (auto simp: waits_def)
  ultimately have "pool_ok H (set_dir a x ?f ?s0)"
    using set_dir_ok [of H ?s0 a rc x ?f] buf_ok_set_dir [of ?s0 a rc x ?f] assms(2,3) by (simp add: pool_ok_def buf_ok_def)
  moreover have "relay_heap (set_dir a x ?f ?s0) a = Some (put_dir x (?f (rc_dir rc x)) rc)"
    using set_dir_heap [of ?s0 a rc x ?f] assms(2) by simp
  ultimately show ?thesis
    using that [of "put_dir x (?f (rc_dir rc x)) rc"] e assms(5) RS_READ w
    by (simp add: completed_ok_def completion_ok_def waits_def taken_def passed_def)
next
  case RS_SEND
  have p: "conns_ok H s" using assms(1) by (simp add: pool_ok_def)
  note cd = conns_okD(8,9) [OF p assms(2), of x]
  obtain b where b: "d_buf (rc_dir rc x) = Some b" "length b = d_len (rc_dir rc x)" "d_len (rc_dir rc x) \<le> RELAY_BUF_SIZE"
      "passed s rc x @ drop (d_off (rc_dir rc x)) b = taken s rc x"
    using w RS_SEND by (auto simp: waits_def split: option.splits)
  let ?o = "passed s rc x @ take (cp_n c) (drop (d_off (rc_dir rc x)) b)"
  let ?s = "s\<lparr>sys_sent := (sys_sent s)(rc_s rc (opposite x) := ?o)\<rparr>"
  have e: "io_effect c a x s = ?s"
    using assms(2,4) RS_SEND cd(2) b(1) by (simp add: io_effect_def Let_def passed_def)
  have all: "?o @ drop (d_off (rc_dir rc x) + cp_n c) b = taken s rc x"
    using b(4) append_take_drop_id [of "cp_n c" "drop (d_off (rc_dir rc x)) b"] by (simp add: add.commute)
  then have "prefix ?o (taken s rc x)" by (metis prefixI)
  then have "pool_ok H ?s" using in_hand_flow [OF assms(1-3), of ?o "taken s rc x"] by (simp add: taken_def fun_upd_idem)
  then show ?thesis
    using that [of rc] e assms(2,5) b all RS_SEND by (simp add: completed_ok_def taken_def passed_def)
qed

lemma relay_worker_ok:
  assumes "pool_ok H s" and "relay_heap s a = Some rc" and "(a, x) \<in> H" and "rc_closing rc \<or> rc_s rc (opposite x) \<notin> sys_fin s"
    and "cp_ok c \<Longrightarrow> completed_ok c s rc x \<and> completion_ok c (rc_dir rc x)"
  obtains s' where "relay_worker an c a x s = Inr s'" and "pool_ok (H - {(a, x)}) s'" and "sys_pending s' \<subseteq> insert (a, x) (sys_pending s)"
    and "\<not> cp_ok c \<Longrightarrow> sys_pending s' = sys_pending s"
proof -
  have p: "conns_ok H s" "list_ok s" "buf_ok s" using assms(1) by (simp_all add: pool_ok_def)
  let ?d = "rc_dir rc x"
  consider (fail) "\<not> cp_ok c" | (wait) "cp_ok c" "d_state ?d = RS_WAIT" | (eof) "cp_ok c" "d_state ?d = RS_READ" "cp_n c = 0"
    | (read) "cp_ok c" "d_state ?d = RS_READ" "cp_n c \<noteq> 0" | (stuck) "cp_ok c" "d_state ?d = RS_SEND" "cp_n c = 0"
    | (sent) "cp_ok c" "d_state ?d = RS_SEND" "cp_n c \<noteq> 0"
    by (cases "d_state ?d") auto
  then show ?thesis
  proof cases
    case fail
    show ?thesis by (rule relay_dir_end_ok [OF assms(1-3), of False])
      (use fail that assms(2) in \<open>auto simp: relay_worker_def with_conn_def\<close>)
  next
    case wait
    then have "idle_ok s rc x" using assms(4,5) by (simp add: idle_ok_def completed_ok_def)
    then show ?thesis by (rule post_read_ok [OF assms(1-3), of an])
      (use wait that assms(2) in \<open>auto simp: relay_worker_def with_conn_def\<close>)
  next
    case eof
    then have "passed s rc x = taken s rc x" using assms(5) by (auto simp: completed_ok_def completion_ok_def)
    show ?thesis by (rule relay_dir_end_ok [OF assms(1-3), of True])
      (use eof that assms(2) \<open>passed s rc x = taken s rc x\<close> in \<open>auto simp: relay_worker_def with_conn_def\<close>)
  next
    case read
    let ?f = "\<lambda>d. d\<lparr>d_len := cp_n c, d_off := 0\<rparr>"
    let ?s = "set_dir a x ?f s" and ?rc = "put_dir x (?f ?d) rc"
    have ok: "pool_ok H ?s" using set_dir_ok [of H s a rc x ?f] buf_ok_set_dir [of s a rc x ?f] p assms(2,3)
      by (simp add: pool_ok_def buf_ok_def)
    have w: "waits ((rc_dir ?rc x)\<lparr>d_state := RS_SEND\<rparr>) (taken ?s ?rc x) (passed ?s ?rc x)"
      using read assms(5) by (auto simp: waits_def completed_ok_def completion_ok_def)
    have hp: "relay_heap ?s a = Some ?rc" using set_dir_heap [OF assms(2)] by simp
    show ?thesis by (rule post_send_ok [OF ok hp assms(3) _ w, of an])
      (use read that assms(2,4) in \<open>auto simp: relay_worker_def with_conn_def\<close>)
  next
    case stuck
    show ?thesis by (rule relay_dir_end_ok [OF assms(1-3), of False])
      (use stuck that assms(2) in \<open>auto simp: relay_worker_def with_conn_def\<close>)
  next
    case sent
    let ?f = "\<lambda>d. d\<lparr>d_off := d_off ?d + cp_n c\<rparr>"
    let ?s = "set_dir a x ?f s" and ?rc = "put_dir x (?f ?d) rc"
    have ok: "pool_ok H ?s" using set_dir_ok [of H s a rc x ?f] buf_ok_set_dir [of s a rc x ?f] p assms(2,3)
      by (simp add: pool_ok_def buf_ok_def)
    have hp: "relay_heap ?s a = Some ?rc" using set_dir_heap [OF assms(2)] by simp
    obtain b where b: "d_buf ?d = Some b" "length b = d_len ?d" "d_len ?d \<le> RELAY_BUF_SIZE" "d_off ?d + cp_n c \<le> d_len ?d"
        "passed s rc x @ drop (d_off ?d + cp_n c) b = taken s rc x"
      using assms(5) sent by (auto simp: completed_ok_def completion_ok_def Let_def split: option.splits)
    show ?thesis
    proof (cases "d_off ?d + cp_n c < d_len ?d")
      case True
      then have w: "waits ((rc_dir ?rc x)\<lparr>d_state := RS_SEND\<rparr>) (taken ?s ?rc x) (passed ?s ?rc x)"
        using sent b by (simp add: waits_def)
      show ?thesis by (rule post_send_ok [OF ok hp assms(3) _ w, of an])
        (use sent that assms(2,4) True in \<open>auto simp: relay_worker_def with_conn_def Let_def\<close>)
    next
      case False
      then have i: "idle_ok ?s ?rc x" using b assms(4) by (simp add: idle_ok_def)
      show ?thesis
      proof (cases "d_len ?d < RELAY_BUF_SIZE div 4")
        case True
        show ?thesis by (rule post_wait_ok [OF ok hp assms(3) i, of an])
          (use sent that assms(2) False True in \<open>auto simp: relay_worker_def with_conn_def Let_def\<close>)
      next
        case n: False
        show ?thesis by (rule post_read_ok [OF ok hp assms(3) i, of an])
          (use sent that assms(2) False n in \<open>auto simp: relay_worker_def with_conn_def Let_def\<close>)
      qed
    qed
  qed
qed

lemma complete_ok:
  assumes "pool_ok {} s" and "(a, x) \<in> sys_pending s" and "relay_heap s a = Some rc" and "cp_ok c \<Longrightarrow> completion_ok c (rc_dir rc x)"
  obtains s' where "complete an c a x s = Inr s'" and "pool_ok {} s'" and "sys_pending s' \<subseteq> sys_pending s"
    and "\<not> cp_ok c \<Longrightarrow> sys_pending s' = sys_pending s - {(a, x)}"
proof -
  let ?s = "s\<lparr>sys_pending := sys_pending s - {(a, x)}\<rparr>"
  have c: "conns_ok {} s" using assms(1) by (simp add: pool_ok_def)
  have ok: "pool_ok {(a, x)} ?s" by (rule take_in_hand [OF assms(1,2)])
  have w: "waits (rc_dir rc x) (taken ?s rc x) (passed ?s rc x)" "rc_closing rc \<or> rc_s rc (opposite x) \<notin> sys_fin ?s"
    using conns_okD(6) [OF c assms(3), of x] assms(2) by (simp_all add: dir_ok_def taken_def passed_def)
  show ?thesis
  proof (cases "cp_ok c")
    case True
    obtain rc' where rc': "relay_heap (io_effect c a x ?s) a = Some rc'" "pool_ok {(a, x)} (io_effect c a x ?s)"
        "completed_ok c (io_effect c a x ?s) rc' x" "completion_ok c (rc_dir rc' x)"
        "rc_s rc' = rc_s rc" "rc_closing rc' = rc_closing rc" "sys_fin (io_effect c a x ?s) = sys_fin ?s"
        "sys_pending (io_effect c a x ?s) = sys_pending ?s"
      by (rule io_effect_ok [OF ok, of a rc x c]) (use assms(3,4) True w(1) in auto)
    have "cp_ok c \<Longrightarrow> completed_ok c (io_effect c a x ?s) rc' x \<and> completion_ok c (rc_dir rc' x)" using rc'(3,4) by simp
    note wk = relay_worker_ok [OF rc'(2,1) _ _ this, of an]
    obtain s' where s': "relay_worker an c a x (io_effect c a x ?s) = Inr s'" "pool_ok ({(a, x)} - {(a, x)}) s'"
        "sys_pending s' \<subseteq> insert (a, x) (sys_pending (io_effect c a x ?s))"
      by (rule wk) (use w(2) rc'(5-7) in auto)
    then have "sys_pending s' \<subseteq> sys_pending s" using rc'(8) assms(2) by auto
    then show ?thesis using that [of s'] s' True by (simp add: complete_def)
  next
    case False
    then have "io_effect c a x ?s = ?s" using assms(3) by (simp add: io_effect_def Let_def)
    moreover obtain s' where "relay_worker an c a x ?s = Inr s'" "pool_ok ({(a, x)} - {(a, x)}) s'" "sys_pending s' = sys_pending ?s"
      by (rule relay_worker_ok [OF ok, of a rc x c an]) (use w(2) assms(3) False in auto)
    ultimately show ?thesis using that [of s'] by (auto simp: complete_def)
  qed
qed

section \<open>Starting a relay\<close>

text \<open>Sockets a relay may take over: open, of no other relay, nothing moved over them yet.\<close>

definition fresh_pair :: "nat \<Rightarrow> nat \<Rightarrow> relay_pool \<Rightarrow> bool" where
  "fresh_pair client proxy s \<longleftrightarrow> client \<noteq> proxy \<and> {client, proxy} \<subseteq> sys_open s \<and>
     (\<forall>a rc. relay_heap s a = Some rc \<longrightarrow> range (rc_s rc) \<inter> {client, proxy} = {}) \<and>
     sys_recvd s client = [] \<and> sys_recvd s proxy = [] \<and> sys_sent s client = [] \<and> sys_sent s proxy = [] \<and>
     client \<notin> sys_fin s \<and> proxy \<notin> sys_fin s"

definition new_conn :: "nat \<Rightarrow> nat \<Rightarrow> RELAY_CONN" where
  "new_conn client proxy = \<lparr>rc_s = case_side client proxy, rc_dir = case_side (new_dir client proxy) (new_dir proxy client),
     rc_refs = 2, rc_closing = False\<rparr>"

lemma range_sides: "range f = {f Upload, f Download}"
  by (auto simp: side_UNIV)

lemma new_conn_ok:
  assumes "pool_ok {} s" and "fresh_pair client proxy s" and "relay_heap s a = None" and "g_iocp s"
    and s1: "s1 = s\<lparr>relay_heap := (relay_heap s)(a \<mapsto> new_conn client proxy), g_relay_head := a # g_relay_head s,
       g_active_relays := g_active_relays s + 1, g_relay_done := Some False\<rparr>"
  shows "pool_ok {(a, Upload), (a, Download)} s1"
proof -
  let ?H = "{(a, Upload), (a, Download)}" and ?rc = "new_conn client proxy"
  have c: "conns_ok {} s" and l: "list_ok s" and b: "buf_ok s" using assms(1) by (simp_all add: pool_ok_def)
  have al: "alive ?H s1 a = UNIV" by (auto simp: alive_def) (metis side.exhaust)
  have np: "(a, x) \<notin> sys_pending s" for x using conns_ok_pending(1) [OF c, of a x] assms(3) by auto
  have "dir_ok ?H s1 a ?rc x" for x
    using assms(2) np unfolding dir_ok_def al
    by (cases x) (simp_all add: s1 new_conn_def new_dir_def taken_def passed_def fresh_pair_def)
  then have n: "conn_ok ?H s1 a ?rc"
    using assms(2) unfolding conn_ok_def al
    by (auto simp: new_conn_def inj_def range_sides side_UNIV fresh_pair_def s1 split: side.splits)
  have e: "same_elsewhere a (range (rc_s ?rc)) s s1" by (simp add: same_elsewhere_def s1)
  have o: "conn_ok ?H s1 b r" "range (rc_s r) \<inter> range (rc_s ?rc) = {}" if "relay_heap s b = Some r" for b r
  proof -
    have "b \<noteq> a" using that assms(3) by auto
    moreover show d: "range (rc_s r) \<inter> range (rc_s ?rc) = {}"
      using assms(2) that by (simp add: fresh_pair_def new_conn_def range_sides)
    ultimately show "conn_ok ?H s1 b r" using conn_ok_cong [OF e, of b r ?H "{}"] conns_okD(1) [OF c that] by simp
  qed
  have "conns_ok ?H s1"
    unfolding conns_ok_def using o n c np conns_ok_disjoint [OF c]
    by (auto simp: s1 conns_ok_def [of "{}"] split: if_splits) blast+
  moreover have "list_ok s1" using l assms(3,4) by (auto simp: list_ok_def s1)
  moreover have "buf_ok s1"
    using b held_new [of s a s1 ?rc] assms(3) by (simp add: buf_ok_def s1 bufs_sides new_conn_def new_dir_def)
  ultimately show ?thesis by (simp add: pool_ok_def)
qed

lemma first_wait_ok:
  assumes "pool_ok H s" and "relay_heap s a = Some rc" and "(a, x) \<in> H" and "idle_ok s rc x"
  obtains s' where "first_wait an a x s = Inr s'" and "pool_ok (H - {(a, x)}) s'" and "sys_pending s' \<subseteq> insert (a, x) (sys_pending s)"
  by (rule post_wait_ok [OF assms, of an]) (use that in \<open>simp add: first_wait_def\<close>)

lemma first_wait_leaves:
  assumes "relay_heap s a = Some rc" and "d_buf (rc_dir rc x) = None" and "rc_refs rc = 2" and "first_wait an a x s = Inr s'"
  shows "\<exists>rc'. relay_heap s' a = Some rc' \<and> rc_s rc' = rc_s rc \<and> sys_recvd s' = sys_recvd s \<and> sys_sent s' = sys_sent s \<and>
     (rc_closing rc' \<or> sys_fin s' = sys_fin s)"
  using assms
  by (auto simp: first_wait_def relay_post_wait_def with_conn_def posted_def proceed_def relay_buf_put_def set_dir_def
    relay_dir_end_def relay_abort_def relay_release_def Let_def split: if_splits)

lemma relay_start_ok:
  assumes "pool_ok {} s" and "fresh_pair client proxy s" and "\<And>a. rb_calloc rb = Some a \<Longrightarrow> relay_heap s a = None"
  obtains ok s' where "relay_start rb client proxy s = Inr (ok, s')" and "pool_ok {} s'" and "\<not> ok \<Longrightarrow> s' = s"
proof (cases "g_iocp s \<and> rb_running rb \<and> rb_assoc rb \<and> g_relay_accepting s \<and> rb_still_running rb \<and> rb_calloc rb \<noteq> None")
  case False
  then have "relay_start rb client proxy s = Inr (False, s)" by (auto simp: relay_start_def split: option.split)
  then show ?thesis using that assms(1) by blast
next
  case True
  then obtain a where a: "rb_calloc rb = Some a" by auto
  let ?s1 = "s\<lparr>relay_heap := (relay_heap s)(a \<mapsto> new_conn client proxy), g_relay_head := a # g_relay_head s,
       g_active_relays := g_active_relays s + 1, g_relay_done := Some False\<rparr>"
  let ?H = "{(a, Upload), (a, Download)}" and ?rc = "new_conn client proxy"
  have p1: "pool_ok ?H ?s1" using new_conn_ok [OF assms(1,2) assms(3) [OF a]] True by simp
  have rc: "relay_heap ?s1 a = Some ?rc" by simp
  have i: "idle_ok ?s1 ?rc x" for x
    using assms(2) by (cases x) (simp_all add: idle_ok_def new_conn_def taken_def passed_def fresh_pair_def)
  obtain s2 where s2: "first_wait (rb_up rb) a Upload ?s1 = Inr s2" "pool_ok (?H - {(a, Upload)}) s2"
    by (rule first_wait_ok [OF p1 rc _ i, of Upload "rb_up rb"]) auto
  have H: "?H - {(a, Upload)} = {(a, Download)}" by auto
  obtain rc2 where rc2: "relay_heap s2 a = Some rc2" "rc_s rc2 = rc_s ?rc" "sys_recvd s2 = sys_recvd s" "sys_sent s2 = sys_sent s"
      "rc_closing rc2 \<or> sys_fin s2 = sys_fin s"
    using first_wait_leaves [OF rc _ _ s2(1)] by (auto simp: new_conn_def new_dir_def)
  have "idle_ok s2 rc2 Download"
    using i [of Download] rc2 by (auto simp: idle_ok_def taken_def passed_def new_conn_def)
  then obtain s3 where s3: "first_wait (rb_down rb) a Download s2 = Inr s3" "pool_ok ({(a, Download)} - {(a, Download)}) s3"
    using first_wait_ok [OF s2(2) [unfolded H] rc2(1), of Download "rb_down rb"] by auto
  show ?thesis
    by (rule that [of True s3]) (use True a s2(1) s3 in \<open>simp_all add: relay_start_def new_conn_def\<close>)
qed

section \<open>Aborting and stopping\<close>

lemma abort_all_ok:
  assumes "pool_ok {} s" and "set as \<subseteq> dom (relay_heap s)"
  obtains s' where "abort_all as s = Inr s'" and "pool_ok {} s'" and "sys_pending s' = sys_pending s" and "g_iocp s' = g_iocp s"
  using assms
proof (induction as arbitrary: s thesis)
  case (Cons a as)
  obtain rc where rc: "relay_heap s a = Some rc" using Cons.prems(3) by auto
  obtain s1 where s1: "relay_abort a s = Inr s1" "pool_ok {} s1" "relay_heap s1 = (relay_heap s)(a \<mapsto> rc\<lparr>rc_closing := True\<rparr>)"
      "sys_pending s1 = sys_pending s"
    using relay_abort_ok [OF Cons.prems(2) rc] .
  have g: "g_iocp s1 = g_iocp s" using s1(1) rc by (auto simp: relay_abort_def with_conn_def split: if_splits)
  have "set as \<subseteq> dom (relay_heap s1)" using Cons.prems(3) s1(3) by auto
  then obtain s' where "abort_all as s1 = Inr s'" "pool_ok {} s'" "sys_pending s' = sys_pending s1" "g_iocp s' = g_iocp s1"
    using Cons.IH [OF _ s1(2)] by blast
  then show ?case using Cons.prems(1) [of s'] s1 g by simp
qed auto

lemma pool_ok_accepting: "pool_ok H (s\<lparr>g_relay_accepting := v\<rparr>) = pool_ok H s"
  by (simp add: pool_ok_def conns_list_cong(1,2) [of "s\<lparr>g_relay_accepting := v\<rparr>" s] buf_ok_def held_def)

lemma relay_pool_abort_ok:
  assumes "pool_ok {} s"
  obtains s' where "relay_pool_abort s = Inr s'" and "pool_ok {} s'" and "sys_pending s' = sys_pending s" and "g_iocp s' = g_iocp s"
proof -
  have "set (g_relay_head s) \<subseteq> dom (relay_heap (s\<lparr>g_relay_accepting := False\<rparr>))"
    using assms by (simp add: pool_ok_def list_ok_def)
  then show ?thesis
    using abort_all_ok [of "s\<lparr>g_relay_accepting := False\<rparr>" "g_relay_head s"] assms pool_ok_accepting that
    by (auto simp: relay_pool_abort_def)
qed

end
