(* ===== verification/PB_Pipes.thy ===== *)
theory PB_Pipes
  imports PB_Iocp
begin

text \<open>
  What the relay pool promises. The reachable states of the pool are memory safe, the bytes a direction delivers are
  those it received, each completion is a step of a pair of pipes, and stopping the pool drains it.
\<close>

section \<open>What an operation on one connection changes\<close>

definition only_conn :: "addr \<Rightarrow> side \<Rightarrow> relay_pool \<Rightarrow> relay_pool \<Rightarrow> bool" where
  "only_conn a x s s' \<longleftrightarrow> sys_open s' \<subseteq> sys_open s \<and> sys_recvd s' = sys_recvd s \<and> sys_sent s' = sys_sent s \<and> g_iocp s' = g_iocp s \<and>
     (\<forall>b. b \<noteq> a \<longrightarrow> relay_heap s' b = relay_heap s b) \<and>
     (\<forall>r. r \<noteq> (a, x) \<longrightarrow> (r \<in> sys_pending s') = (r \<in> sys_pending s)) \<and>
     (case relay_heap s a of
        None \<Rightarrow> relay_heap s' a = None
      | Some rc \<Rightarrow> (case relay_heap s' a of
          None \<Rightarrow> range (rc_s rc) \<inter> sys_open s' = {}
        | Some rc' \<Rightarrow> rc_s rc' = rc_s rc \<and> (rc_closing rc \<longrightarrow> rc_closing rc')))"

lemma only_conn_refl [simp]: "only_conn a x s s"
  by (simp add: only_conn_def split: option.split)

lemma only_conn_trans: "only_conn a x s s1 \<Longrightarrow> only_conn a x s1 s2 \<Longrightarrow> only_conn a x s s2"
  unfolding only_conn_def by (auto split: option.splits)

lemma only_conn_buf:
  "only_conn a x s (relay_buf_put b s)" "only_conn a x s (snd (relay_buf_get m s))" "only_conn a x s (set_dir a y f s)"
  "only_conn a x s (snd (posted an a x s))"
  by (auto simp: only_conn_def relay_buf_put_def relay_buf_get_def set_dir_def posted_def split: option.split)

lemma only_conn_abort: "relay_abort a s = Inr s' \<Longrightarrow> only_conn a x s s'"
  by (auto simp: relay_abort_def with_conn_def only_conn_def split: option.splits if_splits)

lemma only_conn_fin: "only_conn a x s (s\<lparr>sys_fin := F\<rparr>)"
  by (simp add: only_conn_def split: option.split)

lemma closesocket_Inr: "closesocket h s = Inr s' \<longleftrightarrow> h \<in> sys_open s \<and> s' = s\<lparr>sys_open := sys_open s - {h}\<rparr>"
  by (auto simp: closesocket_def)

lemma and_then_Inr: "and_then r k = Inr y \<longleftrightarrow> (\<exists>x. r = Inr x \<and> k x = Inr y)"
  by (cases r) simp_all

lemma only_conn_release: "relay_release a s = Inr s' \<Longrightarrow> only_conn a x s s'"
  by (auto simp: relay_release_def with_conn_def only_conn_def and_then_Inr closesocket_Inr Let_def range_sides
    split: option.splits if_splits)

lemma only_conn_dir_end: "relay_dir_end a x clean s = Inr s' \<Longrightarrow> only_conn a x s s'"
  by (auto simp: relay_dir_end_def with_conn_def and_then_Inr split: option.splits if_splits
    intro: only_conn_trans [OF only_conn_fin only_conn_release] only_conn_trans [OF only_conn_abort only_conn_release])

lemma only_conn_proceed: "proceed a x (ok, s) = Inr s' \<Longrightarrow> only_conn a x s s'"
  by (auto simp: proceed_def split: if_splits dest: only_conn_dir_end)

lemma only_conn_post:
  "relay_post_wait an a x s = Inr (ok, s') \<Longrightarrow> only_conn a x s s'"
  "relay_post_read an a x s = Inr (ok, s') \<Longrightarrow> only_conn a x s s'"
  "relay_post_send an a x s = Inr (ok, s') \<Longrightarrow> only_conn a x s s'"
proof -
  have p: "only_conn a x s1 s'" if "posted an a x (set_dir a x f s1) = (ok, s')" for f s1 s'
    using only_conn_trans [OF only_conn_buf(3) [of a x s1 x f] only_conn_buf(4) [where an = an and x = x]] that by simp
  have b: "only_conn a x s s1" if "relay_buf_get m s = (got, s1)" for m got s1 using only_conn_buf(2) [of a x s m] that by simp
  show "relay_post_wait an a x s = Inr (ok, s') \<Longrightarrow> only_conn a x s s'"
    by (auto simp: relay_post_wait_def with_conn_def split: option.splits intro: only_conn_trans [OF only_conn_buf(1) p])
  show "relay_post_read an a x s = Inr (ok, s') \<Longrightarrow> only_conn a x s s'"
    by (auto simp: relay_post_read_def with_conn_def split: option.splits prod.splits if_splits intro: only_conn_trans [OF b p] p b)
  show "relay_post_send an a x s = Inr (ok, s') \<Longrightarrow> only_conn a x s s'"
    by (auto simp: relay_post_send_def with_conn_def split: option.splits intro: p)
qed

lemma only_conn_worker: "relay_worker an c a x s = Inr s' \<Longrightarrow> only_conn a x s s'"
proof -
  have p: "only_conn a x s1 s'" if "and_then r (proceed a x) = Inr s'" "\<And>ok s2. r = Inr (ok, s2) \<Longrightarrow> only_conn a x s1 s2" for r s1
    using that by (auto simp: and_then_Inr intro: only_conn_trans only_conn_proceed)
  have q: "only_conn a x s s'" if "and_then r (proceed a x) = Inr s'" "\<And>ok s2. r = Inr (ok, s2) \<Longrightarrow> only_conn a x (set_dir a x f s) s2" for r f
    using only_conn_trans [OF only_conn_buf(3) p [OF that]] .
  assume "relay_worker an c a x s = Inr s'"
  then show ?thesis
    by (auto simp: relay_worker_def with_conn_def Let_def split: option.splits if_splits relay_state.splits
      intro: only_conn_dir_end p q only_conn_post)
qed

section \<open>Reachable states\<close>

text \<open>Sockets are opened and closed by others; the pool starts, takes connections over, handles completions,
  aborts, and shuts down once the event is set.\<close>

inductive relay_step :: "relay_pool \<Rightarrow> relay_pool \<Rightarrow> bool" where
  pool_starts: "relay_step s (snd (relay_pool_start ps s))"
| opened: "h \<notin> sys_open s \<Longrightarrow> relay_step s (s\<lparr>sys_open := insert h (sys_open s), sys_recvd := (sys_recvd s)(h := []),
     sys_sent := (sys_sent s)(h := []), sys_fin := sys_fin s - {h}\<rparr>)"
| closed: "\<forall>a rc. relay_heap s a = Some rc \<longrightarrow> h \<notin> range (rc_s rc) \<Longrightarrow> relay_step s (s\<lparr>sys_open := sys_open s - {h}\<rparr>)"
| starts: "fresh_pair client proxy s \<Longrightarrow> \<forall>a. rb_calloc rb = Some a \<longrightarrow> relay_heap s a = None \<Longrightarrow>
     relay_start rb client proxy s = Inr (ok, s') \<Longrightarrow> relay_step s s'"
| completes: "(a, x) \<in> sys_pending s \<Longrightarrow> \<forall>rc. relay_heap s a = Some rc \<and> cp_ok c \<longrightarrow> completion_ok c (rc_dir rc x) \<Longrightarrow>
     complete an c a x s = Inr s' \<Longrightarrow> relay_step s s'"
| aborts: "relay_pool_abort s = Inr s' \<Longrightarrow> relay_step s s'"
| shuts_down: "g_iocp s \<Longrightarrow> g_relay_done s = Some True \<Longrightarrow> relay_step s (pool_shutdown s)"

lemma pool_ok_init: "pool_ok {} pool_init"
  by (simp add: pool_ok_def conns_ok_def list_ok_def buf_ok_def held_def pool_init_def)

lemma conns_ok_sockets:
  assumes "conns_ok H s" and "\<forall>a rc. relay_heap s a = Some rc \<longrightarrow> h \<notin> range (rc_s rc)"
    and "same_elsewhere a {h} s s'" and "relay_heap s' = relay_heap s" and "sys_pending s' = sys_pending s"
  shows "conns_ok H s'"
proof -
  have e: "same_elsewhere b {h} s s'" for b using assms(3-5) by (simp add: same_elsewhere_def)
  have "conn_ok H s' b rc" if "relay_heap s b = Some rc" for b rc
  proof -
    have "range (rc_s rc) \<inter> {h} = {}" using assms(2) that by blast
    then show ?thesis using conn_ok_cong [OF e [of "Suc b"] n_not_Suc_n _ refl] conns_okD(1) [OF assms(1) that] by blast
  qed
  then show ?thesis using assms(1) unfolding conns_ok_def assms(4,5) by blast
qed

text \<open>A pool with no connection.\<close>

lemma pool_ok_idle:
  assumes "g_relay_head s = []"
  shows "pool_ok {} s \<longleftrightarrow> relay_heap s = Map.empty \<and> sys_pending s = {} \<and> g_active_relays s = 0 \<and>
     (g_iocp s \<longrightarrow> g_relay_done s = Some True) \<and> g_relay_pool_n s \<le> RELAY_POOL_KEEP \<and> sys_buffers s = g_relay_pool_n s"
proof (cases "relay_heap s = Map.empty")
  case True
  then show ?thesis
    using assms by (auto simp: pool_ok_def conns_ok_def list_ok_def buf_ok_def held_def)
next
  case False
  then have "dom (relay_heap s) \<noteq> {}" by simp
  then show ?thesis using assms False by (auto simp: pool_ok_def list_ok_def)
qed

lemma relay_step_inv:
  assumes "relay_step s s'" and "pool_ok {} s"
  shows "pool_ok {} s'"
  using assms
proof cases
  case (pool_starts ps)
  show ?thesis
  proof (cases "g_iocp s")
    case False
    then have "g_relay_head s = []" using assms(2) by (simp add: pool_ok_def list_ok_def)
    then show ?thesis using assms(2) pool_starts by (simp add: pool_ok_idle relay_pool_start_def Let_def)
  qed (use pool_starts assms(2) in \<open>simp add: relay_pool_start_def\<close>)
next
  case (opened h)
  have p: "conns_ok {} s" using assms(2) by (simp add: pool_ok_def)
  then have "\<forall>a rc. relay_heap s a = Some rc \<longrightarrow> h \<notin> range (rc_s rc)" using conns_okD(5) opened(2) by blast
  then have "conns_ok {} s'" using conns_ok_sockets [OF p, of h 0 s'] opened(1) by (simp add: same_elsewhere_def)
  then show ?thesis using assms(2) opened(1) by (simp add: pool_ok_def list_ok_def buf_ok_def held_def)
next
  case (closed h)
  have p: "conns_ok {} s" using assms(2) by (simp add: pool_ok_def)
  have "conns_ok {} s'" using conns_ok_sockets [OF p closed(2), of 0 s'] closed(1) by (simp add: same_elsewhere_def)
  then show ?thesis using assms(2) closed(1) by (simp add: pool_ok_def list_ok_def buf_ok_def held_def)
next
  case (starts client proxy rb ok)
  then show ?thesis using relay_start_ok [OF assms(2) starts(1), of rb] by (metis Inr_inject prod.inject)
next
  case (completes a x c an)
  then obtain rc where "relay_heap s a = Some rc" using conns_ok_pending(1) [of "{}" s a x] assms(2) by (auto simp: pool_ok_def)
  then show ?thesis using complete_ok [OF assms(2) completes(1), of rc c an] completes(2,3) by (metis Inr_inject)
next
  case aborts
  then show ?thesis using relay_pool_abort_ok [OF assms(2)] by (metis Inr_inject)
next
  case shuts_down
  then have "g_relay_head s = []" using assms(2) by (simp add: pool_ok_def list_ok_def)
  then show ?thesis using assms(2) shuts_down by (simp add: pool_ok_idle pool_shutdown_def)
qed

lemma relay_reachable_ok: "relay_step\<^sup>*\<^sup>* pool_init s \<Longrightarrow> pool_ok {} s"
  by (induction rule: rtranclp_induct) (use pool_ok_init relay_step_inv in auto)

text \<open>C15. The relay pool is memory safe: in every reachable state each outstanding request belongs to a live connection, and
  whatever its completion reports, handling it neither touches a freed connection nor closes a socket twice; the
  buffers in memory are those in the pool, at most 256, and those the directions hold.\<close>

theorem relay_pool_safe:
  assumes "relay_step\<^sup>*\<^sup>* pool_init s"
  shows "g_relay_pool_n s \<le> RELAY_POOL_KEEP \<and> sys_buffers s = g_relay_pool_n s + held s \<and>
     (\<exists>s'. relay_pool_abort s = Inr s') \<and>
     (\<forall>a x. (a, x) \<in> sys_pending s \<longrightarrow> (\<exists>rc. relay_heap s a = Some rc \<and>
        (\<forall>an c. (cp_ok c \<longrightarrow> completion_ok c (rc_dir rc x)) \<longrightarrow> (\<exists>s'. complete an c a x s = Inr s'))))"
proof -
  have p: "pool_ok {} s" using relay_reachable_ok [OF assms] .
  have "\<exists>rc. relay_heap s a = Some rc \<and> (\<forall>an c. (cp_ok c \<longrightarrow> completion_ok c (rc_dir rc x)) \<longrightarrow> (\<exists>s'. complete an c a x s = Inr s'))"
    if "(a, x) \<in> sys_pending s" for a x
  proof -
    from p that have "\<exists>rc. relay_heap s a = Some rc" using conns_ok_pending(1) [of "{}" s a x] by (simp add: pool_ok_def)
    then obtain rc where "relay_heap s a = Some rc" by blast
    then show ?thesis using complete_ok [OF p that] by metis
  qed
  moreover obtain s' where "relay_pool_abort s = Inr s'" using relay_pool_abort_ok [OF p] .
  ultimately show ?thesis using p by (simp add: pool_ok_def buf_ok_def)
qed

text \<open>C16. No byte is lost, repeated, reordered or made up: what a direction has delivered is at every moment a prefix of
  what it has received. Unless the connection is aborted, the destination is told the end of the stream exactly when
  the direction has ended, and then everything has been delivered.\<close>

theorem relay_stream_intact:
  assumes "relay_step\<^sup>*\<^sup>* pool_init s" and "relay_heap s a = Some rc"
  shows "prefix (passed s rc x) (taken s rc x) \<and>
     (\<not> rc_closing rc \<longrightarrow> ((a, x) \<in> sys_pending s) = (rc_s rc (opposite x) \<notin> sys_fin s)) \<and>
     (\<not> rc_closing rc \<and> (a, x) \<notin> sys_pending s \<longrightarrow> passed s rc x = taken s rc x)"
proof -
  have "dir_ok {} s a rc x" using conns_okD(6) relay_reachable_ok [OF assms(1)] assms(2) by (simp add: pool_ok_def)
  then show ?thesis by (auto simp: dir_ok_def alive_def)
qed

section \<open>Refinement: two pipes\<close>

text \<open>What a relayed connection promises: in each direction a queue of bytes, until it is finished or broken.\<close>

datatype pipe = Flowing bytes | Finished | Broken

definition pipe_of :: "relay_pool \<Rightarrow> addr \<Rightarrow> RELAY_CONN \<Rightarrow> side \<Rightarrow> pipe" where
  "pipe_of s a rc x =
     (if rc_closing rc then Broken
      else if (a, x) \<in> sys_pending s then Flowing (drop (length (passed s rc x)) (taken s rc x)) else Finished)"

definition pipes_of :: "relay_pool \<Rightarrow> addr \<Rightarrow> (side \<Rightarrow> pipe) option" where
  "pipes_of s a = map_option (pipe_of s a) (relay_heap s a)"

text \<open>The steps of the specification; the flag says whether something failed. A pipe reads when it is empty, delivers
  from its front, and finishes when it is empty; both break together, and only on a failure; the sockets are closed
  when neither flows.\<close>

inductive pipe_step :: "bool \<Rightarrow> (side \<Rightarrow> pipe) option \<Rightarrow> (side \<Rightarrow> pipe) option \<Rightarrow> bool" for failed where
  reads: "p x = Flowing [] \<Longrightarrow> pipe_step failed (Some p) (Some (p(x := Flowing bs)))"
| delivers: "p x = Flowing q \<Longrightarrow> pipe_step failed (Some p) (Some (p(x := Flowing (drop n q))))"
| finishes: "p x = Flowing [] \<Longrightarrow> pipe_step failed (Some p) (Some (p(x := Finished)))"
| breaks: "failed \<Longrightarrow> pipe_step failed (Some p) (Some (\<lambda>_. Broken))"
| closes: "\<forall>x. p x = Finished \<or> p x = Broken \<Longrightarrow> pipe_step failed (Some p) None"

text \<open>A completion that fails, a send that accepts nothing, a next request the system refuses, or no memory for it.\<close>

definition io_failed :: "io_answer \<Rightarrow> completion \<Rightarrow> RELAY_DIR \<Rightarrow> bool" where
  "io_failed an c d \<longleftrightarrow> \<not> cp_ok c \<or> (d_state d = RS_SEND \<and> cp_n c = 0) \<or> \<not> relay_io_ok (an_rc an) (an_err an) \<or> \<not> an_malloc an"

lemma dir_end_clean:
  assumes "relay_heap s a = Some rc" and "relay_dir_end a x True s = Inr s'"
  shows "case relay_heap s' a of None \<Rightarrow> rc_refs rc = 1 | Some rc' \<Rightarrow> rc_closing rc' = rc_closing rc"
  using assms by (auto simp: relay_dir_end_def relay_release_def with_conn_def and_then_Inr Let_def split: if_splits)

lemma post_proceeds:
  assumes "relay_heap s a = Some rc" and "relay_io_ok (an_rc an) (an_err an)" and "an_malloc an"
  shows "and_then (relay_post_wait an a x s) (proceed a x) = Inr s' \<Longrightarrow> \<exists>rc'. relay_heap s' a = Some rc' \<and> rc_closing rc' = rc_closing rc"
    "and_then (relay_post_read an a x s) (proceed a x) = Inr s' \<Longrightarrow> \<exists>rc'. relay_heap s' a = Some rc' \<and> rc_closing rc' = rc_closing rc"
    "and_then (relay_post_send an a x s) (proceed a x) = Inr s' \<Longrightarrow> \<exists>rc'. relay_heap s' a = Some rc' \<and> rc_closing rc' = rc_closing rc"
  using assms
  by (auto simp: relay_post_wait_def relay_post_read_def relay_post_send_def with_conn_def posted_def proceed_def set_dir_def
    relay_buf_get_def split: if_splits)

lemma worker_calm:
  assumes "relay_heap s a = Some rc" and "\<not> io_failed an c (rc_dir rc x)" and "relay_worker an c a x s = Inr s'"
  shows "case relay_heap s' a of None \<Rightarrow> rc_refs rc = 1 \<and> d_state (rc_dir rc x) = RS_READ \<and> cp_n c = 0
     | Some rc' \<Rightarrow> rc_closing rc' = rc_closing rc"
proof -
  have ok: "cp_ok c" "relay_io_ok (an_rc an) (an_err an)" "an_malloc an" "d_state (rc_dir rc x) = RS_SEND \<Longrightarrow> cp_n c \<noteq> 0"
    using assms(2) by (auto simp: io_failed_def)
  have sd: "\<exists>rc1. relay_heap (set_dir a x f s) a = Some rc1 \<and> rc_closing rc1 = rc_closing rc" for f
    using set_dir_heap [OF assms(1)] by simp
  note post = post_proceeds [OF _ ok(2,3)]
  show ?thesis
  proof (cases "d_state (rc_dir rc x) = RS_READ \<and> cp_n c = 0")
    case True
    then have "relay_dir_end a x True s = Inr s'" using assms(1,3) ok(1) by (simp add: relay_worker_def with_conn_def)
    from dir_end_clean [OF assms(1) this] show ?thesis using True by (simp split: option.splits)
  next
    case False
    have goes: "\<exists>rc'. relay_heap s' a = Some rc' \<and> rc_closing rc' = rc_closing rc"
      if "and_then (relay_post_wait an a x (set_dir a x f s)) (proceed a x) = Inr s' \<or>
          and_then (relay_post_read an a x (set_dir a x f s)) (proceed a x) = Inr s' \<or>
          and_then (relay_post_send an a x (set_dir a x f s)) (proceed a x) = Inr s'" for f
      using sd [of f] post [of "set_dir a x f s" a] that by metis
    have w: "relay_worker an c a x s = Inr s'" by fact
    have "\<exists>rc'. relay_heap s' a = Some rc' \<and> rc_closing rc' = rc_closing rc"
    proof (cases "d_state (rc_dir rc x)")
      case RS_WAIT
      then show ?thesis using w assms(1) ok(1) post(2) [OF assms(1)] by (simp add: relay_worker_def with_conn_def)
    next
      case RS_READ
      then show ?thesis using w assms(1) ok(1) False goes [of "\<lambda>d. d\<lparr>d_len := cp_n c, d_off := 0\<rparr>"]
        by (simp add: relay_worker_def with_conn_def)
    next
      case RS_SEND
      then show ?thesis using w assms(1) ok(1,4) goes [of "\<lambda>d. d\<lparr>d_off := d_off (rc_dir rc x) + cp_n c\<rparr>"]
        by (simp add: relay_worker_def with_conn_def Let_def split: if_splits)
    qed
    then show ?thesis by auto
  qed
qed

lemma drop_prefix_append: "prefix p t \<Longrightarrow> drop (length p) (t @ bs) = drop (length p) t @ bs"
  by (auto simp: prefix_def)

lemma other_pipe:
  assumes "pool_ok {} s" and "relay_heap s a = Some rc" and "relay_heap s b = Some r" and "(b, y) \<noteq> (a, x)"
    and s1: "s1 = io_effect c a x (s\<lparr>sys_pending := sys_pending s - {(a, x)}\<rparr>)"
  shows "taken s1 r y = taken s r y" "passed s1 r y = passed s r y"
proof -
  have p: "conns_ok {} s" using assms(1) by (simp add: pool_ok_def)
  have src: "d_src (rc_dir rc x) = rc_s rc x" "d_dst (rc_dir rc x) = rc_s rc (opposite x)" using conns_okD(8,9) [OF p assms(2)] .
  have "rc_s r y \<noteq> rc_s rc x \<and> rc_s r (opposite y) \<noteq> rc_s rc (opposite x)"
  proof (cases "b = a")
    case True
    then have "r = rc" "y \<noteq> x" using assms(2-4) by auto
    then show ?thesis using conns_okD(4) [OF p assms(2)] by (simp add: inj_eq)
  next
    case False
    then show ?thesis using conns_ok_disjoint [OF p assms(3,2)] by auto
  qed
  then show "taken s1 r y = taken s r y" "passed s1 r y = passed s r y"
    using assms(2) src by (auto simp: s1 io_effect_def taken_def passed_def Let_def split: relay_state.split)
qed

text \<open>What the completed request itself did to the queue of its direction.\<close>

lemma own_pipe:
  assumes "pool_ok {} s" and "relay_heap s a = Some rc" and "(a, x) \<in> sys_pending s" and "cp_ok c \<Longrightarrow> completion_ok c (rc_dir rc x)"
    and s1: "s1 = io_effect c a x (s\<lparr>sys_pending := sys_pending s - {(a, x)}\<rparr>)"
  defines "q \<equiv> drop (length (passed s rc x)) (taken s rc x)" and "q1 \<equiv> drop (length (passed s1 rc x)) (taken s1 rc x)"
  shows "q = [] \<or> (\<exists>n. q1 = drop n q)"
proof -
  have p: "conns_ok {} s" using assms(1) by (simp add: pool_ok_def)
  have src: "d_src (rc_dir rc x) = rc_s rc x" "d_dst (rc_dir rc x) = rc_s rc (opposite x)" using conns_okD(8,9) [OF p assms(2)] .
  have w: "waits (rc_dir rc x) (taken s rc x) (passed s rc x)" using conns_okD(6) [OF p assms(2), of x] assms(3) by (simp add: dir_ok_def)
  show ?thesis
  proof (cases "cp_ok c \<and> d_state (rc_dir rc x) = RS_SEND")
    case True
    then obtain b where b: "d_buf (rc_dir rc x) = Some b" "passed s rc x @ drop (d_off (rc_dir rc x)) b = taken s rc x"
      using w by (auto simp: waits_def split: option.splits)
    have "taken s1 rc x = taken s rc x" "passed s1 rc x = passed s rc x @ take (cp_n c) (drop (d_off (rc_dir rc x)) b)"
      using True assms(2) src b(1) by (simp_all add: s1 io_effect_def taken_def passed_def Let_def)
    then show ?thesis using b(2) [symmetric] by (auto simp: q_def q1_def)
  next
    case False
    have "q = q1 \<or> q = []"
    proof (cases "cp_ok c \<and> d_state (rc_dir rc x) = RS_READ")
      case True
      then show ?thesis using w by (auto simp: waits_def q_def)
    next
      case n: False
      then have "s1 = s\<lparr>sys_pending := sys_pending s - {(a, x)}\<rparr>"
        using False assms(2) by (auto simp: s1 io_effect_def Let_def split: relay_state.split)
      then show ?thesis by (simp add: q_def q1_def taken_def passed_def)
    qed
    then show ?thesis by (metis drop_0)
  qed
qed

lemma pipe_moves:
  assumes "p x = Flowing q" and "q = [] \<or> (\<exists>n. q1 = drop n q)"
  shows "(pipe_step failed)\<^sup>*\<^sup>* (Some p) (Some (p(x := Flowing q1)))"
    "q1 = [] \<Longrightarrow> (pipe_step failed)\<^sup>*\<^sup>* (Some p) (Some (p(x := Finished)))"
proof -
  show m: "(pipe_step failed)\<^sup>*\<^sup>* (Some p) (Some (p(x := Flowing q1)))"
    using assms pipe_step.reads [of p x failed q1] pipe_step.delivers [of p x q failed] by auto
  assume "q1 = []"
  then have "pipe_step failed (Some (p(x := Flowing q1))) (Some ((p(x := Flowing q1))(x := Finished)))"
    by (intro pipe_step.finishes) simp
  with m show "(pipe_step failed)\<^sup>*\<^sup>* (Some p) (Some (p(x := Finished)))" by (simp add: rtranclp.rtrancl_into_rtrancl)
qed

lemma complete_only:
  assumes "complete an c a x s = Inr s'"
  shows "only_conn a x (io_effect c a x (s\<lparr>sys_pending := sys_pending s - {(a, x)}\<rparr>)) s'"
  using only_conn_worker assms by (simp add: complete_def)

lemma io_effect_heap:
  assumes "relay_heap s a = Some rc"
  shows "b \<noteq> a \<Longrightarrow> relay_heap (io_effect c a x s) b = relay_heap s b"
    "\<exists>rc1. relay_heap (io_effect c a x s) a = Some rc1 \<and> rc_s rc1 = rc_s rc \<and> rc_closing rc1 = rc_closing rc \<and> rc_refs rc1 = rc_refs rc \<and>
       d_state (rc_dir rc1 x) = d_state (rc_dir rc x)"
    "sys_pending (io_effect c a x s) = sys_pending s" "sys_open (io_effect c a x s) = sys_open s" "g_iocp (io_effect c a x s) = g_iocp s"
  using assms by (auto simp: io_effect_def Let_def set_dir_def split: relay_state.split)

lemma flow_of_sockets: "rc_s r = rc_s r' \<Longrightarrow> taken s r = taken s r' \<and> passed s r = passed s r'"
  by (simp add: taken_def passed_def fun_eq_iff)

text \<open>The state between the completed request and the worker's reaction.\<close>

definition after_io :: "completion \<Rightarrow> addr \<Rightarrow> side \<Rightarrow> relay_pool \<Rightarrow> relay_pool" where
  "after_io c a x s = io_effect c a x (s\<lparr>sys_pending := sys_pending s - {(a, x)}\<rparr>)"

lemma after_io_facts:
  assumes "relay_heap s a = Some rc" and "complete an c a x s = Inr s'"
  obtains rc1 where "relay_heap (after_io c a x s) a = Some rc1" and "rc_s rc1 = rc_s rc" and "rc_closing rc1 = rc_closing rc"
    and "rc_refs rc1 = rc_refs rc" and "d_state (rc_dir rc1 x) = d_state (rc_dir rc x)"
    and "only_conn a x (after_io c a x s) s'" and "relay_worker an c a x (after_io c a x s) = Inr s'"
    and "\<forall>y. y \<noteq> x \<longrightarrow> ((a, y) \<in> sys_pending s') = ((a, y) \<in> sys_pending s)"
proof -
  let ?s0 = "s\<lparr>sys_pending := sys_pending s - {(a, x)}\<rparr>"
  have h0: "relay_heap ?s0 a = Some rc" using assms(1) by simp
  have oc: "only_conn a x (after_io c a x s) s'" using complete_only [OF assms(2)] by (simp add: after_io_def)
  then show ?thesis
    using that io_effect_heap(2) [OF h0, of c x] io_effect_heap(3) [OF h0, of c x] assms(2)
    by (auto simp: only_conn_def after_io_def complete_def)
qed

text \<open>A completion after which the connection is gone.\<close>

lemma complete_gone:
  assumes "pool_ok {} s" and "relay_heap s a = Some rc" and "(a, x) \<in> sys_pending s"
    and r: "complete an c a x s = Inr s'" and "relay_heap s' a = None"
  shows "(pipe_step (io_failed an c (rc_dir rc x)))\<^sup>*\<^sup>* (pipes_of s a) None"
proof -
  let ?F = "io_failed an c (rc_dir rc x)" and ?p = "pipe_of s a rc"
  obtain rc1 where rc1: "relay_heap (after_io c a x s) a = Some rc1" "rc_refs rc1 = rc_refs rc"
      "d_state (rc_dir rc1 x) = d_state (rc_dir rc x)" "relay_worker an c a x (after_io c a x s) = Inr s'"
    by (rule after_io_facts [OF assms(2) r])
  have c: "conns_ok {} s" using assms(1) by (simp add: pool_ok_def)
  have fl: "io_failed an c (rc_dir rc1 x) = ?F" using rc1(3) by (simp add: io_failed_def)
  show ?thesis
  proof (cases "?F \<or> rc_closing rc")
    case True
    have "?F \<Longrightarrow> pipe_step ?F (Some ?p) (Some (\<lambda>_. Broken))" by (rule pipe_step.breaks)
    moreover have "rc_closing rc \<Longrightarrow> ?p = (\<lambda>_. Broken)" by (simp add: pipe_of_def fun_eq_iff)
    moreover have "pipe_step ?F (Some (\<lambda>_. Broken)) None" by (rule pipe_step.closes) simp
    ultimately show ?thesis using True assms(2) by (auto simp: pipes_of_def intro: converse_rtranclp_into_rtranclp)
  next
    case False
    then have e: "rc_refs rc = 1" "d_state (rc_dir rc x) = RS_READ" using worker_calm [OF rc1(1) _ rc1(4)] fl assms(5) rc1(2,3) by auto
    then have "card (alive {} s a) = 1" using conns_okD(3) [OF c assms(2)] by simp
    moreover have "x \<in> alive {} s a" using assms(3) by (simp add: alive_def)
    ultimately have "alive {} s a = {x}" by (auto simp: card_1_singleton_iff)
    then have o: "y \<noteq> x \<Longrightarrow> ?p y = Finished" for y using False by (auto simp: alive_def pipe_of_def)
    have "waits (rc_dir rc x) (taken s rc x) (passed s rc x)" using conns_okD(6) [OF c assms(2), of x] assms(3) by (simp add: dir_ok_def)
    then have "?p x = Flowing []" using e(2) False assms(3) by (simp add: waits_def pipe_of_def)
    then have "pipe_step ?F (Some ?p) (Some (?p(x := Finished)))" by (rule pipe_step.finishes)
    moreover have "pipe_step ?F (Some (?p(x := Finished))) None" using o by (intro pipe_step.closes) auto
    ultimately show ?thesis using assms(2) by (auto simp: pipes_of_def intro: converse_rtranclp_into_rtranclp)
  qed
qed

text \<open>A completion after which the connection lives on.\<close>

lemma complete_stays:
  assumes "pool_ok {} s" and "relay_heap s a = Some rc" and "(a, x) \<in> sys_pending s" and "cp_ok c \<Longrightarrow> completion_ok c (rc_dir rc x)"
    and r: "complete an c a x s = Inr s'" and "relay_heap s' a = Some rc'" and ok': "pool_ok {} s'" and "\<not> rc_closing rc'"
  shows "(pipe_step (io_failed an c (rc_dir rc x)))\<^sup>*\<^sup>* (pipes_of s a) (pipes_of s' a)"
proof -
  let ?p = "pipe_of s a rc" and ?s1 = "after_io c a x s"
  obtain rc1 where rc1: "relay_heap ?s1 a = Some rc1" "rc_s rc1 = rc_s rc" "rc_closing rc1 = rc_closing rc" "only_conn a x ?s1 s'"
      and pend: "\<forall>y. y \<noteq> x \<longrightarrow> ((a, y) \<in> sys_pending s') = ((a, y) \<in> sys_pending s)"
    by (rule after_io_facts [OF assms(2) r])
  have s': "rc_s rc' = rc_s rc" "\<not> rc_closing rc" "sys_recvd s' = sys_recvd ?s1" "sys_sent s' = sys_sent ?s1"
    using rc1 assms(6,8) by (auto simp: only_conn_def)
  have tk: "taken s' rc' y = taken ?s1 rc y" "passed s' rc' y = passed ?s1 rc y" for y
    using s' by (simp_all add: taken_def passed_def)
  let ?q = "drop (length (passed s rc x)) (taken s rc x)" and ?q1 = "drop (length (passed ?s1 rc x)) (taken ?s1 rc x)"
  have px: "?p x = Flowing ?q" using s'(2) assms(3) by (simp add: pipe_of_def)
  have mv: "?q = [] \<or> (\<exists>n. ?q1 = drop n ?q)" using own_pipe [OF assms(1-4) after_io_def] .
  have py: "pipe_of s' a rc' y = ?p y" if "y \<noteq> x" for y
    using other_pipe [OF assms(1,2,2) _ after_io_def, of y] that pend s'(2) assms(8) tk by (simp add: pipe_of_def)
  show ?thesis
  proof (cases "(a, x) \<in> sys_pending s'")
    case True
    then have "pipe_of s' a rc' = ?p(x := Flowing ?q1)" using py assms(8) tk by (auto simp: pipe_of_def fun_eq_iff)
    then show ?thesis using pipe_moves(1) [of ?p x ?q, OF px mv] assms(2,6) by (simp add: pipes_of_def)
  next
    case False
    have "dir_ok {} s' a rc' x" using conns_okD(6) [OF _ assms(6)] ok' by (simp add: pool_ok_def)
    then have "?q1 = []" using False assms(8) tk by (simp add: dir_ok_def alive_def)
    moreover have "pipe_of s' a rc' = ?p(x := Finished)" using py False assms(8) by (auto simp: pipe_of_def fun_eq_iff)
    ultimately show ?thesis using pipe_moves(2) [of ?p x ?q, OF px mv] assms(2,6) by (simp add: pipes_of_def)
  qed
qed

lemma complete_refines:
  assumes "pool_ok {} s" and "relay_heap s a = Some rc" and "(a, x) \<in> sys_pending s"
    and "cp_ok c \<Longrightarrow> completion_ok c (rc_dir rc x)" and r: "complete an c a x s = Inr s'"
  shows "(pipe_step (io_failed an c (rc_dir rc x)))\<^sup>*\<^sup>* (pipes_of s a) (pipes_of s' a)"
proof (cases "relay_heap s' a")
  case None
  then show ?thesis using complete_gone [OF assms(1-3) r] by (simp add: pipes_of_def)
next
  case (Some rc')
  obtain rc1 where rc1: "relay_heap (after_io c a x s) a = Some rc1" "rc_closing rc1 = rc_closing rc"
      "d_state (rc_dir rc1 x) = d_state (rc_dir rc x)" "relay_worker an c a x (after_io c a x s) = Inr s'"
    by (rule after_io_facts [OF assms(2) r])
  have ok': "pool_ok {} s'" using complete_ok [OF assms(1,3,2,4), of an] r by (metis Inr_inject)
  show ?thesis
  proof (cases "rc_closing rc'")
    case True
    moreover have "io_failed an c (rc_dir rc1 x) = io_failed an c (rc_dir rc x)" using rc1(3) by (simp add: io_failed_def)
    ultimately have "io_failed an c (rc_dir rc x) \<or> rc_closing rc"
      using worker_calm [OF rc1(1) _ rc1(4)] Some rc1(2) by auto
    moreover have "pipe_of s' a rc' = (\<lambda>_. Broken)" "rc_closing rc \<Longrightarrow> pipe_of s a rc = (\<lambda>_. Broken)"
      using True by (simp_all add: pipe_of_def fun_eq_iff)
    ultimately show ?thesis using Some assms(2) by (auto simp: pipes_of_def intro: pipe_step.breaks)
  next
    case False
    then show ?thesis using complete_stays [OF assms Some ok'] by simp
  qed
qed

lemma complete_others:
  assumes "pool_ok {} s" and "relay_heap s a = Some rc" and r: "complete an c a x s = Inr s'" and "b \<noteq> a"
  shows "pipes_of s' b = pipes_of s b"
proof -
  let ?s0 = "s\<lparr>sys_pending := sys_pending s - {(a, x)}\<rparr>"
  have h0: "relay_heap ?s0 a = Some rc" using assms(2) by simp
  have oc: "only_conn a x (io_effect c a x ?s0) s'" using complete_only [OF r] .
  have h: "relay_heap s' b = relay_heap s b"
    using oc io_effect_heap(1) [OF h0 assms(4)] assms(4) by (simp add: only_conn_def)
  have p: "((b, y) \<in> sys_pending s') = ((b, y) \<in> sys_pending s)" for y
    using oc io_effect_heap(3) [OF h0] assms(4) by (simp add: only_conn_def)
  have "pipe_of s' b r y = pipe_of s b r y" if "relay_heap s b = Some r" for r y
    using other_pipe [OF assms(1,2) that, of y x _ c, OF _ refl] assms(4) oc p
    by (simp add: pipe_of_def taken_def passed_def only_conn_def)
  then show ?thesis using h by (cases "relay_heap s b") (simp_all add: pipes_of_def fun_eq_iff)
qed

text \<open>C14. The pool implements a pair of pipes per connection: whatever a completion reports, its handling is a sequence of
  steps of the two pipes of that connection, where they break only if something failed, and leaves every other
  connection's pipes alone.\<close>

theorem relay_refines_pipes:
  assumes "relay_step\<^sup>*\<^sup>* pool_init s" and "(a, x) \<in> sys_pending s" and "relay_heap s a = Some rc"
    and "completion_ok c (rc_dir rc x)" and "complete an c a x s = Inr s'"
  shows "(pipe_step (io_failed an c (rc_dir rc x)))\<^sup>*\<^sup>* (pipes_of s a) (pipes_of s' a) \<and> (\<forall>b. b \<noteq> a \<longrightarrow> pipes_of s' b = pipes_of s b)"
  using complete_refines [OF relay_reachable_ok [OF assms(1)] assms(3,2) _ assms(5)] assms(4)
    complete_others [OF relay_reachable_ok [OF assms(1)] assms(3,5)] by blast

section \<open>Stopping drains the pool\<close>

text \<open>Handling completions closes what it removes: a socket of a relay is open only while the relay lives.\<close>

definition shed :: "nat set \<Rightarrow> RELAY_CONN option \<Rightarrow> RELAY_CONN option \<Rightarrow> bool" where
  "shed open_sockets r r' \<longleftrightarrow>
     (case r of
        None \<Rightarrow> r' = None
      | Some rc \<Rightarrow> (case r' of None \<Rightarrow> range (rc_s rc) \<inter> open_sockets = {} | Some rc' \<Rightarrow> rc_s rc' = rc_s rc))"

definition sheds :: "relay_pool \<Rightarrow> relay_pool \<Rightarrow> bool" where
  "sheds s s' \<longleftrightarrow> sys_open s' \<subseteq> sys_open s \<and> g_iocp s' = g_iocp s \<and> (\<forall>a. shed (sys_open s') (relay_heap s a) (relay_heap s' a))"

lemma shed_simps [simp]: "shed S r r" "shed S None r = (r = None)"
  by (simp_all add: shed_def split: option.split)

lemma shed_trans: "shed S r r1 \<Longrightarrow> shed T r1 r2 \<Longrightarrow> T \<subseteq> S \<Longrightarrow> shed T r r2"
  by (cases r; cases r1; cases r2) (auto simp: shed_def)

lemma sheds_refl [simp]: "sheds s s"
  by (simp add: sheds_def)

lemma sheds_trans: "sheds s s1 \<Longrightarrow> sheds s1 s2 \<Longrightarrow> sheds s s2"
  unfolding sheds_def using shed_trans by blast

lemma sheds_only:
  assumes "only_conn a x s s'"
  shows "sheds s s'"
proof -
  have "shed (sys_open s') (relay_heap s b) (relay_heap s' b)" for b
    using assms by (cases "b = a") (auto simp: only_conn_def shed_def split: option.splits)
  then show ?thesis using assms by (simp add: sheds_def only_conn_def)
qed

lemma sheds_complete:
  assumes "relay_heap s a = Some rc" and "complete an c a x s = Inr s'"
  shows "sheds s s'"
proof -
  let ?s0 = "s\<lparr>sys_pending := sys_pending s - {(a, x)}\<rparr>"
  have h0: "relay_heap ?s0 a = Some rc" using assms(1) by simp
  have "shed (sys_open s) (relay_heap s b) (relay_heap (io_effect c a x ?s0) b)" for b
    using io_effect_heap(1) [OF h0, of b c x] io_effect_heap(2) [OF h0, of c x] assms(1) by (cases "b = a") (auto simp: shed_def)
  then have "sheds s (io_effect c a x ?s0)" using io_effect_heap(4,5) [OF h0, of c x] by (simp add: sheds_def)
  then show ?thesis using sheds_only [OF complete_only [OF assms(2)]] by (rule sheds_trans)
qed

lemma sheds_abort: "abort_all as s = Inr s' \<Longrightarrow> sheds s s'"
proof (induction as arbitrary: s)
  case (Cons a as)
  then obtain s1 where "relay_abort a s = Inr s1" "abort_all as s1 = Inr s'" by (auto simp: and_then_Inr)
  then show ?case using Cons.IH sheds_only [OF only_conn_abort] by (blast intro: sheds_trans)
qed simp

lemma sheds_pool_abort: "relay_pool_abort s = Inr s' \<Longrightarrow> sheds s s'"
  using sheds_abort [of "g_relay_head s" "s\<lparr>g_relay_accepting := False\<rparr>"] by (simp add: relay_pool_abort_def sheds_def)

lemma shed_sockets: "sheds s s' \<Longrightarrow> relay_heap s' a = Some rc' \<Longrightarrow> \<exists>rc. relay_heap s a = Some rc \<and> rc_s rc = rc_s rc'"
  unfolding sheds_def shed_def by (auto split: option.splits dest!: spec [of _ a])

lemma abort_all_open: "abort_all as s = Inr s' \<Longrightarrow> sys_open s' = sys_open s"
proof (induction as arbitrary: s)
  case (Cons a as)
  then obtain s1 where "relay_abort a s = Inr s1" "abort_all as s1 = Inr s'" by (auto simp: and_then_Inr)
  moreover from this(1) have "sys_open s1 = sys_open s"
    by (auto simp: relay_abort_def with_conn_def split: option.splits if_splits)
  ultimately show ?case using Cons.IH by simp
qed simp

lemma release_open:
  assumes "relay_release a s = Inr s'" and "relay_heap s a = Some rc"
  shows "sys_open s - range (rc_s rc) \<subseteq> sys_open s'"
  using assms by (auto simp: relay_release_def with_conn_def and_then_Inr closesocket_Inr relay_buf_put_def Let_def split: if_splits)

lemma dir_end_open:
  assumes "relay_dir_end a x clean s = Inr s'" and "relay_heap s a = Some rc"
  shows "sys_open s - range (rc_s rc) \<subseteq> sys_open s'"
proof -
  obtain s1 where s1: "(if clean then Inr (s\<lparr>sys_fin := insert (d_dst (rc_dir rc x)) (sys_fin s)\<rparr>) else relay_abort a s) = Inr s1"
      "relay_release a s1 = Inr s'"
    using assms by (auto simp: relay_dir_end_def with_conn_def and_then_Inr)
  then have "sys_open s1 = sys_open s \<and> (\<exists>rc1. relay_heap s1 a = Some rc1 \<and> rc_s rc1 = rc_s rc)"
    using assms(2) by (auto simp: relay_abort_def with_conn_def split: if_splits)
  then show ?thesis using release_open [OF s1(2)] by metis
qed

text \<open>\<open>spares s s'\<close>: a socket that belongs to no relay stays open.\<close>

definition spares :: "relay_pool \<Rightarrow> relay_pool \<Rightarrow> bool" where
  "spares s s' \<longleftrightarrow> (\<forall>h \<in> sys_open s. (\<forall>a rc. relay_heap s a = Some rc \<longrightarrow> h \<notin> range (rc_s rc)) \<longrightarrow> h \<in> sys_open s')"

lemma spares_open: "sys_open s' = sys_open s \<Longrightarrow> spares s s'"
  by (simp add: spares_def)

lemma spares_trans:
  assumes "spares s s1" and "sheds s s1" and "spares s1 s2"
  shows "spares s s2"
  using assms(1,3) shed_sockets [OF assms(2)] unfolding spares_def by metis

lemma spares_cancelled:
  assumes "relay_heap s a = Some rc" and "complete an c a x s = Inr s'" and "\<not> cp_ok c"
  shows "spares s s'"
proof -
  let ?s0 = "s\<lparr>sys_pending := sys_pending s - {(a, x)}\<rparr>"
  have "relay_dir_end a x False ?s0 = Inr s'" using assms by (simp add: complete_def relay_worker_def with_conn_def io_effect_def)
  then show ?thesis using dir_end_open [of a x False ?s0 s' rc] assms(1) by (auto simp: spares_def)
qed

text \<open>A cancelled request.\<close>

definition cancelled :: "io_answer \<times> completion \<times> addr \<times> side \<Rightarrow> bool" where
  "cancelled = (\<lambda>(an, c, a, x). \<not> cp_ok c)"

definition request_of :: "io_answer \<times> completion \<times> addr \<times> side \<Rightarrow> addr \<times> side" where
  "request_of = (\<lambda>(an, c, a, x). (a, x))"

lemma wait_relays_done_drains:
  assumes "pool_ok {} s" and "g_iocp s" and "list_all cancelled cs" and "distinct (map request_of cs)"
    and "request_of ` set cs = sys_pending s"
  shows "\<exists>s'. wait_relays_done cs s = Some (Inr s') \<and> pool_ok {} s' \<and> g_relay_head s' = [] \<and> sheds s s' \<and> spares s s'"
  using assms
proof (induction cs arbitrary: s)
  case Nil
  have "relay_heap s = Map.empty"
  proof (rule ccontr)
    assume "relay_heap s \<noteq> Map.empty"
    then obtain a rc where "relay_heap s a = Some rc" by (metis ext not_None_eq)
    then have "alive {} s a \<noteq> {}" using conns_okD(2) Nil.prems(1) by (simp add: pool_ok_def)
    then show False using Nil.prems(5) by (simp add: alive_def)
  qed
  then have "g_relay_head s = []" using Nil.prems(1) by (simp add: pool_ok_def list_ok_def)
  then show ?case using Nil.prems(1,2) by (auto simp: pool_ok_def list_ok_def spares_def)
next
  case (Cons e cs)
  obtain an c a x where e: "e = (an, c, a, x)" by (cases e)
  have pe: "(a, x) \<in> sys_pending s" and f: "\<not> cp_ok c" using Cons.prems(3,5) by (auto simp: e request_of_def cancelled_def)
  have c: "conns_ok {} s" using Cons.prems(1) by (simp add: pool_ok_def)
  obtain rc where rc: "relay_heap s a = Some rc" using conns_ok_pending(1) [OF c pe] by blast
  then have "g_relay_head s \<noteq> []" using Cons.prems(1) by (auto simp: pool_ok_def list_ok_def)
  then have nd: "g_relay_done s \<noteq> Some True" using Cons.prems(1,2) by (simp add: pool_ok_def list_ok_def)
  obtain s1 where s1: "complete an c a x s = Inr s1" "pool_ok {} s1" "sys_pending s1 = sys_pending s - {(a, x)}"
    by (rule complete_ok [OF Cons.prems(1) pe rc, of c an]) (use f in auto)
  have sh: "sheds s s1" using sheds_complete [OF rc s1(1)] .
  then have "g_iocp s1" using Cons.prems(2) by (simp add: sheds_def)
  moreover have "request_of ` set cs = sys_pending s1"
    using Cons.prems(4) Cons.prems(5) [symmetric] s1(3) by (auto simp: e request_of_def)
  ultimately obtain s' where "wait_relays_done cs s1 = Some (Inr s')" "pool_ok {} s'" "g_relay_head s' = []" "sheds s1 s'"
      "spares s1 s'"
    using Cons.IH [OF s1(2)] Cons.prems(3,4) by auto
  then show ?case using nd s1(1) sheds_trans [OF sh] spares_trans [OF spares_cancelled [OF rc s1(1) f] sh] by (auto simp: e)
qed

lemma pool_shutdown_ok: "pool_ok {} s \<Longrightarrow> g_relay_head s = [] \<Longrightarrow> pool_ok {} (pool_shutdown s)"
  by (simp add: pool_ok_idle pool_shutdown_def)

lemma relay_pool_stop_ok:
  assumes "pool_ok {} s" and "g_iocp s" and "list_all cancelled cs" and "distinct (map request_of cs)"
    and "request_of ` set cs = sys_pending s"
  obtains s' where "relay_pool_stop cs s = Some (Inr s')" and "pool_ok {} s'" and "relay_heap s' = Map.empty"
    and "sys_buffers s' = 0" and "\<not> g_iocp s'" and "\<And>a rc x. relay_heap s a = Some rc \<Longrightarrow> rc_s rc x \<notin> sys_open s'"
    and "spares s s'"
proof -
  obtain s1 where s1: "relay_pool_abort s = Inr s1" "pool_ok {} s1" "sys_pending s1 = sys_pending s" "g_iocp s1 = g_iocp s"
    using relay_pool_abort_ok [OF assms(1)] .
  obtain s2 where s2: "wait_relays_done cs s1 = Some (Inr s2)" "pool_ok {} s2" "g_relay_head s2 = []" "sheds s1 s2" "spares s1 s2"
    using wait_relays_done_drains [OF s1(2), of cs] assms(2-5) s1(3,4) by auto
  have sh: "sheds s s2" using sheds_trans [OF sheds_pool_abort [OF s1(1)] s2(4)] .
  have "sys_open s1 = sys_open s" using s1(1) abort_all_open by (fastforce simp: relay_pool_abort_def)
  then have sp: "spares s s2" using spares_trans [OF spares_open sheds_pool_abort [OF s1(1)] s2(5)] by simp
  have e: "relay_heap s2 = Map.empty" "sys_buffers s2 = g_relay_pool_n s2" using s2(2,3) by (simp_all add: pool_ok_idle)
  show ?thesis
  proof (rule that [of "pool_shutdown s2"])
    show "rc_s rc x \<notin> sys_open (pool_shutdown s2)" if "relay_heap s a = Some rc" for a rc x
    proof -
      have "shed (sys_open s2) (Some rc) None" using sh that e(1) by (metis sheds_def)
      then show ?thesis by (auto simp: shed_def pool_shutdown_def)
    qed
  qed (use assms(2) s1(1) s2(1) e sp pool_shutdown_ok [OF s2(2,3)] in
      \<open>simp_all add: relay_pool_stop_def pool_shutdown_def spares_def\<close>)
qed

text \<open>C17. Stopping the pool ends and leaves nothing behind: once the requests outstanding at the abort are cancelled, in
  whatever order, the wait returns, no connection is left, every socket that was relayed is closed, and no buffer
  remains allocated.\<close>

theorem relay_pool_stop_drains:
  assumes "relay_step\<^sup>*\<^sup>* pool_init s" and "g_iocp s" and "list_all cancelled cs" and "distinct (map request_of cs)"
    and "request_of ` set cs = sys_pending s"
  shows "\<exists>s'. relay_pool_stop cs s = Some (Inr s') \<and> relay_heap s' = Map.empty \<and> sys_buffers s' = 0 \<and> \<not> g_iocp s' \<and>
     (\<forall>a rc x. relay_heap s a = Some rc \<longrightarrow> rc_s rc x \<notin> sys_open s')"
  by (rule relay_pool_stop_ok [OF relay_reachable_ok [OF assms(1)] assms(2-5)]) blast

section \<open>A pool with one connection\<close>

definition pending_answer :: io_answer where
  "pending_answer = \<lparr>an_rc = - 1, an_err = 997, an_malloc = True\<rparr>"

definition sample_start :: relay_begin where
  "sample_start = \<lparr>rb_calloc = Some 5, rb_assoc = True, rb_up = pending_answer, rb_down = pending_answer,
     rb_running = True, rb_still_running = True\<rparr>"

definition sample_system :: pool_start where
  "sample_system = \<lparr>ps_event = True, ps_port = True, ps_cpus = 8, ps_thread = (\<lambda>_. True)\<rparr>"

definition open_pool :: relay_pool where
  "open_pool = pool_init\<lparr>g_iocp := True, g_relay_nworkers := 4, g_relay_accepting := True, g_relay_done := Some True,
     sys_open := {10, 11}\<rparr>"

definition sample_pool :: relay_pool where
  "sample_pool = open_pool\<lparr>relay_heap := [5 \<mapsto> new_conn 10 11], g_relay_head := [5], g_active_relays := 1, g_relay_done := Some False,
     sys_pending := {(5, Upload), (5, Download)}\<rparr>"

lemma open_pool_reachable: "relay_step\<^sup>*\<^sup>* pool_init open_pool"
proof -
  let ?s1 = "pool_init\<lparr>g_iocp := True, g_relay_nworkers := 4, g_relay_accepting := True, g_relay_done := Some True\<rparr>"
  have "snd (relay_pool_start sample_system pool_init) = ?s1"
    by (simp add: relay_pool_start_def sample_system_def pool_init_def)
  then have "relay_step pool_init ?s1" using relay_step.pool_starts [of pool_init sample_system] by simp
  moreover have "relay_step ?s1 (?s1\<lparr>sys_open := {10}\<rparr>)" using relay_step.opened [of 10 ?s1] by (simp add: pool_init_def fun_upd_idem)
  moreover have "relay_step (?s1\<lparr>sys_open := {10}\<rparr>) open_pool" using relay_step.opened [of 11 "?s1\<lparr>sys_open := {10}\<rparr>"]
    by (simp add: pool_init_def open_pool_def fun_upd_idem insert_commute)
  ultimately show ?thesis by (meson rtranclp.rtrancl_into_rtrancl rtranclp.rtrancl_refl)
qed

lemma case_side_idle: "(case_side a b)(Upload := a) = case_side a b" "(case_side a b)(Download := b) = case_side a b"
  by (simp_all add: fun_eq_iff split: side.split)

lemma sample_relay_starts: "relay_start sample_start 10 11 open_pool = Inr (True, sample_pool)"
  by (simp add: relay_start_def sample_start_def open_pool_def pool_init_def first_wait_def relay_post_wait_def with_conn_def
    posted_def proceed_def set_dir_def relay_buf_put_def new_dir_def relay_io_ok_def pending_answer_def sample_pool_def new_conn_def
    case_side_idle insert_commute)

lemma sample_pool_reachable: "relay_step\<^sup>*\<^sup>* pool_init sample_pool"
proof -
  have "fresh_pair 10 11 open_pool" by (simp add: fresh_pair_def open_pool_def pool_init_def)
  then have "relay_step open_pool sample_pool"
    by (rule relay_step.starts [OF _ _ sample_relay_starts]) (simp add: sample_start_def open_pool_def pool_init_def)
  with open_pool_reachable show ?thesis by (rule rtranclp.rtrancl_into_rtrancl)
qed

lemma sample_pool_facts:
  "sys_pending sample_pool = {(5, Upload), (5, Download)}" "relay_heap sample_pool 5 = Some (new_conn 10 11)" "g_iocp sample_pool"
  by (simp_all add: sample_pool_def open_pool_def)

definition readable :: completion where
  "readable = \<lparr>cp_ok = True, cp_n = 0, cp_data = []\<rparr>"

definition aborted :: completion where
  "aborted = \<lparr>cp_ok = False, cp_n = 0, cp_data = []\<rparr>"

theorem relay_pool_safe_witness:
  "\<exists>s'. complete pending_answer readable 5 Upload sample_pool = Inr s'"
  using relay_pool_safe [OF sample_pool_reachable] sample_pool_facts
  by (auto simp: completion_ok_def new_conn_def new_dir_def)

theorem relay_stream_intact_witness:
  "prefix (passed sample_pool (new_conn 10 11) Upload) (taken sample_pool (new_conn 10 11) Upload) \<and> 11 \<notin> sys_fin sample_pool"
  using relay_stream_intact [OF sample_pool_reachable sample_pool_facts(2), of Upload] sample_pool_facts
  by (simp add: new_conn_def)

theorem relay_refines_pipes_witness:
  "\<exists>s'. complete pending_answer readable 5 Upload sample_pool = Inr s' \<and>
     (pipe_step False)\<^sup>*\<^sup>* (Some (\<lambda>_. Flowing [])) (pipes_of s' 5)"
proof -
  have c: "completion_ok readable (rc_dir (new_conn 10 11) Upload)" by (simp add: completion_ok_def new_conn_def new_dir_def)
  have p: "(5, Upload) \<in> sys_pending sample_pool" using sample_pool_facts by simp
  have f: "\<not> io_failed pending_answer readable (rc_dir (new_conn 10 11) Upload)"
    by (simp add: io_failed_def readable_def pending_answer_def relay_io_ok_def new_conn_def new_dir_def)
  have "pipe_of sample_pool 5 (new_conn 10 11) x = Flowing []" for x
    by (cases x) (simp_all add: pipe_of_def sample_pool_facts taken_def passed_def sample_pool_def open_pool_def pool_init_def new_conn_def)
  then have a: "pipes_of sample_pool 5 = Some (\<lambda>_. Flowing [])" by (simp add: pipes_of_def sample_pool_facts fun_eq_iff)
  obtain s' where s': "complete pending_answer readable 5 Upload sample_pool = Inr s'"
    using complete_ok [OF relay_reachable_ok [OF sample_pool_reachable] p sample_pool_facts(2) c, of pending_answer] by blast
  then show ?thesis
    using relay_refines_pipes [OF sample_pool_reachable p sample_pool_facts(2) c s'] f a by simp
qed

theorem relay_pool_stop_drains_witness:
  "\<exists>s'. relay_pool_stop [(pending_answer, aborted, 5, Download), (pending_answer, aborted, 5, Upload)] sample_pool = Some (Inr s') \<and>
     relay_heap s' = Map.empty \<and> sys_buffers s' = 0 \<and> 10 \<notin> sys_open s' \<and> 11 \<notin> sys_open s'"
proof -
  let ?cs = "[(pending_answer, aborted, 5, Download), (pending_answer, aborted, 5, Upload)]"
  have "\<exists>s'. relay_pool_stop ?cs sample_pool = Some (Inr s') \<and> relay_heap s' = Map.empty \<and> sys_buffers s' = 0 \<and> \<not> g_iocp s' \<and>
     (\<forall>a rc x. relay_heap sample_pool a = Some rc \<longrightarrow> rc_s rc x \<notin> sys_open s')"
    by (rule relay_pool_stop_drains [OF sample_pool_reachable sample_pool_facts(3)])
      (auto simp: cancelled_def request_of_def aborted_def sample_pool_facts)
  then obtain s' where s': "relay_pool_stop ?cs sample_pool = Some (Inr s')" "relay_heap s' = Map.empty" "sys_buffers s' = 0"
      "\<And>x. rc_s (new_conn 10 11) x \<notin> sys_open s'"
    using sample_pool_facts(2) by blast
  have "10 \<notin> sys_open s'" "11 \<notin> sys_open s'" using s'(4) [of Upload] s'(4) [of Download] by (simp_all add: new_conn_def)
  with s' show ?thesis by blast
qed

end
