(* ===== verification/PB_Blocking.thy ===== *)
theory PB_Blocking
  imports PB_Pipes PB_Util
begin

text \<open>
  The blocking relay of \<open>pb_relay.c\<close>, used when the completion port cannot take a connection: the list of relay pairs,
  the one-way threads that share a pair, and \<open>transfer_handler\<close>, which chooses between the two relays. A socket handle
  that is used after it was closed is a fault, as is a pair that is used after it was freed.
  The lemmas show that neither happens however the threads interleave, that the last thread out releases everything,
  and that a direction passes its bytes on unchanged.
\<close>

section \<open>State\<close>

record RELAY_PAIR =
  sock_client :: nat
  sock_proxy :: nat
  pair_refs :: int
  registered :: bool

text \<open>The list of active pairs, the pairs in memory, the shutdown event (\<open>None\<close> while there is none) and the threads that
  run \<open>one_way_relay\<close>. The sockets are those of the pool's system state.\<close>

record relays =
  pool :: relay_pool
  active_relay_pairs :: "addr list"
  pair_heap :: "addr \<rightharpoonup> RELAY_PAIR"
  shutdown_event :: "bool option"
  relay_threads :: "(addr \<times> side) set"

definition relays_init :: relays where
  "relays_init = \<lparr>pool = pool_init, active_relay_pairs = [], pair_heap = Map.empty, shutdown_event = None, relay_threads = {}\<rparr>"

definition with_pair :: "addr \<Rightarrow> (RELAY_PAIR \<Rightarrow> relays \<Rightarrow> fault + 'r) \<Rightarrow> relays \<Rightarrow> fault + 'r" where
  "with_pair a f s = (case pair_heap s a of None \<Rightarrow> Inl UseAfterFree | Some p \<Rightarrow> f p s)"

definition close_socket :: "nat \<Rightarrow> relays \<Rightarrow> fault + relays" where
  "close_socket h s = and_then (closesocket h (pool s)) (\<lambda>pl. Inr (s\<lparr>pool := pl\<rparr>))"

definition shutdown_socket :: "nat \<Rightarrow> relays \<Rightarrow> fault + relays" where
  "shutdown_socket h s =
     (if h \<in> sys_open (pool s) then Inr (s\<lparr>pool := (pool s)\<lparr>sys_fin := insert h (sys_fin (pool s))\<rparr>\<rparr>) else Inl UseAfterFree)"

section \<open>The list of pairs\<close>

definition register_relay_pair :: "bool \<Rightarrow> addr \<Rightarrow> relays \<Rightarrow> bool \<times> relays" where
  "register_relay_pair is_running a s =
     (if shutdown_event s = None \<or> is_running
      then (True, s\<lparr>active_relay_pairs := a # active_relay_pairs s,
                    pair_heap := (pair_heap s)(a := map_option (\<lambda>p. p\<lparr>registered := True\<rparr>) (pair_heap s a))\<rparr>)
      else (False, s))"

definition unregister_relay_pair :: "addr \<Rightarrow> relays \<Rightarrow> relays" where
  "unregister_relay_pair a s =
     (case pair_heap s a of
        None \<Rightarrow> s
      | Some p \<Rightarrow>
          if registered p
          then s\<lparr>active_relay_pairs := remove_first ((=) a) (active_relay_pairs s), pair_heap := (pair_heap s)(a \<mapsto> p\<lparr>registered := False\<rparr>)\<rparr>
          else s)"

definition shutdown_pair :: "RELAY_PAIR \<Rightarrow> relays \<Rightarrow> fault + relays" where
  "shutdown_pair p s = and_then (shutdown_socket (sock_client p) s) (shutdown_socket (sock_proxy p))"

fun shutdown_pairs :: "addr list \<Rightarrow> relays \<Rightarrow> fault + relays" where
  "shutdown_pairs [] s = Inr s"
| "shutdown_pairs (a # as) s = and_then (with_pair a shutdown_pair s) (shutdown_pairs as)"

text \<open>With the number of pairs, which is logged.\<close>

definition abort_active_relays :: "relays \<Rightarrow> fault + nat \<times> relays" where
  "abort_active_relays s =
     and_then (relay_pool_abort (pool s)) (\<lambda>pl.
       and_then (shutdown_pairs (active_relay_pairs s) (s\<lparr>pool := pl\<rparr>)) (\<lambda>s1. Inr (length (active_relay_pairs s), s1)))"

section \<open>One direction\<close>

text \<open>What the calls of one iteration report: whether the shutdown event is set, the result of \<open>select\<close>, what \<open>recv\<close>
  returns (\<open>None\<close>: an error; the empty list: the end of the stream) and what each \<open>send\<close> accepts.\<close>

record ow_round =
  ow_shutdown :: bool
  ow_select :: int
  ow_recv :: "bytes option"
  ow_accept :: "nat list"

abbreviation (input) ONE_WAY_BUF :: nat where "ONE_WAY_BUF \<equiv> 131072"

text \<open>The loop, with the last value of \<open>len\<close>, the bytes received and the bytes sent so far. \<open>None\<close>: still running when the
  iterations are used up. Else whether the stream ended cleanly, and all bytes received and sent.\<close>

fun one_way_loop :: "ow_round list \<Rightarrow> int \<Rightarrow> bytes \<Rightarrow> bytes \<Rightarrow> (bool \<times> bytes \<times> bytes) option" where
  "one_way_loop [] len got sent = None"
| "one_way_loop (r # rs) len got sent =
     (if ow_shutdown r then Some (len = 0, got, sent)
      else if ow_select r = 0 then one_way_loop rs len got sent
      else if ow_select r = - 1 then Some (len = 0, got, sent)
      else case ow_recv r of
        None \<Rightarrow> Some (False, got, sent)
      | Some segment \<Rightarrow>
          let buf = take ONE_WAY_BUF segment in
          if buf = [] then Some (True, got, sent)
          else case send_all buf \<lparr>sk_in = [], sk_accept = ow_accept r, sk_out = sent\<rparr> of (n, sk) \<Rightarrow>
            if n = - 1 then Some (False, got @ buf, sk_out sk)
            else one_way_loop rs (int (length buf)) (got @ buf) (sk_out sk))"

text \<open>The upload reads the client's socket and writes the proxy's.\<close>

fun from_socket :: "RELAY_PAIR \<Rightarrow> side \<Rightarrow> nat" where
  "from_socket p Upload = sock_client p"
| "from_socket p Download = sock_proxy p"

definition to_socket :: "RELAY_PAIR \<Rightarrow> side \<Rightarrow> nat" where
  "to_socket p x = from_socket p (opposite x)"

text \<open>The end of a direction: half-close or abort, and the last one out closes and frees everything.\<close>

definition one_way_end :: "addr \<Rightarrow> side \<Rightarrow> bool \<Rightarrow> relays \<Rightarrow> fault + relays" where
  "one_way_end a x clean_eof = with_pair a (\<lambda>p s.
     and_then (if clean_eof then shutdown_socket (to_socket p x) s else shutdown_pair p s) (\<lambda>s1.
       let refs = pair_refs p - 1;
           s2 = s1\<lparr>relay_threads := relay_threads s1 - {(a, x)}, pair_heap := (pair_heap s1)(a \<mapsto> p\<lparr>pair_refs := refs\<rparr>)\<rparr>
       in if refs \<noteq> 0 then Inr s2
          else and_then (close_socket (sock_client p) (unregister_relay_pair a s2)) (\<lambda>s3.
               and_then (close_socket (sock_proxy p) s3) (\<lambda>s4.
                 Inr (s4\<lparr>pair_heap := (pair_heap s4)(a := None)\<rparr>)))))"

text \<open>\<open>malloc\<close>: whether the buffer could be allocated.\<close>

definition one_way_relay :: "bool \<Rightarrow> ow_round list \<Rightarrow> addr \<Rightarrow> side \<Rightarrow> relays \<Rightarrow> (fault + bytes \<times> bytes \<times> relays) option" where
  "one_way_relay malloc rounds a x s =
     (case (if malloc then one_way_loop rounds (- 1) [] [] else Some (False, [], [])) of
        None \<Rightarrow> None
      | Some (clean_eof, got, sent) \<Rightarrow>
          Some (and_then (one_way_end a x clean_eof s) (\<lambda>s1. Inr (got, sent, s1))))"

section \<open>Handing a connection over\<close>

text \<open>What the calls report: to \<open>relay_start\<close>, the allocations of the pair and of the two thread arguments, the creation
  of the thread, and the value of \<open>running\<close> when the pair is registered.\<close>

record transfer_env =
  te_begin :: relay_begin
  te_pair :: "addr option"
  te_running :: bool
  te_up :: bool
  te_dn :: bool
  te_thread :: bool

definition close_both :: "int \<Rightarrow> nat \<Rightarrow> nat \<Rightarrow> relays \<Rightarrow> fault + int \<times> relays" where
  "close_both code client proxy s =
     and_then (close_socket client s) (\<lambda>s1. and_then (close_socket proxy s1) (\<lambda>s2. Inr (code, s2)))"

definition free_pair :: "addr \<Rightarrow> relays \<Rightarrow> relays" where
  "free_pair a s = s\<lparr>pair_heap := (pair_heap s)(a := None)\<rparr>"

text \<open>Up to the point where both directions run; the caller then waits for them.\<close>

definition transfer_handler :: "transfer_env \<Rightarrow> nat \<Rightarrow> nat \<Rightarrow> relays \<Rightarrow> fault + int \<times> relays" where
  "transfer_handler te client proxy s =
     and_then (relay_start (te_begin te) client proxy (pool s)) (\<lambda>(started, pl).
       let s0 = s\<lparr>pool := pl\<rparr> in
       if started then Inr (0, s0)
       else case te_pair te of
         None \<Rightarrow> close_both 1 client proxy s0
       | Some a \<Rightarrow>
           let s1 = s0\<lparr>pair_heap := (pair_heap s0)(a \<mapsto> \<lparr>sock_client = client, sock_proxy = proxy, pair_refs = 2, registered = False\<rparr>)\<rparr>
           in case register_relay_pair (te_running te) a s1 of (ok, s2) \<Rightarrow>
             if \<not> ok then close_both 0 client proxy (free_pair a s2)
             else if \<not> te_up te \<or> \<not> te_dn te then close_both 1 client proxy (free_pair a (unregister_relay_pair a s2))
             else if \<not> te_thread te then close_both 1 client proxy (free_pair a (unregister_relay_pair a s2))
             else Inr (0, s2\<lparr>relay_threads := relay_threads s2 \<union> {(a, Upload), (a, Download)}\<rparr>))"

section \<open>A direction passes its bytes on\<close>

lemma one_way_loop_stream:
  assumes "one_way_loop rs len got got = Some (clean, got', sent')" and "len \<noteq> 0"
  shows "prefix got got' \<and> prefix sent' got' \<and> (clean \<longrightarrow> sent' = got')"
  using assms
proof (induction rs arbitrary: len got)
  case (Cons r rs)
  show ?case
  proof (cases "ow_shutdown r \<or> ow_select r = 0 \<or> ow_select r = - 1")
    case True
    then show ?thesis using Cons by (auto split: if_splits)
  next
    case False
    show ?thesis
    proof (cases "ow_recv r")
      case None
      then show ?thesis using False Cons.prems by auto
    next
      case (Some segment)
      let ?buf = "take ONE_WAY_BUF segment"
      show ?thesis
      proof (cases "?buf = []")
        case True
        then show ?thesis using False Some Cons.prems by (auto simp: Let_def simp del: take_eq_Nil take_eq_Nil2)
      next
        case ne: False
        obtain n sk where s: "send_all ?buf \<lparr>sk_in = [], sk_accept = ow_accept r, sk_out = got\<rparr> = (n, sk)" by force
        note spec = send_all_spec [OF s]
        show ?thesis
        proof (cases "n = - 1")
          case True
          then have "got' = got @ ?buf" "sent' = sk_out sk" "\<not> clean"
            using False Some ne s Cons.prems by (simp_all add: Let_def del: take_eq_Nil take_eq_Nil2)
          moreover obtain m where "sk_out sk = got @ take m ?buf" using spec True by fastforce
          ultimately show ?thesis using take_is_prefix [of m ?buf] by simp
        next
          case n: False
          then have "sk_out sk = got @ ?buf" using spec by simp
          then have "one_way_loop rs (int (length ?buf)) (got @ ?buf) (got @ ?buf) = Some (clean, got', sent')"
            using False Some ne s n Cons.prems by (simp add: Let_def del: take_eq_Nil take_eq_Nil2)
          moreover have "int (length ?buf) \<noteq> 0" using ne by (simp del: take_eq_Nil take_eq_Nil2 length_take)
          ultimately show ?thesis using Cons.IH [of "int (length ?buf)" "got @ ?buf"] by (auto intro: append_prefixD)
        qed
      qed
    qed
  qed
qed simp

section \<open>The invariant of the pairs\<close>

definition pair_sockets :: "RELAY_PAIR \<Rightarrow> nat set" where
  "pair_sockets p = {sock_client p, sock_proxy p}"

text \<open>The directions of a pair that run.\<close>

definition running_dirs :: "relays \<Rightarrow> addr \<Rightarrow> side set" where
  "running_dirs s a = {x. (a, x) \<in> relay_threads s}"

definition pair_ok :: "relays \<Rightarrow> addr \<Rightarrow> RELAY_PAIR \<Rightarrow> bool" where
  "pair_ok s a p \<longleftrightarrow> sock_client p \<noteq> sock_proxy p \<and> pair_sockets p \<subseteq> sys_open (pool s) \<and> registered p \<and>
     running_dirs s a \<noteq> {} \<and> pair_refs p = int (card (running_dirs s a))"

definition pairs_ok :: "relays \<Rightarrow> bool" where
  "pairs_ok s \<longleftrightarrow> pool_ok {} (pool s) \<and> distinct (active_relay_pairs s) \<and> set (active_relay_pairs s) = dom (pair_heap s) \<and>
     (\<forall>a. running_dirs s a \<noteq> {} \<longrightarrow> a \<in> dom (pair_heap s)) \<and>
     (\<forall>a p. pair_heap s a = Some p \<longrightarrow> pair_ok s a p) \<and>
     (\<forall>a b p q. pair_heap s a = Some p \<and> pair_heap s b = Some q \<and> a \<noteq> b \<longrightarrow> pair_sockets p \<inter> pair_sockets q = {}) \<and>
     (\<forall>a p b rc. pair_heap s a = Some p \<and> relay_heap (pool s) b = Some rc \<longrightarrow> pair_sockets p \<inter> range (rc_s rc) = {})"

lemma pairs_okD:
  assumes "pairs_ok s" and "pair_heap s a = Some p"
  shows "pair_ok s a p" "sock_client p \<noteq> sock_proxy p" "pair_sockets p \<subseteq> sys_open (pool s)" "registered p"
    "sock_client p \<in> sys_open (pool s)" "sock_proxy p \<in> sys_open (pool s)"
    "pair_refs p = int (card (running_dirs s a))" "running_dirs s a \<noteq> {}" "a \<in> set (active_relay_pairs s)"
proof -
  show "pair_ok s a p" using assms by (simp add: pairs_ok_def)
  then show "sock_client p \<noteq> sock_proxy p" "pair_sockets p \<subseteq> sys_open (pool s)" "registered p"
    "sock_client p \<in> sys_open (pool s)" "sock_proxy p \<in> sys_open (pool s)"
    "pair_refs p = int (card (running_dirs s a))" "running_dirs s a \<noteq> {}"
    by (auto simp: pair_ok_def pair_sockets_def)
  show "a \<in> set (active_relay_pairs s)" using assms by (auto simp: pairs_ok_def)
qed

lemma pairs_ok_apart:
  assumes "pairs_ok s" and "pair_heap s a = Some p"
  shows "pair_heap s b = Some q \<Longrightarrow> a \<noteq> b \<Longrightarrow> pair_sockets p \<inter> pair_sockets q = {}"
    "relay_heap (pool s) b = Some rc \<Longrightarrow> pair_sockets p \<inter> range (rc_s rc) = {}"
  using assms unfolding pairs_ok_def by blast+

lemma pairs_okI:
  assumes "pool_ok {} (pool s)" and "distinct (active_relay_pairs s)" and "set (active_relay_pairs s) = dom (pair_heap s)"
    and "\<And>a. running_dirs s a \<noteq> {} \<Longrightarrow> a \<in> dom (pair_heap s)"
    and "\<And>a p. pair_heap s a = Some p \<Longrightarrow> pair_ok s a p"
    and "\<And>a b p q. pair_heap s a = Some p \<Longrightarrow> pair_heap s b = Some q \<Longrightarrow> a \<noteq> b \<Longrightarrow> pair_sockets p \<inter> pair_sockets q = {}"
    and "\<And>a p b rc. pair_heap s a = Some p \<Longrightarrow> relay_heap (pool s) b = Some rc \<Longrightarrow> pair_sockets p \<inter> range (rc_s rc) = {}"
  shows "pairs_ok s"
  unfolding pairs_ok_def
proof (intro conjI allI impI)
  show "pair_sockets p \<inter> pair_sockets q = {}" if "pair_heap s a = Some p \<and> pair_heap s b = Some q \<and> a \<noteq> b" for a b p q
    using that assms(6) by blast
  show "pair_sockets p \<inter> range (rc_s rc) = {}" if "pair_heap s a = Some p \<and> relay_heap (pool s) b = Some rc" for a p b rc
    using that assms(7) by blast
qed (use assms(1-5) in simp_all)

lemma pairs_ok_pool_ok: "pairs_ok s \<Longrightarrow> pool_ok {} (pool s)"
  by (simp add: pairs_ok_def)

lemma running_dirs_pool [simp]:
  "running_dirs (s\<lparr>pool := pl\<rparr>) a = running_dirs s a" "running_dirs (s\<lparr>pair_heap := h\<rparr>) a = running_dirs s a"
  "running_dirs (s\<lparr>active_relay_pairs := l\<rparr>) a = running_dirs s a"
  by (simp_all add: running_dirs_def)

lemma pair_ok_pool:
  "pair_ok s a p \<Longrightarrow> pair_sockets p \<subseteq> sys_open pl \<Longrightarrow> pair_ok (s\<lparr>pool := pl\<rparr>) a p"
  by (simp add: pair_ok_def)

text \<open>The pool may change as long as it keeps the sockets of the pairs open and does not take them over.\<close>

lemma pairs_ok_pool:
  assumes "pairs_ok s" and "pool_ok {} pl"
    and "\<And>a p. pair_heap s a = Some p \<Longrightarrow> pair_sockets p \<subseteq> sys_open pl"
    and "\<And>a p b rc. pair_heap s a = Some p \<Longrightarrow> relay_heap pl b = Some rc \<Longrightarrow> pair_sockets p \<inter> range (rc_s rc) = {}"
  shows "pairs_ok (s\<lparr>pool := pl\<rparr>)"
  unfolding pairs_ok_def
proof (intro conjI)
  show "\<forall>a p b rc. pair_heap (s\<lparr>pool := pl\<rparr>) a = Some p \<and> relay_heap (pool (s\<lparr>pool := pl\<rparr>)) b = Some rc \<longrightarrow>
      pair_sockets p \<inter> range (rc_s rc) = {}"
    by (auto dest: assms(4))
qed (use assms(1-3) in \<open>simp_all add: pairs_ok_def pair_ok_pool\<close>)

lemma shutdown_socket_open:
  "h \<in> sys_open (pool s) \<Longrightarrow> shutdown_socket h s = Inr (s\<lparr>pool := (pool s)\<lparr>sys_fin := insert h (sys_fin (pool s))\<rparr>\<rparr>)"
  by (simp add: shutdown_socket_def)

text \<open>Shutting down a socket that is no pool relay's leaves the pool's invariant.\<close>

lemma pool_ok_fin:
  assumes "pool_ok {} s" and "\<And>a rc. relay_heap s a = Some rc \<Longrightarrow> h \<notin> range (rc_s rc)"
  shows "pool_ok {} (s\<lparr>sys_fin := insert h (sys_fin s)\<rparr>)"
proof -
  have "conns_ok {} s" using assms(1) by (simp add: pool_ok_def)
  then have "conns_ok {} (s\<lparr>sys_fin := insert h (sys_fin s)\<rparr>)"
    by (rule conns_ok_sockets [where h = h and a = 0]) (use assms(2) in \<open>auto simp: same_elsewhere_def\<close>)
  then show ?thesis using assms(1) by (simp add: pool_ok_def list_ok_def buf_ok_def held_def)
qed

lemma pool_ok_close:
  assumes "pool_ok {} s" and "\<And>a rc. relay_heap s a = Some rc \<Longrightarrow> h \<notin> range (rc_s rc)"
  shows "pool_ok {} (s\<lparr>sys_open := sys_open s - {h}\<rparr>)"
proof -
  have "conns_ok {} s" using assms(1) by (simp add: pool_ok_def)
  then have "conns_ok {} (s\<lparr>sys_open := sys_open s - {h}\<rparr>)"
    by (rule conns_ok_sockets [where h = h and a = 0]) (use assms(2) in \<open>auto simp: same_elsewhere_def\<close>)
  then show ?thesis using assms(1) by (simp add: pool_ok_def list_ok_def buf_ok_def held_def)
qed

text \<open>\<open>fins F s\<close>: the state after shutting the sockets \<open>F\<close> down.\<close>

definition fins :: "nat set \<Rightarrow> relays \<Rightarrow> relays" where
  "fins F s = s\<lparr>pool := (pool s)\<lparr>sys_fin := F \<union> sys_fin (pool s)\<rparr>\<rparr>"

lemma fins_fields [simp]:
  "active_relay_pairs (fins F s) = active_relay_pairs s" "pair_heap (fins F s) = pair_heap s"
  "relay_threads (fins F s) = relay_threads s" "sys_open (pool (fins F s)) = sys_open (pool s)"
  "relay_heap (pool (fins F s)) = relay_heap (pool s)"
  by (simp_all add: fins_def)

lemma fins_insert: "h \<in> sys_open (pool s) \<Longrightarrow> shutdown_socket h (fins F s) = Inr (fins (insert h F) s)"
  by (simp add: shutdown_socket_def fins_def)

lemma fins_empty: "fins {} s = s"
  by (simp add: fins_def)

lemma shutdown_socket_fins: "h \<in> sys_open (pool s) \<Longrightarrow> shutdown_socket h s = Inr (fins {h} s)"
  using fins_insert [of h s "{}"] by (simp add: fins_empty)

lemma fins_fins: "fins F (fins G s) = fins (F \<union> G) s"
  by (simp add: fins_def Un_assoc)

lemma pool_ok_fins:
  assumes "pool_ok {} (pool s)" and "finite F" and "\<And>a rc. relay_heap (pool s) a = Some rc \<Longrightarrow> F \<inter> range (rc_s rc) = {}"
  shows "pool_ok {} (pool (fins F s))"
  using assms(2,3)
proof (induction F rule: finite_induct)
  case empty
  then show ?case using assms(1) by (simp add: fins_empty)
next
  case (insert h F)
  have "pool_ok {} (pool (fins F s))" using insert by blast
  moreover have "h \<notin> range (rc_s rc)" if "relay_heap (pool (fins F s)) a = Some rc" for a rc
    using insert.prems [of a rc] that by auto
  ultimately have "pool_ok {} ((pool (fins F s))\<lparr>sys_fin := insert h (sys_fin (pool (fins F s)))\<rparr>)" by (rule pool_ok_fin)
  then show ?case by (simp add: fins_def)
qed

lemma pairs_ok_fins:
  assumes "pairs_ok s" and "F \<subseteq> pair_sockets p" and "pair_heap s a = Some p"
  shows "pairs_ok (fins F s)"
proof -
  have "finite F" using assms(2) by (rule finite_subset) (simp add: pair_sockets_def)
  then have "pool_ok {} (pool (fins F s))"
    by (rule pool_ok_fins [OF pairs_ok_pool_ok [OF assms(1)]]) (use assms(2) pairs_ok_apart(2) [OF assms(1,3)] in blast)
  then have "pairs_ok (s\<lparr>pool := pool (fins F s)\<rparr>)"
    by (rule pairs_ok_pool [OF assms(1)]) (use pairs_okD(3) [OF assms(1)] pairs_ok_apart(2) [OF assms(1)] in simp_all)
  then show ?thesis by (simp add: fins_def)
qed

lemma shutdown_pair_ok:
  assumes "pairs_ok s" and "pair_heap s a = Some p"
  shows "shutdown_pair p s = Inr (fins (pair_sockets p) s)"
proof -
  note o = pairs_okD(5,6) [OF assms]
  have "shutdown_socket (sock_proxy p) (fins {sock_client p} s) = Inr (fins {sock_proxy p, sock_client p} s)"
    using o by (simp add: fins_insert)
  then show ?thesis using o by (simp add: shutdown_pair_def shutdown_socket_fins pair_sockets_def insert_commute)
qed

lemma shutdown_pairs_ok:
  assumes "pairs_ok s" and "set as \<subseteq> dom (pair_heap s)"
  obtains F where "shutdown_pairs as s = Inr (fins F s)" and "pairs_ok (fins F s)"
    and "\<And>a p. a \<in> set as \<Longrightarrow> pair_heap s a = Some p \<Longrightarrow> pair_sockets p \<subseteq> F"
  using assms
proof (induction as arbitrary: s thesis)
  case Nil
  show ?case by (rule Nil.prems(1) [of "{}"]) (use Nil.prems(2) in \<open>simp_all add: fins_empty\<close>)
next
  case (Cons a as)
  obtain p where p: "pair_heap s a = Some p" using Cons.prems(3) by auto
  let ?s = "fins (pair_sockets p) s"
  have w: "with_pair a shutdown_pair s = Inr ?s" using p shutdown_pair_ok [OF Cons.prems(2) p] by (simp add: with_pair_def)
  have "pairs_ok ?s" using pairs_ok_fins [OF Cons.prems(2) _ p] by blast
  then obtain F where F: "shutdown_pairs as ?s = Inr (fins F ?s)" "pairs_ok (fins F ?s)"
      "\<And>b q. b \<in> set as \<Longrightarrow> pair_heap ?s b = Some q \<Longrightarrow> pair_sockets q \<subseteq> F"
    using Cons.IH [of ?s] Cons.prems(3) by auto
  show ?case
  proof (rule Cons.prems(1) [of "F \<union> pair_sockets p"])
    show "shutdown_pairs (a # as) s = Inr (fins (F \<union> pair_sockets p) s)" using w F(1) by (simp add: fins_fins)
    show "pairs_ok (fins (F \<union> pair_sockets p) s)" using F(2) by (simp add: fins_fins)
    show "pair_sockets q \<subseteq> F \<union> pair_sockets p" if "b \<in> set (a # as)" "pair_heap s b = Some q" for b q
      using that p F(3) [of b q] by auto
  qed
qed

section \<open>Ending a direction\<close>

lemma two_sides: "x \<in> S \<Longrightarrow> S = {x, opposite x} \<or> S = {x}"
proof -
  assume "x \<in> S"
  moreover have "y = x \<or> y = opposite x" for y by (cases x; cases y; simp)
  ultimately show ?thesis by blast
qed

text \<open>Changing, adding and removing one pair.\<close>

lemma pairs_ok_upd:
  assumes "pairs_ok s" and "pair_heap s a = Some p" and "pair_sockets p' = pair_sockets p"
    and s': "pool s' = pool s" "active_relay_pairs s' = active_relay_pairs s" "pair_heap s' = (pair_heap s)(a \<mapsto> p')"
    and r: "\<And>b. b \<noteq> a \<Longrightarrow> running_dirs s' b = running_dirs s b" and "pair_ok s' a p'"
  shows "pairs_ok s'"
proof -
  have h: "pair_heap s' b = Some q \<Longrightarrow> \<exists>q'. pair_heap s b = Some q' \<and> pair_sockets q' = pair_sockets q" for b q
    using assms(2,3) s'(3) by (cases "b = a") auto
  have o: "pair_ok s' b q" if "pair_heap s' b = Some q" for b q
  proof (cases "b = a")
    case False
    then have "pair_ok s b q" using pairs_okD(1) [OF assms(1)] that s'(3) by simp
    then show ?thesis using r [OF False] s'(1) by (simp add: pair_ok_def)
  qed (use that assms(8) s'(3) in simp)
  have d: "pair_sockets q \<inter> pair_sockets q' = {}" if "pair_heap s' b = Some q" "pair_heap s' c = Some q'" "b \<noteq> c" for b c q q'
    using h [OF that(1)] h [OF that(2)] that(3) pairs_ok_apart(1) [OF assms(1)] by metis
  have e: "pair_sockets q \<inter> range (rc_s rc) = {}" if "pair_heap s' b = Some q" "relay_heap (pool s') c = Some rc" for b c q rc
    using h [OF that(1)] that(2) pairs_ok_apart(2) [OF assms(1)] s'(1) by metis
  have "a \<in> dom (pair_heap s)" using assms(2) by blast
  then have "dom (pair_heap s') = dom (pair_heap s)" using s'(3) by auto
  moreover have "running_dirs s' b \<noteq> {} \<longrightarrow> b \<in> dom (pair_heap s)" for b
    using assms(1) r [of b] \<open>a \<in> dom (pair_heap s)\<close> unfolding pairs_ok_def by metis
  ultimately show ?thesis
    using assms(1) s'(1,2) by (intro pairs_okI o d e) (simp_all add: pairs_ok_def)
qed

lemma pairs_ok_new:
  assumes "pairs_ok s" and "pair_heap s a = None"
    and s': "pool s' = pool s" "active_relay_pairs s' = a # active_relay_pairs s" "pair_heap s' = (pair_heap s)(a \<mapsto> p)"
    and r: "\<And>b. b \<noteq> a \<Longrightarrow> running_dirs s' b = running_dirs s b" and "pair_ok s' a p"
    and "\<And>b q. pair_heap s b = Some q \<Longrightarrow> pair_sockets p \<inter> pair_sockets q = {}"
    and "\<And>b rc. relay_heap (pool s) b = Some rc \<Longrightarrow> pair_sockets p \<inter> range (rc_s rc) = {}"
  shows "pairs_ok s'"
proof -
  have o: "pair_ok s' b q" if "pair_heap s' b = Some q" for b q
  proof (cases "b = a")
    case False
    then have "pair_ok s b q" using pairs_okD(1) [OF assms(1)] that s'(3) by simp
    then show ?thesis using r [OF False] s'(1) by (simp add: pair_ok_def)
  qed (use that assms(7) s'(3) in simp)
  have d: "pair_sockets q \<inter> pair_sockets q' = {}" if "pair_heap s' b = Some q" "pair_heap s' c = Some q'" "b \<noteq> c" for b c q q'
    using that s'(3) assms(8) [of b q] assms(8) [of c q'] pairs_ok_apart(1) [OF assms(1), of b q c q']
    by (cases "b = a"; cases "c = a") auto
  have e: "pair_sockets q \<inter> range (rc_s rc) = {}" if "pair_heap s' b = Some q" "relay_heap (pool s') c = Some rc" for b c q rc
    using that s'(1,3) assms(9) pairs_ok_apart(2) [OF assms(1)] by (cases "b = a") simp_all
  have "dom (pair_heap s') = insert a (dom (pair_heap s))" using s'(3) by auto
  moreover have "running_dirs s' b \<noteq> {} \<longrightarrow> b \<in> insert a (dom (pair_heap s))" for b
    using assms(1) r [of b] unfolding pairs_ok_def by (metis insertCI)
  moreover have "a \<notin> set (active_relay_pairs s)" using assms(1,2) by (auto simp: pairs_ok_def)
  ultimately show ?thesis
    using assms(1) s'(1,2) by (intro pairs_okI o d e) (simp_all add: pairs_ok_def)
qed

lemma pairs_ok_del:
  assumes "pairs_ok s" and "pair_heap s a = Some p" and "pool_ok {} (pool s')" and "relay_heap (pool s') = relay_heap (pool s)"
    and "sys_open (pool s') = sys_open (pool s) - pair_sockets p"
    and s': "active_relay_pairs s' = remove_first ((=) a) (active_relay_pairs s)" "pair_heap s' = (pair_heap s)(a := None)"
    and r: "running_dirs s' a = {}" "\<And>b. b \<noteq> a \<Longrightarrow> running_dirs s' b = running_dirs s b"
  shows "pairs_ok s'"
proof -
  have h: "pair_heap s' b = Some q \<Longrightarrow> pair_heap s b = Some q \<and> b \<noteq> a" for b q using s'(2) by (auto split: if_splits)
  have o: "pair_ok s' b q" if "pair_heap s' b = Some q" for b q
    using h [OF that] pairs_okD(1) [OF assms(1)] pairs_ok_apart(1) [OF assms(1), of b q a p] assms(2,5) r(2) [of b]
    by (auto simp: pair_ok_def)
  have d: "pair_sockets q \<inter> pair_sockets q' = {}" if "pair_heap s' b = Some q" "pair_heap s' c = Some q'" "b \<noteq> c" for b c q q'
    using h that pairs_ok_apart(1) [OF assms(1)] by metis
  have e: "pair_sockets q \<inter> range (rc_s rc) = {}" if "pair_heap s' b = Some q" "relay_heap (pool s') c = Some rc" for b c q rc
    using h that pairs_ok_apart(2) [OF assms(1)] assms(4) by metis
  have "dom (pair_heap s') = dom (pair_heap s) - {a}" using s'(2) by auto
  moreover have "running_dirs s' b \<noteq> {} \<longrightarrow> b \<in> dom (pair_heap s) - {a}" for b
    using assms(1) r unfolding pairs_ok_def by (metis DiffI singletonD)
  moreover have "distinct (active_relay_pairs s')" "set (active_relay_pairs s') = dom (pair_heap s) - {a}"
    using assms(1) s'(1) by (simp_all add: pairs_ok_def set_remove_first_distinct)
  ultimately show ?thesis using assms(3) by (intro pairs_okI o d e) simp_all
qed

text \<open>The first of the two directions to end leaves the other one running.\<close>

lemma one_way_end_first:
  assumes "pairs_ok s" and "pair_heap s a = Some p" and "(a, x) \<in> relay_threads s" and "(a, opposite x) \<in> relay_threads s"
  obtains F where "F \<subseteq> pair_sockets p" and "to_socket p x \<in> F" and "F = (if clean then {to_socket p x} else pair_sockets p)"
    and "one_way_end a x clean s = Inr ((fins F s)\<lparr>relay_threads := relay_threads s - {(a, x)},
       pair_heap := (pair_heap s)(a \<mapsto> p\<lparr>pair_refs := 1\<rparr>)\<rparr>)"
    and "pairs_ok ((fins F s)\<lparr>relay_threads := relay_threads s - {(a, x)}, pair_heap := (pair_heap s)(a \<mapsto> p\<lparr>pair_refs := 1\<rparr>)\<rparr>)"
proof -
  let ?F = "if clean then {to_socket p x} else pair_sockets p"
  let ?s = "(fins ?F s)\<lparr>relay_threads := relay_threads s - {(a, x)}, pair_heap := (pair_heap s)(a \<mapsto> p\<lparr>pair_refs := 1\<rparr>)\<rparr>"
  have F: "?F \<subseteq> pair_sockets p" "to_socket p x \<in> ?F" by (cases x; simp add: to_socket_def pair_sockets_def)+
  have r: "running_dirs s a = {x, opposite x}"
    using assms(3,4) two_sides [of x "running_dirs s a"] by (auto simp: running_dirs_def)
  have refs: "pair_refs p = 2" using pairs_okD(7) [OF assms(1,2)] by (simp add: r)
  have "(if clean then shutdown_socket (to_socket p x) s else shutdown_pair p s) = Inr (fins ?F s)"
    using shutdown_pair_ok [OF assms(1,2)] pairs_okD(3) [OF assms(1,2)] F by (auto simp: shutdown_socket_fins)
  then have e: "one_way_end a x clean s = Inr ?s"
    by (simp add: one_way_end_def with_pair_def assms(2) refs Let_def)
  have ok: "pairs_ok (fins ?F s)" using pairs_ok_fins [OF assms(1) F(1) assms(2)] .
  have rd: "running_dirs ?s b = (if b = a then {opposite x} else running_dirs s b)" for b
    using r by (auto simp: running_dirs_def)
  have "pair_ok ?s a (p\<lparr>pair_refs := 1\<rparr>)"
    unfolding pair_ok_def rd using pairs_okD(2-4) [OF assms(1,2)] by (simp add: pair_sockets_def)
  moreover have "running_dirs ?s b = running_dirs (fins ?F s) b" if "b \<noteq> a" for b unfolding rd using that by (simp add: running_dirs_def)
  ultimately have "pairs_ok ?s"
    by (intro pairs_ok_upd [OF ok, of a p]) (use assms(2) in \<open>simp_all add: pair_sockets_def\<close>)
  then show ?thesis using that [OF F refl e] by blast
qed

lemma pool_ok_close_both:
  assumes "pool_ok {} s" and "\<And>a rc. relay_heap s a = Some rc \<Longrightarrow> S \<inter> range (rc_s rc) = {}" and "S = {h, k}"
  shows "pool_ok {} (s\<lparr>sys_open := sys_open s - S\<rparr>)"
proof -
  have "h \<notin> range (rc_s rc)" "k \<notin> range (rc_s rc)" if "relay_heap s a = Some rc" for a rc using assms(2) [OF that] assms(3) by auto
  then have "pool_ok {} (s\<lparr>sys_open := sys_open s - {h}\<rparr>)" by (intro pool_ok_close [OF assms(1)]) blast
  then have "pool_ok {} ((s\<lparr>sys_open := sys_open s - {h}\<rparr>)\<lparr>sys_open := sys_open (s\<lparr>sys_open := sys_open s - {h}\<rparr>) - {k}\<rparr>)"
    by (rule pool_ok_close) (use \<open>\<And>rc a. relay_heap s a = Some rc \<Longrightarrow> k \<notin> range (rc_s rc)\<close> in auto)
  moreover have "sys_open s - {h} - {k} = sys_open s - S" using assms(3) by auto
  ultimately show ?thesis by simp
qed

lemma close_both_open:
  assumes "client \<noteq> proxy" and "client \<in> sys_open (pool s)" and "proxy \<in> sys_open (pool s)"
  shows "close_both code client proxy s = Inr (code, s\<lparr>pool := (pool s)\<lparr>sys_open := sys_open (pool s) - {client, proxy}\<rparr>\<rparr>)"
proof -
  have "sys_open (pool s) - {client} - {proxy} = sys_open (pool s) - {client, proxy}" by auto
  then show ?thesis using assms by (simp add: close_both_def close_socket_def closesocket_def)
qed

text \<open>The last direction to end closes both sockets and frees the pair.\<close>

lemma one_way_end_last:
  assumes "pairs_ok s" and "pair_heap s a = Some p" and "(a, x) \<in> relay_threads s" and "(a, opposite x) \<notin> relay_threads s"
  obtains s' where "one_way_end a x clean s = Inr s'" and "pairs_ok s'" and "pair_heap s' = (pair_heap s)(a := None)"
    and "relay_threads s' = relay_threads s - {(a, x)}" and "sys_open (pool s') = sys_open (pool s) - pair_sockets p"
    and "sys_fin (pool s') = (if clean then {to_socket p x} else pair_sockets p) \<union> sys_fin (pool s)"
proof -
  let ?F = "if clean then {to_socket p x} else pair_sockets p"
  have F: "?F \<subseteq> pair_sockets p" by (cases x; simp add: to_socket_def pair_sockets_def)+
  have r: "running_dirs s a = {x}" using assms(3,4) two_sides [of x "running_dirs s a"] by (auto simp: running_dirs_def)
  have refs: "pair_refs p = 1" using pairs_okD(7) [OF assms(1,2)] by (simp add: r)
  note o = pairs_okD(2,4-6) [OF assms(1,2)]
  have sd: "(if clean then shutdown_socket (to_socket p x) s else shutdown_pair p s) = Inr (fins ?F s)"
    using shutdown_pair_ok [OF assms(1,2)] pairs_okD(3) [OF assms(1,2)] F by (auto simp: shutdown_socket_fins)
  let ?s' = "(fins ?F s)\<lparr>relay_threads := relay_threads s - {(a, x)}, active_relay_pairs := remove_first ((=) a) (active_relay_pairs s),
     pool := (pool (fins ?F s))\<lparr>sys_open := sys_open (pool s) - pair_sockets p\<rparr>, pair_heap := (pair_heap s)(a := None)\<rparr>"
  have "sys_open (pool s) - {sock_client p} - {sock_proxy p} = sys_open (pool s) - pair_sockets p" by (auto simp: pair_sockets_def)
  then have e: "one_way_end a x clean s = Inr ?s'"
    using sd o
    by (simp add: one_way_end_def with_pair_def assms(2) refs Let_def unregister_relay_pair_def close_socket_def closesocket_def)
  have ok: "pairs_ok (fins ?F s)" using pairs_ok_fins [OF assms(1) F assms(2)] .
  have "pool_ok {} ((pool (fins ?F s))\<lparr>sys_open := sys_open (pool (fins ?F s)) - pair_sockets p\<rparr>)"
    using pairs_ok_apart(2) [OF assms(1,2)]
    by (intro pool_ok_close_both [OF pairs_ok_pool_ok [OF ok] _ pair_sockets_def]) simp
  then have pk: "pool_ok {} (pool ?s')" by simp
  have rd: "running_dirs ?s' b = (if b = a then {} else running_dirs s b)" for b
    using r by (auto simp: running_dirs_def)
  have h: "pair_heap (fins ?F s) a = Some p" using assms(2) by simp
  have ok': "pairs_ok ?s'"
  proof (rule pairs_ok_del [OF ok h pk])
    show "running_dirs ?s' a = {}" by (simp only: rd if_True refl)
    show "running_dirs ?s' b = running_dirs (fins ?F s) b" if "b \<noteq> a" for b using that rd [of b] by (simp add: running_dirs_def)
  qed simp_all
  show ?thesis by (rule that [OF e ok']) (simp_all add: fins_def)
qed

lemma one_way_end_ok:
  assumes "pairs_ok s" and "(a, x) \<in> relay_threads s"
  obtains s' where "one_way_end a x clean s = Inr s'" and "pairs_ok s'" and "relay_threads s' = relay_threads s - {(a, x)}"
proof -
  have "a \<in> dom (pair_heap s)" using assms by (auto simp: pairs_ok_def running_dirs_def)
  then obtain p where p: "pair_heap s a = Some p" by blast
  show ?thesis
  proof (cases "(a, opposite x) \<in> relay_threads s")
    case True
    obtain F where F: "one_way_end a x clean s = Inr ((fins F s)\<lparr>relay_threads := relay_threads s - {(a, x)},
         pair_heap := (pair_heap s)(a \<mapsto> p\<lparr>pair_refs := 1\<rparr>)\<rparr>)"
        "pairs_ok ((fins F s)\<lparr>relay_threads := relay_threads s - {(a, x)}, pair_heap := (pair_heap s)(a \<mapsto> p\<lparr>pair_refs := 1\<rparr>)\<rparr>)"
      using one_way_end_first [OF assms(1) p assms(2) True, of clean] .
    show ?thesis by (rule that [OF F]) simp
  next
    case False
    then show ?thesis using one_way_end_last [OF assms(1) p assms(2), of clean] that by metis
  qed
qed

section \<open>Aborting\<close>

lemma abort_active_relays_ok:
  assumes "pairs_ok s"
  obtains s' where "abort_active_relays s = Inr (length (active_relay_pairs s), s')" and "pairs_ok s'"
    and "pair_heap s' = pair_heap s" and "relay_threads s' = relay_threads s"
    and "\<And>a p. pair_heap s a = Some p \<Longrightarrow> pair_sockets p \<subseteq> sys_fin (pool s')"
proof -
  obtain pl where pl: "relay_pool_abort (pool s) = Inr pl" "pool_ok {} pl"
    using relay_pool_abort_ok [OF pairs_ok_pool_ok [OF assms]] .
  have op: "sys_open pl = sys_open (pool s)" using pl(1) abort_all_open by (fastforce simp: relay_pool_abort_def)
  have ok: "pairs_ok (s\<lparr>pool := pl\<rparr>)"
  proof (rule pairs_ok_pool [OF assms pl(2)])
    show "pair_sockets p \<inter> range (rc_s rc) = {}" if "pair_heap s a = Some p" "relay_heap pl b = Some rc" for a p b rc
      using shed_sockets [OF sheds_pool_abort [OF pl(1)] that(2)] pairs_ok_apart(2) [OF assms that(1)] by metis
  qed (use pairs_okD(3) [OF assms] op in simp)
  have "set (active_relay_pairs s) \<subseteq> dom (pair_heap (s\<lparr>pool := pl\<rparr>))" using assms by (simp add: pairs_ok_def)
  then obtain F where F: "shutdown_pairs (active_relay_pairs s) (s\<lparr>pool := pl\<rparr>) = Inr (fins F (s\<lparr>pool := pl\<rparr>))"
      "pairs_ok (fins F (s\<lparr>pool := pl\<rparr>))"
      "\<And>a p. a \<in> set (active_relay_pairs s) \<Longrightarrow> pair_heap (s\<lparr>pool := pl\<rparr>) a = Some p \<Longrightarrow> pair_sockets p \<subseteq> F"
    using shutdown_pairs_ok [OF ok] by metis
  show ?thesis
  proof (rule that [OF _ F(2)])
    show "pair_sockets p \<subseteq> sys_fin (pool (fins F (s\<lparr>pool := pl\<rparr>)))" if "pair_heap s a = Some p" for a p
      using F(3) [of a p] that pairs_okD(9) [OF assms that] by (auto simp: fins_def)
  qed (use pl(1) F(1) in \<open>simp_all add: abort_active_relays_def\<close>)
qed

section \<open>Handing a connection over\<close>

text \<open>A connection is carried by a relay, of either kind, that owns both its sockets.\<close>

definition carried :: "nat \<Rightarrow> nat \<Rightarrow> relays \<Rightarrow> bool" where
  "carried client proxy s \<longleftrightarrow> (\<exists>a p. pair_heap s a = Some p \<and> pair_sockets p = {client, proxy}) \<or>
     (\<exists>a rc. relay_heap (pool s) a = Some rc \<and> range (rc_s rc) = {client, proxy})"

lemma first_wait_only: "first_wait an a x s = Inr s' \<Longrightarrow> only_conn a x s s'"
  by (auto simp: first_wait_def and_then_Inr intro: only_conn_trans [OF only_conn_post(1) only_conn_proceed])

lemma first_wait_open:
  assumes "relay_heap s a = Some rc" and "first_wait an a x s = Inr s'"
  shows "sys_open s - range (rc_s rc) \<subseteq> sys_open s'"
proof -
  obtain ok s1 where s1: "relay_post_wait an a x s = Inr (ok, s1)" "proceed a x (ok, s1) = Inr s'"
    using assms by (auto simp: first_wait_def and_then_Inr)
  then have "sys_open s1 = sys_open s \<and> (\<exists>rc1. relay_heap s1 a = Some rc1 \<and> rc_s rc1 = rc_s rc)"
    using assms(1) by (auto simp: relay_post_wait_def with_conn_def posted_def relay_buf_put_def set_dir_def split: if_splits)
  then show ?thesis using dir_end_open [of a x False s1 s'] s1(2) by (auto simp: proceed_def split: if_splits)
qed

lemma relay_start_sockets:
  assumes "relay_start rb client proxy s = Inr (ok, s')"
  shows "sys_open s - {client, proxy} \<subseteq> sys_open s'"
    and "relay_heap s' b = Some rc \<Longrightarrow> range (rc_s rc) = {client, proxy} \<or> (\<exists>rc0. relay_heap s b = Some rc0 \<and> rc_s rc0 = rc_s rc)"
    and "ok \<Longrightarrow> (\<exists>a rc. relay_heap s' a = Some rc \<and> range (rc_s rc) = {client, proxy}) \<or> {client, proxy} \<inter> sys_open s' = {}"
    and "\<not> ok \<Longrightarrow> s' = s"
proof -
  have "(sys_open s - {client, proxy} \<subseteq> sys_open s' \<and>
      (\<forall>b rc. relay_heap s' b = Some rc \<longrightarrow> range (rc_s rc) = {client, proxy} \<or> (\<exists>rc0. relay_heap s b = Some rc0 \<and> rc_s rc0 = rc_s rc)) \<and>
      (ok \<longrightarrow> (\<exists>a rc. relay_heap s' a = Some rc \<and> range (rc_s rc) = {client, proxy}) \<or> {client, proxy} \<inter> sys_open s' = {}) \<and>
      (\<not> ok \<longrightarrow> s' = s))"
  proof (cases ok)
    case False
    then show ?thesis using assms by (auto simp: relay_start_def and_then_Inr Let_def split: if_splits option.splits)
  next
    case True
    then obtain a s1 s2 where s1: "s1 = s\<lparr>relay_heap := (relay_heap s)(a \<mapsto> new_conn client proxy), g_relay_head := a # g_relay_head s,
       g_active_relays := g_active_relays s + 1, g_relay_done := Some False\<rparr>"
      and s2: "first_wait (rb_up rb) a Upload s1 = Inr s2" and s3: "first_wait (rb_down rb) a Download s2 = Inr s'"
      using assms by (auto simp: relay_start_def and_then_Inr Let_def new_conn_def split: if_splits option.splits)
    have h1: "relay_heap s1 a = Some (new_conn client proxy)" by (simp add: s1)
    have rg: "range (rc_s (new_conn client proxy)) = {client, proxy}" by (simp add: new_conn_def range_sides)
    obtain rc2 where h2: "relay_heap s2 a = Some rc2" "rc_s rc2 = rc_s (new_conn client proxy)"
      using first_wait_leaves [OF h1 _ _ s2] by (auto simp: new_conn_def new_dir_def)
    note o = first_wait_only [OF s2] first_wait_only [OF s3]
    have k: "sys_open s - {client, proxy} \<subseteq> sys_open s'"
      using first_wait_open [OF h1 s2] first_wait_open [OF h2(1) s3] rg h2(2) by (auto simp: s1)
    have e: "relay_heap s' b = relay_heap s b" if "b \<noteq> a" for b using that o by (simp add: only_conn_def s1)
    have n: "relay_heap s' a = None \<Longrightarrow> {client, proxy} \<inter> sys_open s' = {}"
      and c: "\<And>rc. relay_heap s' a = Some rc \<Longrightarrow> range (rc_s rc) = {client, proxy}"
      using o(2) h2 rg unfolding only_conn_def by simp_all
    have "range (rc_s rc) = {client, proxy} \<or> (\<exists>rc0. relay_heap s b = Some rc0 \<and> rc_s rc0 = rc_s rc)" if "relay_heap s' b = Some rc" for b rc
      using that e [of b] c [of rc] by (cases "b = a") simp_all
    moreover have "(\<exists>a rc. relay_heap s' a = Some rc \<and> range (rc_s rc) = {client, proxy}) \<or> {client, proxy} \<inter> sys_open s' = {}"
      using n c by (cases "relay_heap s' a") blast+
    ultimately show ?thesis using True k by blast
  qed
  then show "sys_open s - {client, proxy} \<subseteq> sys_open s'" "relay_heap s' b = Some rc \<Longrightarrow> range (rc_s rc) = {client, proxy} \<or> (\<exists>rc0. relay_heap s b = Some rc0 \<and> rc_s rc0 = rc_s rc)"
    "ok \<Longrightarrow> (\<exists>a rc. relay_heap s' a = Some rc \<and> range (rc_s rc) = {client, proxy}) \<or> {client, proxy} \<inter> sys_open s' = {}" "\<not> ok \<Longrightarrow> s' = s"
    by blast+
qed

text \<open>The sockets \<open>client\<close> and \<open>proxy\<close> belong to the caller.\<close>

definition transferable :: "transfer_env \<Rightarrow> nat \<Rightarrow> nat \<Rightarrow> relays \<Rightarrow> bool" where
  "transferable te client proxy s \<longleftrightarrow> fresh_pair client proxy (pool s) \<and>
     (\<forall>a p. pair_heap s a = Some p \<longrightarrow> {client, proxy} \<inter> pair_sockets p = {}) \<and>
     (\<forall>a. te_pair te = Some a \<longrightarrow> pair_heap s a = None) \<and> (\<forall>a. rb_calloc (te_begin te) = Some a \<longrightarrow> relay_heap (pool s) a = None)"

lemma transferableD:
  assumes "transferable te client proxy s"
  shows "client \<noteq> proxy" "client \<in> sys_open (pool s)" "proxy \<in> sys_open (pool s)" "fresh_pair client proxy (pool s)"
    "\<And>a p. pair_heap s a = Some p \<Longrightarrow> {client, proxy} \<inter> pair_sockets p = {}"
    "\<And>a rc. relay_heap (pool s) a = Some rc \<Longrightarrow> {client, proxy} \<inter> range (rc_s rc) = {}"
    "\<And>a. te_pair te = Some a \<Longrightarrow> pair_heap s a = None" "\<And>a. rb_calloc (te_begin te) = Some a \<Longrightarrow> relay_heap (pool s) a = None"
  using assms unfolding transferable_def fresh_pair_def by (blast, blast, blast, blast, blast, blast, blast, blast)

lemma close_both_ok:
  assumes "pairs_ok s" and "transferable te client proxy s"
  obtains s' where "close_both code client proxy s = Inr (code, s')" and "pairs_ok s'"
    and "{client, proxy} \<inter> sys_open (pool s') = {}" and "sys_open (pool s) - {client, proxy} \<subseteq> sys_open (pool s')"
proof -
  note t = transferableD [OF assms(2)]
  let ?pl = "(pool s)\<lparr>sys_open := sys_open (pool s) - {client, proxy}\<rparr>"
  have "pool_ok {} ?pl" using t(6) by (intro pool_ok_close_both [OF pairs_ok_pool_ok [OF assms(1)] _ refl]) blast
  then have "pairs_ok (s\<lparr>pool := ?pl\<rparr>)"
  proof (rule pairs_ok_pool [OF assms(1)])
    show "pair_sockets p \<subseteq> sys_open ?pl" if "pair_heap s a = Some p" for a p
      using pairs_okD(3) [OF assms(1) that] t(5) [OF that] by auto
  qed (use pairs_ok_apart(2) [OF assms(1)] in simp)
  then show ?thesis using that [OF close_both_open [OF t(1-3)]] by auto
qed

lemma transfer_handler_ok:
  assumes "pairs_ok s" and "transferable te client proxy s"
  shows "\<exists>code s'. transfer_handler te client proxy s = Inr (code, s') \<and> pairs_ok s' \<and>
    (carried client proxy s' \<or> {client, proxy} \<inter> sys_open (pool s') = {}) \<and>
    sys_open (pool s) - {client, proxy} \<subseteq> sys_open (pool s')"
proof -
  note t = transferableD [OF assms(2)]
  obtain ok pl where st: "relay_start (te_begin te) client proxy (pool s) = Inr (ok, pl)" "pool_ok {} pl"
    using relay_start_ok [OF pairs_ok_pool_ok [OF assms(1)] t(4,8)] by metis
  note sk = relay_start_sockets [OF st(1)]
  show ?thesis
  proof (cases ok)
    case True
    have "pairs_ok (s\<lparr>pool := pl\<rparr>)"
    proof (rule pairs_ok_pool [OF assms(1) st(2)])
      show "pair_sockets p \<subseteq> sys_open pl" if "pair_heap s a = Some p" for a p
        using pairs_okD(3) [OF assms(1) that] t(5) [OF that] sk(1) by blast
      show "pair_sockets p \<inter> range (rc_s rc) = {}" if "pair_heap s a = Some p" "relay_heap pl b = Some rc" for a p b rc
        using sk(2) [OF that(2)] t(5) [OF that(1)] pairs_ok_apart(2) [OF assms(1) that(1)] by (metis Int_commute)
    qed
    moreover have "carried client proxy (s\<lparr>pool := pl\<rparr>) \<or> {client, proxy} \<inter> sys_open (pool (s\<lparr>pool := pl\<rparr>)) = {}"
      using sk(3) [OF True] by (auto simp: carried_def)
    moreover have "sys_open (pool s) - {client, proxy} \<subseteq> sys_open (pool (s\<lparr>pool := pl\<rparr>))" using sk(1) by simp
    moreover have "transfer_handler te client proxy s = Inr (0, s\<lparr>pool := pl\<rparr>)"
      using st(1) True by (simp add: transfer_handler_def)
    ultimately show ?thesis by blast
  next
    case False
    then have pl: "pl = pool s" using sk(4) by simp
    have give_up: ?thesis if "transfer_handler te client proxy s = close_both code client proxy s" for code
      unfolding that using close_both_ok [OF assms, of code] by metis
    show ?thesis
    proof (cases "te_pair te")
      case None
      then have "transfer_handler te client proxy s = close_both 1 client proxy s"
        using st(1) False pl by (simp add: transfer_handler_def)
      then show ?thesis by (rule give_up)
    next
      case (Some a)
      let ?p = "\<lparr>sock_client = client, sock_proxy = proxy, pair_refs = 2, registered = True\<rparr>"
      let ?s = "s\<lparr>active_relay_pairs := a # active_relay_pairs s, pair_heap := (pair_heap s)(a \<mapsto> ?p),
         relay_threads := relay_threads s \<union> {(a, Upload), (a, Download)}\<rparr>"
      have a: "pair_heap s a = None" "(pair_heap s)(a := None) = pair_heap s" using t(7) [OF Some] by auto
      show ?thesis
      proof (cases "(shutdown_event s = None \<or> te_running te) \<and> te_up te \<and> te_dn te \<and> te_thread te")
        case F: False
        have "transfer_handler te client proxy s = close_both (if shutdown_event s = None \<or> te_running te then 1 else 0) client proxy s"
          using st(1) False pl Some F a
          by (auto simp: transfer_handler_def register_relay_pair_def unregister_relay_pair_def free_pair_def Let_def)
        then show ?thesis by (rule give_up)
      next
        case T: True
        then have e: "transfer_handler te client proxy s = Inr (0, ?s)"
          using st(1) False pl Some by (simp add: transfer_handler_def register_relay_pair_def Let_def)
        have rn: "running_dirs s a = {}" using assms(1) a(1) by (auto simp: pairs_ok_def)
        have rd: "running_dirs ?s b = (if b = a then UNIV else running_dirs s b)" for b
          using rn by (auto simp: running_dirs_def) (metis side.exhaust)
        have "pair_ok ?s a ?p" unfolding pair_ok_def rd using t(1-3) by (simp add: pair_sockets_def side_UNIV)
        then have "pairs_ok ?s"
        proof (rule pairs_ok_new [OF assms(1) a(1), rotated 4])
          show "running_dirs ?s b = running_dirs s b" if "b \<noteq> a" for b unfolding rd using that by simp
          show "pair_sockets ?p \<inter> pair_sockets q = {}" if "pair_heap s b = Some q" for b q using t(5) [OF that] by (simp add: pair_sockets_def)
          show "pair_sockets ?p \<inter> range (rc_s rc) = {}" if "relay_heap (pool s) b = Some rc" for b rc
            using t(6) [OF that] by (simp add: pair_sockets_def)
        qed simp_all
        moreover have "carried client proxy ?s" by (auto simp: carried_def pair_sockets_def intro!: exI [of _ a])
        ultimately show ?thesis unfolding e by auto
      qed
    qed
  qed
qed

section \<open>Reachable states\<close>

text \<open>Connections are handed over, directions end, all relays are aborted, the shutdown event changes, and the pool makes a
  step of its own that neither closes nor takes over a socket of a pair.\<close>

inductive relays_step :: "relays \<Rightarrow> relays \<Rightarrow> bool" where
  hands_over: "transferable te client proxy s \<Longrightarrow> transfer_handler te client proxy s = Inr (code, s') \<Longrightarrow> relays_step s s'"
| ends: "(a, x) \<in> relay_threads s \<Longrightarrow> one_way_relay malloc rounds a x s = Some (Inr (got, sent, s')) \<Longrightarrow> relays_step s s'"
| aborts: "abort_active_relays s = Inr (n, s') \<Longrightarrow> relays_step s s'"
| pool_steps: "relay_step (pool s) pl \<Longrightarrow> \<forall>a p. pair_heap s a = Some p \<longrightarrow> pair_sockets p \<subseteq> sys_open pl \<Longrightarrow>
     \<forall>a p b rc. pair_heap s a = Some p \<and> relay_heap pl b = Some rc \<longrightarrow> pair_sockets p \<inter> range (rc_s rc) = {} \<Longrightarrow>
     relays_step s (s\<lparr>pool := pl\<rparr>)"
| shutdown: "relays_step s (s\<lparr>shutdown_event := e\<rparr>)"

lemma pairs_ok_init: "pairs_ok relays_init"
  by (rule pairs_okI) (simp_all add: relays_init_def pool_ok_init running_dirs_def)

lemma one_way_relay_ends:
  assumes "pairs_ok s" and "(a, x) \<in> relay_threads s" and "one_way_relay malloc rounds a x s = Some r"
  shows "\<exists>got sent s'. r = Inr (got, sent, s') \<and> pairs_ok s' \<and> relay_threads s' = relay_threads s - {(a, x)}"
proof -
  obtain clean got sent where r: "r = and_then (one_way_end a x clean s) (\<lambda>s1. Inr (got, sent, s1))"
    using assms(3) by (auto simp: one_way_relay_def split: option.splits prod.splits if_splits)
  obtain s' where "one_way_end a x clean s = Inr s'" "pairs_ok s'" "relay_threads s' = relay_threads s - {(a, x)}"
    using one_way_end_ok [OF assms(1,2)] .
  then show ?thesis using r by simp
qed

lemma relays_step_ok:
  assumes "relays_step s s'" and "pairs_ok s"
  shows "pairs_ok s'"
  using assms
proof cases
  case (hands_over te client proxy code)
  then show ?thesis using transfer_handler_ok [OF assms(2) hands_over(1)] by auto
next
  case (ends a x malloc rounds got sent)
  then show ?thesis using one_way_relay_ends [OF assms(2) ends(1,2)] by auto
next
  case (aborts n)
  then show ?thesis using abort_active_relays_ok [OF assms(2)] by (metis Inr_inject prod.inject)
next
  case (pool_steps pl)
  have "pool_ok {} pl" using relay_step_inv [OF pool_steps(2) pairs_ok_pool_ok [OF assms(2)]] .
  then show ?thesis unfolding pool_steps(1) by (rule pairs_ok_pool [OF assms(2)]) (use pool_steps(3,4) in blast)+
next
  case (shutdown e)
  then show ?thesis using assms(2) by (simp add: pairs_ok_def pair_ok_def running_dirs_def)
qed

lemma relays_reachable_ok: "relays_step\<^sup>*\<^sup>* relays_init s \<Longrightarrow> pairs_ok s"
  by (induction rule: rtranclp_induct) (use pairs_ok_init relays_step_ok in auto)

text \<open>C18. The blocking relay is memory safe: however relays start, end and are aborted, no direction and no abort uses a closed
  socket or a freed pair or closes a socket twice, a pair stays in memory while a direction of it runs, and nothing is left
  in memory or in the list when none runs.\<close>

theorem blocking_relay_safe:
  assumes "relays_step\<^sup>*\<^sup>* relays_init s"
  shows "(\<forall>a x malloc rounds f. (a, x) \<in> relay_threads s \<longrightarrow> one_way_relay malloc rounds a x s \<noteq> Some (Inl f)) \<and>
     (\<exists>s'. abort_active_relays s = Inr (length (active_relay_pairs s), s')) \<and>
     (\<forall>a. pair_heap s a \<noteq> None \<longleftrightarrow> (\<exists>x. (a, x) \<in> relay_threads s)) \<and>
     (relay_threads s = {} \<longrightarrow> active_relay_pairs s = [])"
proof -
  have ok: "pairs_ok s" using relays_reachable_ok [OF assms] .
  have d: "(pair_heap s a \<noteq> None) = (\<exists>x. (a, x) \<in> relay_threads s)" for a
  proof
    assume "pair_heap s a \<noteq> None"
    then obtain p where "pair_heap s a = Some p" by blast
    then show "\<exists>x. (a, x) \<in> relay_threads s" using pairs_okD(8) [OF ok] by (auto simp: running_dirs_def)
  next
    assume "\<exists>x. (a, x) \<in> relay_threads s"
    then have "a \<in> dom (pair_heap s)" using ok by (auto simp: pairs_ok_def running_dirs_def)
    then show "pair_heap s a \<noteq> None" by blast
  qed
  have "dom (pair_heap s) = {}" if "relay_threads s = {}" using d that by auto
  then have e: "active_relay_pairs s = []" if "relay_threads s = {}" using that ok by (simp add: pairs_ok_def)
  have f: "one_way_relay malloc rounds a x s \<noteq> Some (Inl f)" if "(a, x) \<in> relay_threads s" for a x malloc rounds f
    using one_way_relay_ends [OF ok that, of malloc rounds] by blast
  obtain s' where "abort_active_relays s = Inr (length (active_relay_pairs s), s')" using abort_active_relays_ok [OF ok] .
  then show ?thesis by (intro conjI allI impI) (use d e f in blast)+
qed

text \<open>Whatever the system answers while a connection is handed over, afterwards a relay owns both its sockets or both are
  closed, and no other socket is touched.\<close>

theorem transfer_hands_over:
  assumes "relays_step\<^sup>*\<^sup>* relays_init s" and "transferable te client proxy s"
  shows "\<exists>code s'. transfer_handler te client proxy s = Inr (code, s') \<and>
    (carried client proxy s' \<or> {client, proxy} \<inter> sys_open (pool s') = {}) \<and>
    sys_open (pool s) - {client, proxy} \<subseteq> sys_open (pool s')"
  using transfer_handler_ok [OF relays_reachable_ok [OF assms(1)] assms(2)] by blast

text \<open>A direction of a blocking relay sends a prefix of what it receives, and all of it when it ends without aborting the
  pair; the first direction to end leaves both sockets open for the other, the last one closes both and frees the pair.\<close>

theorem one_way_relay_releases:
  assumes "relays_step\<^sup>*\<^sup>* relays_init s" and "(a, x) \<in> relay_threads s" and "pair_heap s a = Some p"
    and "one_way_relay malloc rounds a x s = Some (Inr (got, sent, s'))"
  shows "prefix sent got \<and>
     (from_socket p x \<notin> sys_fin (pool s') \<longrightarrow> sent = got) \<and>
     (if (a, opposite x) \<in> relay_threads s
      then (\<exists>p'. pair_heap s' a = Some p' \<and> pair_sockets p' = pair_sockets p) \<and> pair_sockets p \<subseteq> sys_open (pool s')
      else pair_heap s' a = None \<and> pair_sockets p \<inter> sys_open (pool s') = {})"
proof -
  have ok: "pairs_ok s" using relays_reachable_ok [OF assms(1)] .
  obtain clean where c: "(if malloc then one_way_loop rounds (- 1) [] [] else Some (False, [], [])) = Some (clean, got, sent)"
      and e: "one_way_end a x clean s = Inr s'"
    using assms(4) by (auto simp: one_way_relay_def and_then_Inr split: option.splits prod.splits if_splits)
  have st: "prefix sent got \<and> (clean \<longrightarrow> sent = got)"
  proof (cases malloc)
    case True
    then show ?thesis using c one_way_loop_stream [of rounds "- 1" "[]" clean got sent] by simp
  qed (use c in simp)
  have fin: "from_socket p x \<in> pair_sockets p" by (cases x) (simp_all add: pair_sockets_def)
  show ?thesis
  proof (cases "(a, opposite x) \<in> relay_threads s")
    case True
    then obtain F where F: "F = (if clean then {to_socket p x} else pair_sockets p)"
        "one_way_end a x clean s = Inr ((fins F s)\<lparr>relay_threads := relay_threads s - {(a, x)}, pair_heap := (pair_heap s)(a \<mapsto> p\<lparr>pair_refs := 1\<rparr>)\<rparr>)"
      using one_way_end_first [OF ok assms(3,2) True, of clean] by metis
    then have s': "s' = (fins F s)\<lparr>relay_threads := relay_threads s - {(a, x)}, pair_heap := (pair_heap s)(a \<mapsto> p\<lparr>pair_refs := 1\<rparr>)\<rparr>"
      using e by simp
    have "from_socket p x \<in> sys_fin (pool s')" if "\<not> clean" using that F(1) fin by (simp add: s' fins_def)
    then show ?thesis using st True pairs_okD(3) [OF ok assms(3)] by (auto simp: s' pair_sockets_def)
  next
    case False
    then obtain s2 where "one_way_end a x clean s = Inr s2" "pair_heap s2 = (pair_heap s)(a := None)"
        "sys_open (pool s2) = sys_open (pool s) - pair_sockets p"
        "sys_fin (pool s2) = (if clean then {to_socket p x} else pair_sockets p) \<union> sys_fin (pool s)"
      using one_way_end_last [OF ok assms(3,2), of clean] by metis
    then show ?thesis using st False e fin by auto
  qed
qed

section \<open>A relay pair\<close>

definition fallback :: transfer_env where
  "fallback = \<lparr>te_begin = sample_start\<lparr>rb_assoc := False\<rparr>, te_pair = Some 3, te_running = True, te_up = True, te_dn = True, te_thread = True\<rparr>"

definition open_relays :: relays where
  "open_relays = relays_init\<lparr>pool := open_pool\<rparr>"

definition sample_pair :: RELAY_PAIR where
  "sample_pair = \<lparr>sock_client = 10, sock_proxy = 11, pair_refs = 2, registered = True\<rparr>"

definition sample_relays :: relays where
  "sample_relays = open_relays\<lparr>active_relay_pairs := [3], pair_heap := [3 \<mapsto> sample_pair], relay_threads := {(3, Upload), (3, Download)}\<rparr>"

lemma relays_steps_pool: "relay_step\<^sup>*\<^sup>* pool_init pl \<Longrightarrow> relays_step\<^sup>*\<^sup>* relays_init (relays_init\<lparr>pool := pl\<rparr>)"
proof (induction rule: rtranclp_induct)
  case base
  have "relays_init\<lparr>pool := pool_init\<rparr> = relays_init" by (simp add: relays_init_def)
  then show ?case by simp
next
  case (step pl pl')
  have "relays_step (relays_init\<lparr>pool := pl\<rparr>) ((relays_init\<lparr>pool := pl\<rparr>)\<lparr>pool := pl'\<rparr>)"
    by (rule relays_step.pool_steps) (use step(2) in \<open>simp_all add: relays_init_def\<close>)
  then show ?case using step(3) by simp
qed

lemma open_relays_reachable: "relays_step\<^sup>*\<^sup>* relays_init open_relays"
  using relays_steps_pool [OF open_pool_reachable] by (simp add: open_relays_def)

lemma sample_transferable: "transferable fallback 10 11 open_relays"
  by (simp add: transferable_def fallback_def open_relays_def relays_init_def fresh_pair_def open_pool_def pool_init_def sample_start_def)

lemma sample_transfer: "transfer_handler fallback 10 11 open_relays = Inr (0, sample_relays)"
  by (simp add: transfer_handler_def fallback_def relay_start_def sample_start_def register_relay_pair_def open_relays_def
    relays_init_def open_pool_def pool_init_def sample_relays_def sample_pair_def Let_def)

lemma sample_relays_reachable: "relays_step\<^sup>*\<^sup>* relays_init sample_relays"
  using open_relays_reachable relays_step.hands_over [OF sample_transferable sample_transfer] by (rule rtranclp.rtrancl_into_rtrancl)

lemma sample_relays_facts:
  "relay_threads sample_relays = {(3, Upload), (3, Download)}" "pair_heap sample_relays 3 = Some sample_pair"
  "pair_sockets sample_pair = {10, 11}" "sys_open (pool sample_relays) = {10, 11}"
  by (simp_all add: sample_relays_def open_relays_def relays_init_def sample_pair_def pair_sockets_def open_pool_def)

theorem blocking_relay_safe_witness:
  "\<exists>s'. abort_active_relays sample_relays = Inr (1, s')"
  using blocking_relay_safe [OF sample_relays_reachable] by (simp add: sample_relays_def)

theorem transfer_hands_over_witness:
  "\<exists>s'. transfer_handler fallback 10 11 open_relays = Inr (0, s') \<and> carried 10 11 s'"
  using transfer_hands_over [OF open_relays_reachable sample_transferable] sample_transfer sample_relays_facts by auto

text \<open>The upload receives two segments, the second accepted by \<open>send\<close> in two parts, then the end of the stream.\<close>

definition sample_rounds :: "ow_round list" where
  "sample_rounds = [\<lparr>ow_shutdown = False, ow_select = 1, ow_recv = Some [1, 2], ow_accept = [2]\<rparr>,
     \<lparr>ow_shutdown = False, ow_select = 0, ow_recv = None, ow_accept = []\<rparr>,
     \<lparr>ow_shutdown = False, ow_select = 1, ow_recv = Some [3, 4, 5], ow_accept = [1, 2]\<rparr>,
     \<lparr>ow_shutdown = False, ow_select = 1, ow_recv = Some [], ow_accept = []\<rparr>]"

lemma sample_loop: "one_way_loop sample_rounds (- 1) [] [] = Some (True, [1, 2, 3, 4, 5], [1, 2, 3, 4, 5])"
  by (simp add: sample_rounds_def send_all_def send_all_loop.simps send_call_def Let_def)

theorem one_way_relay_releases_witness:
  "\<exists>s'. one_way_relay True sample_rounds 3 Upload sample_relays = Some (Inr ([1, 2, 3, 4, 5], [1, 2, 3, 4, 5], s')) \<and>
     10 \<in> sys_open (pool s')"
proof -
  have t: "(3, Upload) \<in> relay_threads sample_relays" using sample_relays_facts by simp
  obtain s' where s': "one_way_end 3 Upload True sample_relays = Inr s'"
    using one_way_end_ok [OF relays_reachable_ok [OF sample_relays_reachable] t] .
  then have "one_way_relay True sample_rounds 3 Upload sample_relays = Some (Inr ([1, 2, 3, 4, 5], [1, 2, 3, 4, 5], s'))"
    by (simp add: one_way_relay_def sample_loop)
  then show ?thesis
    using one_way_relay_releases [OF sample_relays_reachable t sample_relays_facts(2)] sample_relays_facts by auto
qed

end
