(* ===== verification/PB_Workers.thy ===== *)
theory PB_Workers
  imports PB_Prelude
begin

text \<open>
  The gate of the connection workers in \<open>pb_relay.c\<close>: the listener counts a worker in before it dispatches it, the
  last worker out sets the event that \<open>ProxyBridge_Stop\<close> waits for. The counter and the event are two objects that
  are changed one after the other, so each interlocked operation is a step of its own and threads interleave between them.
  The lemmas show that the counter is exact, that the waiting ends once the workers have left, and when it ends too early.
\<close>

section \<open>The gate\<close>

text \<open>Where a connection is on its way through the gate: not counted; counted, the event not yet reset; reset, \<open>running\<close>
  not yet read; served by its worker; counted out as the last one, the event not yet set.\<close>

datatype worker_phase = Outside | Counted | Rearmed | Serving | Last_Out

text \<open>\<open>connection_workers_done_event\<close> is \<open>None\<close> while the event does not exist.\<close>

record gate =
  gate_running :: bool
  active_connection_workers :: int
  connection_workers_done_event :: "bool option"
  phase_of :: "nat \<Rightarrow> worker_phase"

definition set_event :: "gate \<Rightarrow> gate" where
  "set_event g = g\<lparr>connection_workers_done_event := map_option (\<lambda>_. True) (connection_workers_done_event g)\<rparr>"

definition reset_event :: "gate \<Rightarrow> gate" where
  "reset_event g = g\<lparr>connection_workers_done_event := map_option (\<lambda>_. False) (connection_workers_done_event g)\<rparr>"

definition enter_phase :: "nat \<Rightarrow> worker_phase \<Rightarrow> gate \<Rightarrow> gate" where
  "enter_phase t ph g = g\<lparr>phase_of := (phase_of g)(t := ph)\<rparr>"

text \<open>The interlocked operations.\<close>

definition count_in :: "nat \<Rightarrow> gate \<Rightarrow> gate" where
  "count_in t g = enter_phase t Counted (g\<lparr>active_connection_workers := active_connection_workers g + 1\<rparr>)"

definition rearm :: "nat \<Rightarrow> gate \<Rightarrow> gate" where
  "rearm t g = enter_phase t Rearmed (reset_event g)"

definition count_out :: "nat \<Rightarrow> gate \<Rightarrow> gate" where
  "count_out t g =
     (let n = active_connection_workers g - 1 in
      enter_phase t (if n = 0 \<and> connection_workers_done_event g \<noteq> None then Last_Out else Outside)
        (g\<lparr>active_connection_workers := n\<rparr>))"

definition signal_done :: "nat \<Rightarrow> gate \<Rightarrow> gate" where
  "signal_done t g = enter_phase t Outside (set_event g)"

text \<open>Leaving without interruption.\<close>

definition end_connection_worker :: "nat \<Rightarrow> gate \<Rightarrow> gate" where
  "end_connection_worker t g =
     (let g1 = count_out t g in if phase_of g1 t = Last_Out then signal_done t g1 else g1)"

definition begin_connection_worker :: "nat \<Rightarrow> gate \<Rightarrow> bool \<times> gate" where
  "begin_connection_worker t g =
     (let g1 = rearm t (count_in t g) in
      if \<not> gate_running g1 then (False, end_connection_worker t g1) else (True, enter_phase t Serving g1))"

section \<open>Interleaving\<close>

text \<open>The steps of all threads. With \<open>overlap\<close> the listener may rearm the event while another thread is between counting
  itself out and setting it, as the code allows. A connection counted in is either admitted or counted out; a worker that
  could not be created is counted out like one that ends. \<open>Stop\<close> clears \<open>running\<close>.\<close>

inductive gate_step :: "bool \<Rightarrow> gate \<Rightarrow> gate \<Rightarrow> bool" for overlap where
  counts: "phase_of g t = Outside \<Longrightarrow> gate_step overlap g (count_in t g)"
| rearms: "phase_of g t = Counted \<Longrightarrow> overlap \<or> (\<forall>u. phase_of g u \<noteq> Last_Out) \<Longrightarrow> gate_step overlap g (rearm t g)"
| admits: "phase_of g t = Rearmed \<Longrightarrow> gate_running g \<Longrightarrow> gate_step overlap g (enter_phase t Serving g)"
| refuses: "phase_of g t = Rearmed \<Longrightarrow> \<not> gate_running g \<Longrightarrow> gate_step overlap g (count_out t g)"
| leaves: "phase_of g t = Serving \<Longrightarrow> gate_step overlap g (count_out t g)"
| signals: "phase_of g t = Last_Out \<Longrightarrow> gate_step overlap g (signal_done t g)"
| stops: "gate_step overlap g (g\<lparr>gate_running := False\<rparr>)"

text \<open>After \<open>create_lifecycle_events\<close>.\<close>

definition gate_init :: gate where
  "gate_init = \<lparr>gate_running = True, active_connection_workers = 0, connection_workers_done_event = Some True,
     phase_of = (\<lambda>_. Outside)\<rparr>"

text \<open>The threads that are counted, and those whose setting of the event is still to come.\<close>

definition inside :: "gate \<Rightarrow> nat set" where
  "inside g = {t. phase_of g t \<in> {Counted, Rearmed, Serving}}"

definition settling :: "gate \<Rightarrow> nat set" where
  "settling g = {t. phase_of g t = Last_Out}"

text \<open>The listener has been joined: nobody is inside \<open>begin_connection_worker\<close>.\<close>

definition listener_gone :: "gate \<Rightarrow> bool" where
  "listener_gone g \<longleftrightarrow> \<not> gate_running g \<and> (\<forall>t. phase_of g t \<notin> {Counted, Rearmed})"

text \<open>What the wait in \<open>wait_for_runtime_workers\<close> lets through.\<close>

definition stop_proceeds :: "gate \<Rightarrow> bool" where
  "stop_proceeds g \<longleftrightarrow> listener_gone g \<and> connection_workers_done_event g = Some True"

section \<open>Invariant\<close>

lemmas gate_ops = count_in_def rearm_def count_out_def signal_done_def enter_phase_def set_event_def reset_event_def

definition gate_ok :: "gate \<Rightarrow> bool" where
  "gate_ok g \<longleftrightarrow> finite (inside g) \<and> active_connection_workers g = int (card (inside g)) \<and>
     connection_workers_done_event g \<noteq> None \<and>
     (connection_workers_done_event g = Some False \<longrightarrow> inside g \<noteq> {} \<or> settling g \<noteq> {})"

text \<open>Without overlap the event is set only while nobody is past the rearming.\<close>

definition event_exact :: "gate \<Rightarrow> bool" where
  "event_exact g \<longleftrightarrow>
     (connection_workers_done_event g = Some True \<longrightarrow> (\<forall>t. phase_of g t \<notin> {Rearmed, Serving})) \<and>
     (settling g \<noteq> {} \<longrightarrow> (\<forall>t. phase_of g t \<notin> {Rearmed, Serving}))"

lemma inside_enter:
  "inside (enter_phase t ph g) = (if ph \<in> {Counted, Rearmed, Serving} then insert t (inside g) else inside g - {t})"
  by (auto simp: inside_def enter_phase_def)

lemma settling_enter: "settling (enter_phase t ph g) = (if ph = Last_Out then insert t (settling g) else settling g - {t})"
  by (auto simp: settling_def enter_phase_def)

lemma inside_fields [simp]:
  "inside (g\<lparr>active_connection_workers := n\<rparr>) = inside g" "inside (g\<lparr>connection_workers_done_event := e\<rparr>) = inside g"
  "inside (g\<lparr>gate_running := r\<rparr>) = inside g"
  "settling (g\<lparr>active_connection_workers := n\<rparr>) = settling g" "settling (g\<lparr>connection_workers_done_event := e\<rparr>) = settling g"
  "settling (g\<lparr>gate_running := r\<rparr>) = settling g"
  by (simp_all add: inside_def settling_def)

lemma enter_phase_fields [simp]:
  "active_connection_workers (enter_phase t ph g) = active_connection_workers g"
  "connection_workers_done_event (enter_phase t ph g) = connection_workers_done_event g"
  by (simp_all add: enter_phase_def)

lemma count_out_ok:
  assumes "gate_ok g" and "phase_of g t \<in> {Rearmed, Serving}"
  shows "gate_ok (count_out t g)"
proof -
  have t: "t \<in> inside g" "t \<notin> settling g" using assms(2) by (auto simp: inside_def settling_def)
  have f: "finite (inside g)" and c: "active_connection_workers g = int (card (inside g))" using assms(1) by (simp_all add: gate_ok_def)
  from f t(1) have "card (inside g - {t}) = card (inside g) - 1" "0 < card (inside g)" by (auto simp: card_gt_0_iff)
  then have n: "active_connection_workers g - 1 = int (card (inside g - {t}))" using c by simp
  show ?thesis
  proof (cases "inside g - {t} = {}")
    case True
    with n have "active_connection_workers g = 1" by simp
    with True assms(1) f show ?thesis
      by (simp add: count_out_def Let_def gate_ok_def inside_enter settling_enter)
  next
    case False
    with f have "card (inside g - {t}) \<noteq> 0" by simp
    with n have "active_connection_workers g \<noteq> 1" by simp
    with False assms(1) f n show ?thesis
      by (simp add: count_out_def Let_def gate_ok_def inside_enter settling_enter)
  qed
qed

lemma gate_step_ok:
  assumes "gate_step overlap g g'" and "gate_ok g"
  shows "gate_ok g'"
  using assms
proof cases
  case (counts t)
  then have "t \<notin> inside g" by (simp add: inside_def)
  with counts assms(2) show ?thesis
    by (auto simp: count_in_def gate_ok_def inside_enter settling_enter)
next
  case (rearms t)
  then have "t \<in> inside g" by (simp add: inside_def)
  then have "insert t (inside g) = inside g" "inside g \<noteq> {}" by blast+
  with rearms assms(2) show ?thesis
    by (auto simp: rearm_def gate_ok_def reset_event_def inside_enter settling_enter intro: exI [of _ False])
next
  case (admits t)
  then have "insert t (inside g) = inside g" "t \<notin> settling g" by (auto simp: inside_def settling_def)
  with admits assms(2) show ?thesis
    by (auto simp: gate_ok_def inside_enter settling_enter)
next
  case (signals t)
  then have "t \<notin> inside g" by (simp add: inside_def)
  with signals assms(2) show ?thesis
    by (auto simp: signal_done_def gate_ok_def set_event_def inside_enter)
qed (use count_out_ok in \<open>auto simp: gate_ok_def\<close>)

lemma gate_init_ok: "gate_ok gate_init"
  by (simp add: gate_ok_def gate_init_def inside_def)

lemma gate_reachable_ok: "(gate_step overlap)\<^sup>*\<^sup>* gate_init g \<Longrightarrow> gate_ok g"
  by (induction rule: rtranclp_induct) (use gate_init_ok gate_step_ok in auto)

lemma event_exact_out:
  assumes "gate_ok g" and "event_exact g" and "phase_of g t \<in> {Rearmed, Serving}"
  shows "event_exact (count_out t g)"
proof -
  have s: "settling g = {}" "connection_workers_done_event g \<noteq> Some True"
    using assms(2,3) by (meson event_exact_def)+
  show ?thesis
  proof (cases "active_connection_workers g - 1 = 0")
    case True
    then have "card (inside g) = 1" "t \<in> inside g" using assms(1,3) by (auto simp: gate_ok_def inside_def)
    then have "inside g = {t}" by (metis card_1_singletonE singletonD)
    then have "phase_of g u \<notin> {Rearmed, Serving}" if "u \<noteq> t" for u using that by (auto simp: inside_def)
    then show ?thesis using s by (auto simp: event_exact_def count_out_def enter_phase_def settling_def)
  qed (use s in \<open>auto simp: event_exact_def count_out_def enter_phase_def settling_def\<close>)
qed

lemma event_exact_step:
  assumes "gate_step False g g'" and "gate_ok g" and "event_exact g"
  shows "event_exact g'"
  using assms event_exact_out [OF assms(2,3)]
  by cases (auto simp: event_exact_def gate_ops settling_def)

lemma event_exact_reachable: "(gate_step False)\<^sup>*\<^sup>* gate_init g \<Longrightarrow> event_exact g"
proof (induction rule: rtranclp_induct)
  case base
  show ?case by (simp add: event_exact_def gate_init_def settling_def)
next
  case (step g g')
  then show ?case using event_exact_step gate_reachable_ok by blast
qed

section \<open>Uninterrupted calls are runs of steps\<close>

lemma end_run:
  assumes "phase_of g t = Serving"
  shows "(gate_step overlap)\<^sup>*\<^sup>* g (end_connection_worker t g)"
proof -
  have "gate_step overlap g (count_out t g)" using assms by (rule gate_step.leaves)
  then show ?thesis
    using gate_step.signals [of "count_out t g" t overlap] by (auto simp: end_connection_worker_def Let_def)
qed

lemma begin_run:
  assumes "phase_of g t = Outside"
  shows "(gate_step True)\<^sup>*\<^sup>* g (snd (begin_connection_worker t g))"
proof -
  let ?g = "rearm t (count_in t g)"
  have "phase_of (count_in t g) t = Counted" by (simp add: count_in_def enter_phase_def)
  then have r: "(gate_step True)\<^sup>*\<^sup>* g ?g"
    using gate_step.counts [of g t True] gate_step.rearms [of "count_in t g" t True] assms by simp
  have p: "phase_of ?g t = Rearmed" by (simp add: rearm_def enter_phase_def)
  show ?thesis
  proof (cases "gate_running ?g")
    case True
    then show ?thesis using r gate_step.admits [OF p True, of True] by (simp add: begin_connection_worker_def Let_def)
  next
    case False
    have "(gate_step True)\<^sup>*\<^sup>* ?g (end_connection_worker t ?g)"
      using gate_step.refuses [OF p False, of True] gate_step.signals [of "count_out t ?g" t True]
      by (auto simp: end_connection_worker_def Let_def)
    then show ?thesis using r False by (simp add: begin_connection_worker_def Let_def)
  qed
qed

section \<open>Properties\<close>

text \<open>C19. The count of workers is exact at every moment, in every interleaving, and \<open>Stop\<close> cannot hang: once the listener
  is gone and every connection has been counted out and has set the event if it was the last, the wait lets \<open>Stop\<close> through.\<close>

theorem stop_never_hangs:
  assumes "(gate_step True)\<^sup>*\<^sup>* gate_init g"
  shows "active_connection_workers g = int (card (inside g)) \<and>
     (\<not> gate_running g \<and> (\<forall>t. phase_of g t = Outside) \<longrightarrow> stop_proceeds g)"
proof -
  have "gate_ok g" using gate_reachable_ok [OF assms] .
  then show ?thesis by (auto simp: gate_ok_def stop_proceeds_def listener_gone_def inside_def settling_def)
qed

text \<open>C20. If no connection is counted in between a worker's counting itself out as the last one and its setting of the event,
  \<open>Stop\<close> goes on only when no worker is left.\<close>

theorem stop_waits_for_workers:
  assumes "(gate_step False)\<^sup>*\<^sup>* gate_init g" and "stop_proceeds g"
  shows "inside g = {} \<and> active_connection_workers g = 0"
proof -
  have "event_exact g" "gate_ok g" using event_exact_reachable [OF assms(1)] gate_reachable_ok [OF assms(1)] .
  then have "inside g = {}" using assms(2) by (auto simp: event_exact_def stop_proceeds_def listener_gone_def inside_def)
  then show ?thesis using \<open>gate_ok g\<close> by (simp add: gate_ok_def)
qed


section \<open>Witnesses\<close>

text \<open>A connection is dispatched, \<open>running\<close> is cleared, the worker leaves and sets the event.\<close>

definition sample_gate :: gate where
  "sample_gate = end_connection_worker 1 ((snd (begin_connection_worker 1 gate_init))\<lparr>gate_running := False\<rparr>)"

lemma sample_gate_eq:
  "sample_gate = \<lparr>gate_running = False, active_connection_workers = 0, connection_workers_done_event = Some True, phase_of = (\<lambda>_. Outside)\<rparr>"
  by (auto simp: sample_gate_def begin_connection_worker_def end_connection_worker_def gate_ops gate_init_def Let_def)

lemma sample_gate_reachable: "(gate_step False)\<^sup>*\<^sup>* gate_init sample_gate"
proof -
  define g1 where "g1 = count_in 1 gate_init"
  define g2 where "g2 = rearm 1 g1"
  define g3 where "g3 = enter_phase 1 Serving g2"
  define g4 where "g4 = g3\<lparr>gate_running := False\<rparr>"
  note runs = g1_def g2_def g3_def g4_def gate_ops gate_init_def begin_connection_worker_def Let_def
  have "(gate_step False)\<^sup>*\<^sup>* gate_init g1"
    unfolding g1_def by (rule r_into_rtranclp, rule gate_step.counts) (simp add: gate_init_def)
  also have "gate_step False g1 g2" unfolding g2_def by (rule gate_step.rearms) (simp_all add: runs)
  also have "gate_step False g2 g3" unfolding g3_def by (rule gate_step.admits) (simp_all add: runs)
  also have "gate_step False g3 g4" unfolding g4_def by (rule gate_step.stops)
  also have "(gate_step False)\<^sup>*\<^sup>* g4 (end_connection_worker 1 g4)" by (rule end_run) (simp add: runs)
  finally show ?thesis by (simp add: sample_gate_def runs)
qed

lemma gate_step_True: "gate_step False g g' \<Longrightarrow> gate_step True g g'"
  by (induction rule: gate_step.induct) (auto intro: gate_step.intros)

lemma gate_steps_True: "(gate_step False)\<^sup>*\<^sup>* g g' \<Longrightarrow> (gate_step True)\<^sup>*\<^sup>* g g'"
  by (rule rtranclp_mono [THEN predicate2D, rotated]) (auto intro: gate_step_True)

theorem stop_never_hangs_witness: "stop_proceeds sample_gate"
  using stop_never_hangs [OF gate_steps_True [OF sample_gate_reachable]] by (simp add: sample_gate_eq)

theorem stop_waits_for_workers_witness: "stop_proceeds sample_gate \<and> inside sample_gate = {}"
  using stop_waits_for_workers [OF sample_gate_reachable]
  by (simp add: sample_gate_eq stop_proceeds_def listener_gone_def)

end
