(* ===== verification/PB_Socks5.thy ===== *)
theory PB_Socks5
  imports PB_Proxy
begin

text \<open>
  \<open>pb_socks5.c\<close>: the SOCKS5 client. Negotiation without authentication, the CONNECT request for IPv4,
  IPv6 and domain destinations, the reply reader, the failure log with its repeat filter, and the UDP
  association a proxy configuration keeps open. A conversation with the proxy is a \<open>sock\<close> of
  \<open>PB_Util\<close>; the contract of a CONNECT variant is the locale \<open>connect_command\<close>.
\<close>

abbreviation (input) SOCKS5_VERSION :: u8 where "SOCKS5_VERSION \<equiv> 0x05"
abbreviation (input) SOCKS5_CMD_CONNECT :: u8 where "SOCKS5_CMD_CONNECT \<equiv> 0x01"
abbreviation (input) SOCKS5_CMD_UDP_ASSOCIATE :: u8 where "SOCKS5_CMD_UDP_ASSOCIATE \<equiv> 0x03"
abbreviation (input) SOCKS5_ATYP_IPV4 :: u8 where "SOCKS5_ATYP_IPV4 \<equiv> 0x01"
abbreviation (input) SOCKS5_ATYP_IPV6 :: u8 where "SOCKS5_ATYP_IPV6 \<equiv> 0x04"
abbreviation (input) SOCKS5_ATYP_DOMAIN :: u8 where "SOCKS5_ATYP_DOMAIN \<equiv> 0x03"
abbreviation (input) SOCKS5_AUTH_NONE :: u8 where "SOCKS5_AUTH_NONE \<equiv> 0x00"

section \<open>Conversations that log\<close>

text \<open>A socket together with what the log callback has received (\<open>io_callback\<close>: one is registered) and
  the static variables of the failure log.\<close>

record conn_io = sock +
  io_callback :: bool
  io_log :: "string list"
  s5_last :: string
  s5_last_tick :: u64
  s5_suppressed :: int

definition log_message :: "string \<Rightarrow> conn_io \<Rightarrow> conn_io" where
  "log_message msg io = (if \<not> io_callback io then io else io\<lparr>io_log := io_log io @ [strncpy_trunc 1024 msg]\<rparr>)"

section \<open>The reply to CONNECT\<close>

text \<open>How many bytes follow the header, for the address type of its fourth byte; a domain is preceded by
  its length. \<open>None\<close>: the type is unknown or the stream ended.\<close>

definition socks5_drain :: "u8 \<Rightarrow> 'a sock_scheme \<Rightarrow> nat option \<times> 'a sock_scheme" where
  "socks5_drain atyp sk =
     (if atyp = SOCKS5_ATYP_IPV4 then (Some (4 + 2), sk)
      else if atyp = SOCKS5_ATYP_IPV6 then (Some (16 + 2), sk)
      else if atyp = SOCKS5_ATYP_DOMAIN
      then (case sock_recv_n 1 sk of
              (None, sk1) \<Rightarrow> (None, sk1)
            | (Some d, sk1) \<Rightarrow> (Some (unat (d ! 0) + 2), sk1))
      else (None, sk))"

text \<open>The function's result, the REP code it stores for the caller and the socket.\<close>

definition socks5_read_connect_reply :: "'a sock_scheme \<Rightarrow> int \<times> int \<times> 'a sock_scheme" where
  "socks5_read_connect_reply sk =
     (case sock_recv_n 4 sk of
        (None, sk1) \<Rightarrow> (- 1, - 1, sk1)
      | (Some hdr, sk1) \<Rightarrow>
          let reply = int (unat (hdr ! 1)) in
          if hdr ! 0 \<noteq> SOCKS5_VERSION \<or> hdr ! 1 \<noteq> 0x00 then (- 1, reply, sk1)
          else (case socks5_drain (hdr ! 3) sk1 of
                  (None, sk2) \<Rightarrow> (- 1, reply, sk2)
                | (Some drain, sk2) \<Rightarrow>
                    (case sock_recv_n drain sk2 of
                       (None, sk3) \<Rightarrow> (- 1, reply, sk3)
                     | (Some _, sk3) \<Rightarrow> (0, reply, sk3))))"

section \<open>The failure log\<close>

definition hex_digit :: "nat \<Rightarrow> char" where
  "hex_digit n = (if n < 10 then digit_char n else char_of (55 + n))"

text \<open>\<open>%02X\<close> of a REP code.\<close>

definition hex2 :: "nat \<Rightarrow> string" where
  "hex2 n = [hex_digit (n div 16), hex_digit (n mod 16)]"

definition reply_text :: "int \<Rightarrow> string" where
  "reply_text reply =
     (if reply = 1 then ''general failure''
      else if reply = 2 then ''not allowed by ruleset''
      else if reply = 3 then ''network unreachable''
      else if reply = 4 then ''host unreachable''
      else if reply = 5 then ''connection refused''
      else if reply = 6 then ''TTL expired''
      else if reply = 7 then ''command not supported''
      else if reply = 8 then ''address type not supported''
      else ''unknown error'')"

definition failure_line :: "string \<Rightarrow> string \<Rightarrow> u16 \<Rightarrow> int \<Rightarrow> string" where
  "failure_line kind dest port reply =
     (let why = strncpy_trunc 160
            (if reply < 0
             then ''the proxy closed the connection or did not answer (it may be unable to reach this destination)''
             else ''proxy replied 0x'' @ hex2 (nat reply) @ '' ('' @ reply_text reply @ '')'')
      in strncpy_trunc 512
        (''SOCKS5 '' @ kind @ '': CONNECT to '' @ dest @ '':'' @ decimal (unat port) @ '' failed - '' @ why))"

definition socks5_log_connect_failure :: "string \<Rightarrow> string \<Rightarrow> u16 \<Rightarrow> int \<Rightarrow> u64 \<Rightarrow> conn_io \<Rightarrow> conn_io" where
  "socks5_log_connect_failure kind dest port reply now io =
     (let line = failure_line kind dest port reply in
      if line = s5_last io \<and> now - s5_last_tick io < 5000
      then io\<lparr>s5_suppressed := s5_suppressed io + 1\<rparr>
      else
        let n = s5_suppressed io;
            io1 = io\<lparr>s5_suppressed := 0, s5_last := strncpy_trunc 512 line, s5_last_tick := now\<rparr>;
            io2 = (if 0 < n
                   then log_message (''level=debug (previous SOCKS5 failure repeated '' @ decimal (nat n) @ '' more times)'') io1
                   else io1)
        in log_message (''level=error '' @ line) io2)"

section \<open>Negotiation and CONNECT\<close>

definition socks5_negotiate_no_auth :: "'a sock_scheme \<Rightarrow> int \<times> 'a sock_scheme" where
  "socks5_negotiate_no_auth sk =
     (case send_all [SOCKS5_VERSION, 0x01, SOCKS5_AUTH_NONE] sk of (n, sk1) \<Rightarrow>
        if n \<noteq> 3 then (- 1, sk1)
        else case sock_recv_n 2 sk1 of
               (None, sk2) \<Rightarrow> (- 1, sk2)
             | (Some reply, sk2) \<Rightarrow>
                 if reply ! 0 \<noteq> SOCKS5_VERSION \<or> reply ! 1 \<noteq> SOCKS5_AUTH_NONE then (- 1, sk2) else (0, sk2))"

text \<open>The request bytes of the three variants.\<close>

definition request_domain :: "string \<Rightarrow> u16 \<Rightarrow> bytes" where
  "request_domain hostname dest_port =
     [SOCKS5_VERSION, SOCKS5_CMD_CONNECT, 0x00, SOCKS5_ATYP_DOMAIN, of_nat (length hostname)] @
     map (\<lambda>c. of_nat (of_char c)) hostname @ [hi8 dest_port, lo8 dest_port]"

definition request_v4 :: "u32 \<Rightarrow> u16 \<Rightarrow> bytes" where
  "request_v4 dest_ip dest_port =
     [SOCKS5_VERSION, SOCKS5_CMD_CONNECT, 0x00, SOCKS5_ATYP_IPV4,
      octet 0 dest_ip, octet 1 dest_ip, octet 2 dest_ip, octet 3 dest_ip, hi8 dest_port, lo8 dest_port]"

definition request_v6 :: "ip6 \<Rightarrow> u16 \<Rightarrow> bytes" where
  "request_v6 dest_ip6 dest_port =
     [SOCKS5_VERSION, SOCKS5_CMD_CONNECT, 0x00, SOCKS5_ATYP_IPV6] @ take 16 dest_ip6 @ [hi8 dest_port, lo8 dest_port]"

definition socks5_connect_domain :: "string \<Rightarrow> u16 \<Rightarrow> u64 \<Rightarrow> conn_io \<Rightarrow> int \<times> conn_io" where
  "socks5_connect_domain hostname dest_port now io =
     (let hlen = min (length hostname) 256 in
      if hlen = 0 \<or> 255 < hlen then (- 1, io)
      else case socks5_negotiate_no_auth io of (rc, io1) \<Rightarrow>
        if rc \<noteq> 0 then (- 1, io1)
        else let request = request_domain hostname dest_port in
          case send_all request io1 of (n, io2) \<Rightarrow>
            if n \<noteq> int (7 + hlen) then (- 1, io2)
            else case socks5_read_connect_reply io2 of (rc2, reply, io3) \<Rightarrow>
              if rc2 \<noteq> 0 then (- 1, socks5_log_connect_failure ''domain'' hostname dest_port reply now io3)
              else (0, io3))"

definition socks5_connect :: "u32 \<Rightarrow> u16 \<Rightarrow> u64 \<Rightarrow> conn_io \<Rightarrow> int \<times> conn_io" where
  "socks5_connect dest_ip dest_port now io =
     (case socks5_negotiate_no_auth io of (rc, io1) \<Rightarrow>
        if rc \<noteq> 0 then (- 1, log_message ''SOCKS5: No-auth negotiation failed'' io1)
        else case send_all (request_v4 dest_ip dest_port) io1 of (n, io2) \<Rightarrow>
            if n \<noteq> 10 then (- 1, log_message ''SOCKS5: Failed to send CONNECT'' io2)
            else case socks5_read_connect_reply io2 of (rc2, reply, io3) \<Rightarrow>
              if rc2 \<noteq> 0
              then (- 1, socks5_log_connect_failure ''IPv4'' (format_ip_address dest_ip 32) dest_port reply now io3)
              else (0, io3))"

text \<open>\<open>ntop6\<close> is \<open>InetNtopA\<close> for IPv6; the text stays \<open>?\<close> when it fails.\<close>

definition socks5_connect_v6 :: "(ip6 \<Rightarrow> string option) \<Rightarrow> ip6 \<Rightarrow> u16 \<Rightarrow> u64 \<Rightarrow> conn_io \<Rightarrow> int \<times> conn_io" where
  "socks5_connect_v6 ntop6 dest_ip6 dest_port now io =
     (case socks5_negotiate_no_auth io of (rc, io1) \<Rightarrow>
        if rc \<noteq> 0 then (- 1, io1)
        else case send_all (request_v6 dest_ip6 dest_port) io1 of (n, io2) \<Rightarrow>
            if n \<noteq> 22 then (- 1, io2)
            else case socks5_read_connect_reply io2 of (rc2, reply, io3) \<Rightarrow>
              if rc2 \<noteq> 0
              then (- 1, socks5_log_connect_failure ''IPv6''
                      (case ntop6 dest_ip6 of None \<Rightarrow> ''?'' | Some t \<Rightarrow> t) dest_port reply now io3)
              else (0, io3))"

section \<open>UDP association\<close>

definition socks5_udp_associate_with_config ::
  "u32 \<times> u16 \<Rightarrow> 'a sock_scheme \<Rightarrow> int \<times> (u32 \<times> u16) \<times> 'a sock_scheme" where
  "socks5_udp_associate_with_config relay_addr sk =
     (case socks5_negotiate_no_auth sk of (rc, sk1) \<Rightarrow>
        if rc \<noteq> 0 then (- 1, relay_addr, sk1)
        else case send_all [SOCKS5_VERSION, SOCKS5_CMD_UDP_ASSOCIATE, 0x00, SOCKS5_ATYP_IPV4, 0, 0, 0, 0, 0, 0] sk1 of
          (n, sk2) \<Rightarrow>
            if n \<noteq> 10 then (- 1, relay_addr, sk2)
            else case sock_recv_n 4 sk2 of
              (None, sk3) \<Rightarrow> (- 1, relay_addr, sk3)
            | (Some rep, sk3) \<Rightarrow>
                if rep ! 0 \<noteq> SOCKS5_VERSION \<or> rep ! 1 \<noteq> 0x00 then (- 1, relay_addr, sk3)
                else if rep ! 3 \<noteq> SOCKS5_ATYP_IPV4 then (- 1, relay_addr, sk3)
                else case sock_recv_n 6 sk3 of
                  (None, sk4) \<Rightarrow> (- 1, relay_addr, sk4)
                | (Some ap, sk4) \<Rightarrow> (0, (bytes_to_u32 (take 4 ap), be16 (ap ! 4) (ap ! 5)), sk4))"

text \<open>What the system and the network answer during one attempt: the handle of the control socket, how
  connecting it ends, the conversation with the proxy, and the handle of the datagram socket.\<close>

record udp_attempt =
  ua_tcp :: SOCKET
  ua_connect :: connect_outcome
  ua_sock :: sock
  ua_udp :: SOCKET

text \<open>The result, the handles closed on the way and the configuration afterwards.\<close>

definition establish_udp_associate_for_config ::
  "os \<Rightarrow> udp_attempt \<Rightarrow> u64 \<Rightarrow> PROXY_CONFIG \<Rightarrow> bool \<times> nat list \<times> PROXY_CONFIG" where
  "establish_udp_associate_for_config os att now cfg =
     (if pc_host cfg = '''' \<or> pc_port cfg = 0 then (False, [], cfg)
      else if pc_type cfg \<noteq> PROXY_TYPE_SOCKS5 then (False, [], cfg)
      else if now - pc_last_udp_attempt cfg < 1000 then (False, [], cfg)
      else
        let old = open_handles cfg;
            cfg1 = cfg\<lparr>pc_last_udp_attempt := now, pc_udp_tcp_ctrl := None, pc_udp_send_sock := None\<rparr>
        in case ua_tcp att of
             None \<Rightarrow> (False, old, cfg1)
           | Some tcp \<Rightarrow>
               let socks5_ip = resolve_hostname (os_getaddrinfo os) (Some (pc_host cfg1)) in
               if socks5_ip = 0 then (False, old @ [tcp], cfg1)
               else if connect_with_timeout (ua_connect att) = - 1 then (False, old @ [tcp], cfg1)
               else case socks5_udp_associate_with_config (pc_udp_relay_addr cfg1) (ua_sock att) of (rc, relay, _) \<Rightarrow>
                 if rc \<noteq> 0 then (False, old @ [tcp], cfg1\<lparr>pc_udp_relay_addr := relay\<rparr>)
                 else
                   let relay2 = (if fst relay = 0 then (socks5_ip, snd relay) else relay);
                       cfg2 = cfg1\<lparr>pc_udp_relay_addr := relay2, pc_udp_tcp_ctrl := Some tcp\<rparr>
                   in case ua_udp att of
                        None \<Rightarrow> (False, old @ [tcp], cfg2\<lparr>pc_udp_tcp_ctrl := None, pc_udp_connected := False\<rparr>)
                      | Some udp \<Rightarrow> (True, old, cfg2\<lparr>pc_udp_send_sock := Some udp, pc_udp_connected := True\<rparr>))"

section \<open>What the stream must hold\<close>

text \<open>The bytes a socket still has to deliver; a live socket delivers no empty segment.\<close>

definition stream :: "'a sock_scheme \<Rightarrow> bytes" where
  "stream sk = concat (sk_in sk)"

definition live :: "'a sock_scheme \<Rightarrow> bool" where
  "live sk \<longleftrightarrow> [] \<notin> set (sk_in sk)"

text \<open>A socket that accepts at least \<open>n\<close> more bytes.\<close>

definition healthy :: "nat \<Rightarrow> 'a sock_scheme \<Rightarrow> bool" where
  "healthy n sk \<longleftrightarrow> 0 \<notin> set (sk_accept sk) \<and> n \<le> length (sk_accept sk)"

text \<open>The length of a granting reply (RFC 1928, section 6) at the head of a stream, and how much of the
  stream a whole handshake takes: method selection, then the reply.\<close>

definition reply_length :: "bytes \<Rightarrow> nat option" where
  "reply_length bs =
     (if 4 \<le> length bs \<and> bs ! 0 = 5 \<and> bs ! 1 = 0
      then if bs ! 3 = 1 then Some 10
           else if bs ! 3 = 4 then Some 22
           else if bs ! 3 = 3 \<and> 5 \<le> length bs then Some (7 + unat (bs ! 4)) else None
      else None)"

definition handshake_length :: "bytes \<Rightarrow> nat option" where
  "handshake_length bs =
     (if 2 \<le> length bs \<and> bs ! 0 = 5 \<and> bs ! 1 = 0
      then case reply_length (drop 2 bs) of
             None \<Rightarrow> None
           | Some n \<Rightarrow> if 2 + n \<le> length bs then Some (2 + n) else None
      else None)"

lemma sock_recv_n_spec:
  assumes "live sk" and "sock_recv_n n sk = (r, sk')"
  shows "r = (if n \<le> length (stream sk) then Some (take n (stream sk)) else None) \<and>
     (n \<le> length (stream sk) \<longrightarrow> stream sk' = drop n (stream sk) \<and> live sk') \<and>
     sk_out sk' = sk_out sk \<and> sk_accept sk' = sk_accept sk"
  using recv_n_loop_spec [of "sk_in sk" "[]" n] assms
  by (auto simp: live_def stream_def sock_recv_n_def recv_n_def split: prod.splits if_splits)

lemma send_call_healthy:
  assumes "healthy (m + length buf) sk" and "buf \<noteq> []" and "send_call buf sk = (k, sk')"
  shows "0 < k \<and> healthy (m + length buf - 1) sk'"
  using assms by (cases "sk_accept sk") (auto simp: healthy_def send_call_def min_def Let_def)

lemma send_all_loop_healthy:
  assumes "healthy (m + (length buf - sent)) sk" and "sent \<le> length buf" and "send_all_loop sent buf sk = (r, sk')"
  shows "r = int (length buf) \<and> healthy m sk'"
  using assms
proof (induction sent buf sk arbitrary: m rule: send_all_loop.induct)
  case (1 sent buf sk)
  show ?case
  proof (cases "sent < length buf")
    case False
    with "1.prems"(2,3) have "sent = length buf" "sk' = sk" "r = int (length buf)"
      by (subst (asm) send_all_loop.simps, simp)+
    with "1.prems"(1) show ?thesis by simp
  next
    case True
    obtain n sk1 where call: "send_call (drop sent buf) sk = (n, sk1)" by force
    have h: "0 < n" "healthy (m + (length buf - sent) - 1) sk1" "n \<le> int (length (drop sent buf))"
      using send_call_healthy [OF _ _ call, of m] send_call_spec [OF call] "1.prems"(1) True by simp_all
    have step: "send_all_loop (sent + nat n) buf sk1 = (r, sk')"
      using "1.prems"(3) call True h(1) by (subst (asm) send_all_loop.simps) simp
    have le: "sent + nat n \<le> length buf" using h(3) h(1) True by simp
    have "healthy (m + (length buf - (sent + nat n))) sk1"
      using h(2) h(1) True unfolding healthy_def by auto
    from "1.IH" [OF True call [symmetric] refl _ this le step] h(1) show ?thesis by simp
  qed
qed

lemma send_all_healthy:
  assumes "healthy (m + length buf) sk" and "send_all buf sk = (r, sk')"
  shows "r = int (length buf) \<and> healthy m sk'"
  using send_all_loop_healthy [of m buf 0 sk r sk'] assms by (simp add: send_all_def)

lemma send_all_live: "send_all buf sk = (r, sk') \<Longrightarrow> live sk' = live sk \<and> stream sk' = stream sk"
  using send_all_spec [of buf sk r sk'] by (simp add: live_def stream_def)

lemma sock_recv_cases:
  assumes "live sk"
  obtains (got) sk' where "n \<le> length (stream sk)" and "sock_recv_n n sk = (Some (take n (stream sk)), sk')"
      and "stream sk' = drop n (stream sk)" and "live sk'" and "sk_out sk' = sk_out sk" and "sk_accept sk' = sk_accept sk"
    | (short) sk' where "length (stream sk) < n" and "sock_recv_n n sk = (None, sk')" and "sk_out sk' = sk_out sk"
  using sock_recv_n_spec [OF assms, of n "fst (sock_recv_n n sk)" "snd (sock_recv_n n sk)"]
  by (metis not_le prod.collapse)

lemma drain_spec:
  assumes "live sk1" and "stream sk1 = drop 4 bs" and "4 \<le> length bs" and "bs ! 0 = 5" "bs ! 1 = 0"
    and "socks5_drain (bs ! 3) sk1 = (d, sk2)"
  shows "sk_out sk2 = sk_out sk1 \<and>
    (case reply_length bs of
       None \<Rightarrow> d = None
     | Some n \<Rightarrow> \<exists>k \<le> n. d = Some (n - k) \<and> n - k \<le> 257 \<and> k \<le> length bs \<and> stream sk2 = drop k bs \<and> live sk2)"
proof (cases "bs ! 3 = 3")
  case False
  then show ?thesis using assms by (auto simp: socks5_drain_def reply_length_def intro!: exI [of _ 4])
next
  case True
  from assms(1) show ?thesis
  proof (cases rule: sock_recv_cases [where n = 1])
    case (got sk')
    have "unat (bs ! 4) \<le> 255" using unsigned_less [where w = "bs ! 4" and ?'a = nat] by simp
    with got True assms show ?thesis
      by (auto simp: socks5_drain_def reply_length_def nth_append intro!: exI [of _ 5])
  next
    case (short sk')
    with True assms show ?thesis by (auto simp: socks5_drain_def reply_length_def)
  qed
qed

lemma read_connect_reply_spec:
  assumes "live sk" and "socks5_read_connect_reply sk = (rc, reply, sk')"
  shows "sk_out sk' = sk_out sk \<and>
     (case reply_length (stream sk) of
        None \<Rightarrow> rc = - 1
      | Some n \<Rightarrow> if n \<le> length (stream sk) then rc = 0 \<and> stream sk' = drop n (stream sk) \<and> live sk' else rc = - 1)"
  using assms(1)
proof (cases rule: sock_recv_cases [where n = 4])
  case (short sk1)
  then show ?thesis using assms(2) by (simp add: socks5_read_connect_reply_def reply_length_def)
next
  case (got sk1)
  show ?thesis
  proof (cases "stream sk ! 0 = 5 \<and> stream sk ! 1 = 0")
    case False
    with got assms(2) show ?thesis by (auto simp: socks5_read_connect_reply_def reply_length_def Let_def)
  next
    case True
    obtain d sk2 where d: "socks5_drain (stream sk ! 3) sk1 = (d, sk2)" by force
    note s = drain_spec [OF got(4,3,1) _ _ d]
    show ?thesis
    proof (cases "reply_length (stream sk)")
      case None
      with s True got d assms(2) show ?thesis by (simp add: socks5_read_connect_reply_def)
    next
      case (Some n)
      with s True obtain k where k: "k \<le> n" "d = Some (n - k)" "k \<le> length (stream sk)"
          "stream sk2 = drop k (stream sk)" "live sk2" "sk_out sk2 = sk_out sk1" by auto
      from k(5) show ?thesis
        by (cases rule: sock_recv_cases [where n = "n - k"])
          (use Some k True got d assms(2) in \<open>auto simp: socks5_read_connect_reply_def\<close>)
    qed
  qed
qed

lemma negotiate_spec:
  assumes "live sk" and "healthy (m + 3) sk" and "socks5_negotiate_no_auth sk = (rc, sk')"
  shows "sk_out sk' = sk_out sk @ [5, 1, 0] \<and>
     (if 2 \<le> length (stream sk) \<and> stream sk ! 0 = 5 \<and> stream sk ! 1 = 0
      then rc = 0 \<and> stream sk' = drop 2 (stream sk) \<and> live sk' \<and> healthy m sk' else rc = - 1)"
proof -
  obtain r sk1 where s: "send_all [5, 1, 0] sk = (r, sk1)" by force
  have h: "r = 3" "healthy m sk1" "sk_out sk1 = sk_out sk @ [5, 1, 0]" "live sk1" "stream sk1 = stream sk"
    using send_all_healthy [OF _ s, of m] send_all_spec [OF s] send_all_live [OF s] assms(1,2)
    by (auto simp: numeral_3_eq_3)
  from h(4) show ?thesis
    by (cases rule: sock_recv_cases [where n = 2])
      (use h s assms(3) in \<open>auto simp: socks5_negotiate_no_auth_def healthy_def\<close>)
qed

section \<open>The contract of a CONNECT variant\<close>

text \<open>Negotiate, send the request, read the reply; what is logged on each failure is left open.\<close>

definition connect_exchange ::
  "(conn_io \<Rightarrow> conn_io) \<Rightarrow> (conn_io \<Rightarrow> conn_io) \<Rightarrow> (int \<Rightarrow> conn_io \<Rightarrow> conn_io) \<Rightarrow> bytes \<Rightarrow> conn_io \<Rightarrow> int \<times> conn_io" where
  "connect_exchange f g h request io =
     (case socks5_negotiate_no_auth io of (rc, io1) \<Rightarrow>
        if rc \<noteq> 0 then (- 1, f io1)
        else case send_all request io1 of (n, io2) \<Rightarrow>
          if n \<noteq> int (length request) then (- 1, g io2)
          else case socks5_read_connect_reply io2 of (rc2, reply, io3) \<Rightarrow>
            if rc2 \<noteq> 0 then (- 1, h reply io3) else (0, io3))"

lemma sock_recv_n_out [simp]: "sk_out (snd (sock_recv_n n sk)) = sk_out sk"
  by (simp add: sock_recv_n_def split: prod.split)

lemma sock_recv_n_keeps: "sock_recv_n n sk = (r, sk') \<Longrightarrow> sk_out sk' = sk_out sk"
  using sock_recv_n_out [of n sk] by simp

lemma read_reply_out: "sk_out (snd (snd (socks5_read_connect_reply sk))) = sk_out sk"
  by (auto simp: socks5_read_connect_reply_def socks5_drain_def Let_def dest!: sock_recv_n_keeps
    split: prod.splits option.splits if_splits)

lemma negotiate_sent:
  assumes "socks5_negotiate_no_auth sk = (0, sk')"
  shows "sk_out sk' = sk_out sk @ [5, 1, 0]"
proof -
  obtain n sk1 where s: "send_all [5, 1, 0] sk = (n, sk1)" by force
  with assms have "n = 3" "sk_out sk' = sk_out sk1"
    by (auto simp: socks5_negotiate_no_auth_def dest!: sock_recv_n_keeps split: prod.splits option.splits if_splits)
  with send_all_spec [OF s] show ?thesis by auto
qed

locale connect_command =
  fixes connect :: "'d \<Rightarrow> u16 \<Rightarrow> u64 \<Rightarrow> conn_io \<Rightarrow> int \<times> conn_io"
    and request :: "'d \<Rightarrow> u16 \<Rightarrow> bytes"
    and admissible :: "'d \<Rightarrow> bool"
  assumes exchange: "admissible d \<Longrightarrow> \<exists>f g h. connect d p now = connect_exchange f g h (request d p)"
begin

lemma connect_exact:
  assumes "admissible d" and "live io" and "healthy (length (request d p) + 3) io"
  shows "case handshake_length (stream io) of
      None \<Rightarrow> fst (connect d p now io) = - 1
    | Some n \<Rightarrow> fst (connect d p now io) = 0 \<and> stream (snd (connect d p now io)) = drop n (stream io) \<and>
        sk_out (snd (connect d p now io)) = sk_out io @ [5, 1, 0] @ request d p"
proof -
  obtain f g h where c: "connect d p now = connect_exchange f g h (request d p)"
    using exchange [OF assms(1)] by blast
  obtain rc io1 where n: "socks5_negotiate_no_auth io = (rc, io1)" by force
  note ns = negotiate_spec [OF assms(2,3) n]
  show ?thesis
  proof (cases "2 \<le> length (stream io) \<and> stream io ! 0 = 5 \<and> stream io ! 1 = 0")
    case False
    with ns n c show ?thesis by (auto simp: handshake_length_def connect_exchange_def)
  next
    case True
    with ns have n1: "rc = 0" "stream io1 = drop 2 (stream io)" "live io1" "healthy (length (request d p)) io1"
      by simp_all
    obtain k io2 where s: "send_all (request d p) io1 = (k, io2)" by force
    have s1: "k = int (length (request d p))" "sk_out io2 = sk_out io1 @ request d p" "live io2" "stream io2 = stream io1"
      using send_all_healthy [OF _ s, of 0] send_all_spec [OF s] send_all_live [OF s] n1 by auto
    obtain rc2 reply io3 where r: "socks5_read_connect_reply io2 = (rc2, reply, io3)" by (metis prod_cases3)
    have "connect d p now io = (if rc2 \<noteq> 0 then (- 1, h reply io3) else (0, io3))"
      by (simp add: c connect_exchange_def n s r n1(1) s1(1))
    with read_connect_reply_spec [OF s1(3) r] s1 n1 ns True show ?thesis
      by (auto simp: handshake_length_def split: option.splits if_splits)
  qed
qed

text \<open>A tunnel is only ever reported when the whole request went out behind the greeting.\<close>

lemma success_sent:
  assumes "admissible d" and "connect d p now io = (0, io')"
  shows "sk_out io' = sk_out io @ [5, 1, 0] @ request d p"
proof -
  obtain f g h where c: "connect d p now = connect_exchange f g h (request d p)"
    using exchange [OF assms(1)] by blast
  obtain io1 where n: "socks5_negotiate_no_auth io = (0, io1)"
    using assms(2) c by (auto simp: connect_exchange_def split: prod.splits if_splits)
  obtain io2 where s: "send_all (request d p) io1 = (int (length (request d p)), io2)"
    using assms(2) c n by (auto simp: connect_exchange_def split: prod.splits if_splits)
  have "sk_out io' = sk_out io2"
    using assms(2) c n s read_reply_out [of io2] by (auto simp: connect_exchange_def split: prod.splits if_splits)
  then show ?thesis using negotiate_sent [OF n] send_all_spec [OF s] by auto
qed

end

lemma request_lengths [simp]:
  "length (request_v4 ip port) = 10" "length ip6 = 16 \<Longrightarrow> length (request_v6 ip6 port) = 22"
  "length (request_domain host port) = 7 + length host"
  by (simp_all add: request_v4_def request_v6_def request_domain_def)

interpretation s5_v4: connect_command socks5_connect request_v4 "\<lambda>_. True"
proof unfold_locales
  fix d p now
  show "\<exists>f g h. socks5_connect d p now = connect_exchange f g h (request_v4 d p)"
    by (rule exI [of _ "log_message ''SOCKS5: No-auth negotiation failed''"],
        rule exI [of _ "log_message ''SOCKS5: Failed to send CONNECT''"],
        rule exI [of _ "\<lambda>reply. socks5_log_connect_failure ''IPv4'' (format_ip_address d 32) p reply now"])
      (simp add: socks5_connect_def connect_exchange_def fun_eq_iff cong: prod.case_cong if_cong)
qed

interpretation s5_domain: connect_command socks5_connect_domain request_domain "\<lambda>h. h \<noteq> '''' \<and> length h \<le> 255"
proof unfold_locales
  fix d :: string and p now
  assume "d \<noteq> '''' \<and> length d \<le> 255"
  then show "\<exists>f g h. socks5_connect_domain d p now = connect_exchange f g h (request_domain d p)"
    by (intro exI [of _ "\<lambda>io. io"] exI [of _ "\<lambda>reply. socks5_log_connect_failure ''domain'' d p reply now"])
      (simp add: socks5_connect_domain_def connect_exchange_def fun_eq_iff min_def cong: prod.case_cong if_cong)
qed

interpretation s5_v6: connect_command "socks5_connect_v6 ntop6" request_v6 "\<lambda>ip6. length ip6 = 16" for ntop6
proof unfold_locales
  fix d :: ip6 and p now
  assume "length d = 16"
  then show "\<exists>f g h. socks5_connect_v6 ntop6 d p now = connect_exchange f g h (request_v6 d p)"
    by (intro exI [of _ "\<lambda>io. io"] exI [of _ "\<lambda>reply. socks5_log_connect_failure ''IPv6''
          (case ntop6 d of None \<Rightarrow> ''?'' | Some t \<Rightarrow> t) p reply now"])
      (simp add: socks5_connect_v6_def connect_exchange_def fun_eq_iff cong: prod.case_cong if_cong)
qed

lemma connect_domain_refused:
  "hostname = '''' \<or> 255 < length hostname \<Longrightarrow> socks5_connect_domain hostname port now io = (- 1, io)"
  by (auto simp: socks5_connect_domain_def min_def Let_def)

section \<open>Properties\<close>

text \<open>The outcome a CONNECT that sends \<open>request\<close> must have for the bytes the proxy delivers.\<close>

definition exact_handshake :: "conn_io \<Rightarrow> bytes \<Rightarrow> int \<times> conn_io \<Rightarrow> bool" where
  "exact_handshake io request outcome \<longleftrightarrow>
     (case handshake_length (stream io) of
        None \<Rightarrow> fst outcome = - 1
      | Some n \<Rightarrow> fst outcome = 0 \<and> stream (snd outcome) = drop n (stream io) \<and>
          sk_out (snd outcome) = sk_out io @ [5, 1, 0] @ request)"

text \<open>C31. All three CONNECT variants report a tunnel exactly when the proxy's byte stream starts with the choice of
  no authentication and a granting reply, however TCP cuts it into segments; then exactly those bytes are consumed,
  the rest is left for the tunnel, and the bytes sent are the greeting and one well-formed request.\<close>

theorem socks5_connect_exact:
  assumes "live io" and "healthy 265 io" and "length ip6 = 16" and "host \<noteq> ''''" and "length host \<le> 255"
  shows "exact_handshake io (request_v4 ip port) (socks5_connect ip port now io) \<and>
     exact_handshake io (request_v6 ip6 port) (socks5_connect_v6 ntop6 ip6 port now io) \<and>
     exact_handshake io (request_domain host port) (socks5_connect_domain host port now io)"
proof -
  have h: "healthy (length r + 3) io" if "length r \<le> 262" for r :: bytes
    using assms(2) that by (simp add: healthy_def)
  show ?thesis
    using s5_v4.connect_exact [OF _ assms(1) h, of ip port now]
      s5_v6.connect_exact [OF assms(3,1) h, of port ntop6 now]
      s5_domain.connect_exact [OF _ assms(1) h, of host port now] assms(3-5)
    by (simp add: exact_handshake_def)
qed

definition granting_io :: conn_io where
  "granting_io = \<lparr>sk_in = [[5], [0, 5, 0, 0], [1, 0, 0, 0, 0, 0], [80, 7, 8]], sk_accept = replicate 265 1, sk_out = [],
     io_callback = False, io_log = [], s5_last = [], s5_last_tick = 0, s5_suppressed = 0\<rparr>"

theorem socks5_connect_exact_witness:
  "fst (socks5_connect 0x0100007F 443 5 granting_io) = 0 \<and> stream (snd (socks5_connect 0x0100007F 443 5 granting_io)) = [7, 8]"
proof -
  have "live granting_io" "healthy 265 granting_io" "handshake_length (stream granting_io) = Some 12"
    "stream granting_io = [5, 0, 5, 0, 0, 1, 0, 0, 0, 0, 0, 80, 7, 8]"
    by (simp_all add: granting_io_def live_def healthy_def stream_def handshake_length_def reply_length_def)
  then show ?thesis
    using socks5_connect_exact [of granting_io "replicate 16 0" "''a''" "0x0100007F" 443 5 "\<lambda>_. None"]
    by (simp add: exact_handshake_def)
qed

text \<open>What the server decodes (RFC 1928, section 4).\<close>

datatype s5_address = S5_IPv4 u32 | S5_IPv6 ip6 | S5_Domain string

definition parse_request :: "bytes \<Rightarrow> (s5_address \<times> u16) option" where
  "parse_request bs =
     (if length bs < 5 \<or> bs ! 0 \<noteq> 5 \<or> bs ! 1 \<noteq> 1 \<or> bs ! 2 \<noteq> 0 then None
      else if bs ! 3 = 1 \<and> length bs = 10
      then Some (S5_IPv4 (bytes_to_u32 (take 4 (drop 4 bs))), be16 (bs ! 8) (bs ! 9))
      else if bs ! 3 = 4 \<and> length bs = 22
      then Some (S5_IPv6 (take 16 (drop 4 bs)), be16 (bs ! 20) (bs ! 21))
      else if bs ! 3 = 3 \<and> length bs = 7 + unat (bs ! 4)
      then let n = unat (bs ! 4) in
        Some (S5_Domain (map (\<lambda>b. char_of (unat b)) (take n (drop 5 bs))), be16 (bs ! (5 + n)) (bs ! (6 + n)))
      else None)"

text \<open>A server that follows RFC 1928 reads exactly the requested destination and port out of each request.\<close>

theorem request_decodes:
  assumes "length ip6 = 16" and "host \<noteq> ''''" and "length host \<le> 255"
  shows "parse_request (request_v4 ip port) = Some (S5_IPv4 ip, port) \<and>
     parse_request (request_v6 ip6 port) = Some (S5_IPv6 ip6, port) \<and>
     parse_request (request_domain host port) = Some (S5_Domain host, port)"
proof -
  have "unat (of_nat (length host) :: u8) = length host"
    using assms(3) by (simp add: unat_of_nat)
  moreover have "map ((\<lambda>b. char_of (unat b)) \<circ> (\<lambda>c. of_nat (of_char c) :: u8)) host = host"
    by (rule map_idI) (simp add: unat_of_nat)
  ultimately show ?thesis
    using assms bytes_to_u32_to_bytes [of ip]
    by (auto simp: parse_request_def request_v4_def request_v6_def request_domain_def be16_hi_lo u32_to_bytes_def
      nth_append Let_def)
qed

theorem request_decodes_witness:
  "parse_request (request_domain ''example.com'' 8443) = Some (S5_Domain ''example.com'', 8443)"
  using request_decodes [of "replicate 16 0" "''example.com''" 0 8443] by simp

lemma udp_associate_reply:
  assumes "live sk" and "healthy 13 sk" and "socks5_udp_associate_with_config addr sk = (rc, relay, sk')"
  shows "rc = (if 12 \<le> length (stream sk) \<and> take 4 (stream sk) = [5, 0, 5, 0] \<and> stream sk ! 5 = 1 then 0 else - 1) \<and>
     relay = (if rc = 0 then (bytes_to_u32 (take 4 (drop 6 (stream sk))), be16 (stream sk ! 10) (stream sk ! 11)) else addr)"
proof -
  obtain rc1 sk1 where n: "socks5_negotiate_no_auth sk = (rc1, sk1)" by force
  have ns: "if 2 \<le> length (stream sk) \<and> stream sk ! 0 = 5 \<and> stream sk ! 1 = 0
      then rc1 = 0 \<and> stream sk1 = drop 2 (stream sk) \<and> live sk1 \<and> healthy 10 sk1 else rc1 = - 1"
    using negotiate_spec [OF assms(1) _ n, of 10] assms(2) by simp
  have hd: "take 4 bs = [5, 0, 5, 0] \<longleftrightarrow> bs ! 0 = 5 \<and> bs ! 1 = 0 \<and> drop 2 bs ! 0 = 5 \<and> drop 2 bs ! 1 = 0"
    if "4 \<le> length bs" for bs :: bytes
    using that by (auto simp: list_eq_iff_nth_eq less_Suc_eq numeral_eq_Suc)
  show ?thesis
  proof (cases "rc1 = 0")
    case False
    with n ns assms(3) hd [of "stream sk"] show ?thesis
      by (auto simp: socks5_udp_associate_with_config_def split: if_splits)
  next
    case True
    with ns have s0: "2 \<le> length (stream sk)" "stream sk ! 0 = 5" "stream sk ! 1 = 0" "stream sk1 = drop 2 (stream sk)"
      "live sk1" "healthy 10 sk1" by (simp_all split: if_splits)
    let ?q = "[5, 3, 0, 1, 0, 0, 0, 0, 0, 0] :: bytes"
    obtain k sk2 where s: "send_all ?q sk1 = (k, sk2)" by force
    have s2: "k = 10" "live sk2" "stream sk2 = stream sk1"
      using send_all_healthy [OF _ s, of 0] send_all_live [OF s] s0(5,6) by (simp_all add: numeral_eq_Suc)
    from s2(2) show ?thesis
    proof (cases rule: sock_recv_cases [where n = 4])
      case (short sk3)
      with n True s s2 s0 assms(3) show ?thesis
        by (auto simp: socks5_udp_associate_with_config_def)
    next
      case (got sk3)
      from got(4) show ?thesis
        by (cases rule: sock_recv_cases [where n = 6])
          (use got n True s s2 s0 assms(3) hd [of "stream sk"] in
            \<open>auto simp: socks5_udp_associate_with_config_def split: if_splits\<close>)
    qed
  qed
qed

text \<open>One attempt to associate, whatever the system and the network answer: the handles held before are closed, a
  control socket that was opened in vain is closed as well, and a configuration holds either both sockets of a
  working association or none. Within a second of the previous attempt nothing happens at all.\<close>

theorem establish_udp_associate_spec:
  "case establish_udp_associate_for_config os att now cfg of (ok, closed, cfg') \<Rightarrow>
     (if pc_host cfg = '''' \<or> pc_port cfg = 0 \<or> pc_type cfg \<noteq> PROXY_TYPE_SOCKS5 \<or> now - pc_last_udp_attempt cfg < 1000
      then \<not> ok \<and> closed = [] \<and> cfg' = cfg
      else pc_last_udp_attempt cfg' = now \<and>
        (if ok
         then \<exists>tcp udp. ua_tcp att = Some tcp \<and> ua_udp att = Some udp \<and> closed = open_handles cfg \<and>
           open_handles cfg' = [tcp, udp] \<and> pc_udp_connected cfg' \<and> fst (pc_udp_relay_addr cfg') \<noteq> 0
         else closed = open_handles cfg @ (case ua_tcp att of None \<Rightarrow> [] | Some tcp \<Rightarrow> [tcp]) \<and> open_handles cfg' = []))"
  by (auto simp: establish_udp_associate_for_config_def open_handles_def Let_def split: prod.splits option.splits if_splits)

definition granted_attempt :: udp_attempt where
  "granted_attempt = \<lparr>ua_tcp = Some 20,
     ua_connect = \<lparr>co_connected = True, co_would_block = False, co_select = 0, co_in_efds = False, co_so_error = 0\<rparr>,
     ua_sock = \<lparr>sk_in = [[5, 0], [5, 0, 0, 1, 0, 0, 0, 0, 31, 144]], sk_accept = [3, 10], sk_out = []\<rparr>, ua_udp = Some 21\<rparr>"

theorem establish_udp_associate_spec_witness:
  "case establish_udp_associate_for_config
      \<lparr>os_malloc = (\<lambda>_. True), os_inet_pton6 = (\<lambda>_. None), os_getaddrinfo = (\<lambda>_. Some 5),
       os_process_image = (\<lambda>_. None), os_dnsapi = True\<rparr>
      granted_attempt 5000 (hd (g_proxy_configs one_config)) of
     (ok, closed, cfg') \<Rightarrow> ok \<and> closed = [9] \<and> open_handles cfg' = [20, 21]"
proof -
  let ?os = "\<lparr>os_malloc = (\<lambda>_. True), os_inet_pton6 = (\<lambda>_. None), os_getaddrinfo = (\<lambda>_. Some 5),
       os_process_image = (\<lambda>_. None), os_dnsapi = True\<rparr>" and ?c = "hd (g_proxy_configs one_config)"
  have "fst (establish_udp_associate_for_config ?os granted_attempt 5000 ?c)"
    "pc_type ?c = PROXY_TYPE_SOCKS5" "\<not> (5000 - pc_last_udp_attempt ?c < 1000)" by code_simp+
  then show ?thesis
    using establish_udp_associate_spec [where os = ?os and att = granted_attempt and now = 5000 and cfg = ?c]
    by (auto simp: one_config_def open_handles_def granted_attempt_def split: prod.splits)
qed

end
