(* ===== verification/PB_Http.thy ===== *)
theory PB_Http
  imports PB_Socks5
begin

text \<open>
  \<open>pb_http.c\<close>: CONNECT through an HTTP proxy, for IPv4 and IPv6 destinations, and the two connectivity
  tests of \<open>pb_proxy.c\<close> that run a whole handshake with either kind of proxy. The request is printed
  into a buffer of \<open>HTTP_BUFFER_SIZE\<close> bytes and sent with the length \<open>snprintf\<close> reports, so the
  model checks that this length stays within the buffer.
\<close>

abbreviation (input) HTTP_BUFFER_SIZE :: nat where "HTTP_BUFFER_SIZE \<equiv> 1024"

section \<open>Requests\<close>

definition crlf :: string where
  "crlf = [CHR 0x0D, CHR 0x0A]"

definition bytes_of :: "string \<Rightarrow> bytes" where
  "bytes_of t = map (\<lambda>c. of_nat (of_char c)) t"

definition http_request :: "string \<Rightarrow> u16 \<Rightarrow> string" where
  "http_request host_part dest_port =
     ''CONNECT '' @ host_part @ '':'' @ decimal (unat dest_port) @ '' HTTP/1.1'' @ crlf @
     ''Host: '' @ host_part @ '':'' @ decimal (unat dest_port) @ crlf @
     ''Proxy-Connection: keep-alive'' @ crlf @ crlf"

text \<open>\<open>snprintf\<close> into a buffer of \<open>bufsz\<close> bytes and \<open>send\<close> of as many bytes as it reports.\<close>

definition send_printed :: "nat \<Rightarrow> string \<Rightarrow> 'a sock_scheme \<Rightarrow> fault + int \<times> 'a sock_scheme" where
  "send_printed bufsz text sk =
     (let len = length text; buf = bytes_of (take (bufsz - 1) text) @ [0] in
      if bufsz < len then Inl OutOfBoundsRead else Inr (send_call (take len buf) sk))"

text \<open>The status code: the number behind the first blank, 0 without one.\<close>

definition status_code :: "string \<Rightarrow> int" where
  "status_code response =
     (case strchr response (CHR '' '') of None \<Rightarrow> 0 | Some i \<Rightarrow> atoi (drop (Suc i) response))"

definition connect_host_v6 :: "(ip6 \<Rightarrow> string) \<Rightarrow> PROXY_CONFIG \<Rightarrow> ip6 \<Rightarrow> u64 \<Rightarrow> pb \<Rightarrow> string" where
  "connect_host_v6 ntop6 cfg dest_ip6 now s =
     (case (if pc_send_domain_to_proxy cfg then dns_cache_lookup_v6 s dest_ip6 256 now else None) of
        Some cached_domain \<Rightarrow> cached_domain
      | None \<Rightarrow> strncpy_trunc 270 (''['' @ strncpy_trunc 64 (ntop6 dest_ip6) @ '']''))"

definition http_connect_v6 ::
  "(ip6 \<Rightarrow> string) \<Rightarrow> ip6 \<Rightarrow> u16 \<Rightarrow> PROXY_CONFIG \<Rightarrow> u64 \<Rightarrow> pb \<Rightarrow> 'a sock_scheme \<Rightarrow> fault + int \<times> 'a sock_scheme" where
  "http_connect_v6 ntop6 dest_ip6 dest_port cfg now s sk =
     (let request = http_request (connect_host_v6 ntop6 cfg dest_ip6 now s) dest_port in
      case send_printed HTTP_BUFFER_SIZE request sk of
        Inl e \<Rightarrow> Inl e
      | Inr (n, sk1) \<Rightarrow>
          if n \<noteq> int (length request) then Inr (- 1, sk1)
          else case sock_recv 4095 sk1 of (resp, sk2) \<Rightarrow>
            if resp = [] \<or> 4096 \<le> length resp then Inr (- 1, sk2)
            else let response = cstr_of_bytes resp in
              if strchr response (CHR '' '') = None \<or> status_code response \<noteq> 200 then Inr (- 1, sk2)
              else Inr (0, sk2))"

definition connect_host :: "PROXY_CONFIG \<Rightarrow> u32 \<Rightarrow> u64 \<Rightarrow> pb \<Rightarrow> string" where
  "connect_host cfg dest_ip now s =
     (case (if pc_send_domain_to_proxy cfg then dns_cache_lookup s dest_ip 256 now else None) of
        Some cached_domain \<Rightarrow> cached_domain
      | None \<Rightarrow> format_ip_address dest_ip 32)"

definition http_connect ::
  "u32 \<Rightarrow> u16 \<Rightarrow> PROXY_CONFIG \<Rightarrow> u64 \<Rightarrow> pb \<Rightarrow> conn_io \<Rightarrow> fault + int \<times> conn_io" where
  "http_connect dest_ip dest_port cfg now s io =
     (let request = http_request (connect_host cfg dest_ip now s) dest_port in
      case send_printed HTTP_BUFFER_SIZE request io of
        Inl e \<Rightarrow> Inl e
      | Inr (n, io1) \<Rightarrow>
          if n \<noteq> int (length request) then Inr (- 1, log_message ''HTTP: Failed to send CONNECT request'' io1)
          else case sock_recv 4095 io1 of (resp, io2) \<Rightarrow>
            if resp = [] \<or> 4096 \<le> length resp then Inr (- 1, log_message ''HTTP: Failed to receive response'' io2)
            else let status_line = cstr_of_bytes resp in
              if take 7 status_line \<noteq> ''HTTP/1.'' then Inr (- 1, log_message ''HTTP: Invalid response format'' io2)
              else if status_code status_line \<noteq> 200
              then Inr (- 1, log_message (''HTTP: CONNECT failed with status '' @
                     (if status_code status_line < 0 then ''-'' else '''') @ decimal (nat \<bar>status_code status_line\<bar>)) io2)
              else Inr (0, io2))"

section \<open>Connectivity tests\<close>

text \<open>What the system and the proxy answer during a test: the handle of the socket, whether connecting it
  succeeds, and the conversation over it.\<close>

record test_conn =
  tc_socket :: SOCKET
  tc_connect :: bool
  tc_io :: conn_io

definition proxy_handshake ::
  "u32 \<Rightarrow> u16 \<Rightarrow> PROXY_CONFIG \<Rightarrow> u64 \<Rightarrow> pb \<Rightarrow> conn_io \<Rightarrow> fault + int \<times> conn_io" where
  "proxy_handshake dest_ip target_port cfg now s io =
     (if pc_type cfg = PROXY_TYPE_SOCKS5 then Inr (socks5_connect dest_ip target_port now io)
      else http_connect dest_ip target_port cfg now s io)"

text \<open>The result code, the message for the result buffer and the handles closed.\<close>

definition TestProxyConfig ::
  "os \<Rightarrow> test_conn \<Rightarrow> u32 \<Rightarrow> string option \<Rightarrow> u16 \<Rightarrow> u64 \<Rightarrow> pb \<Rightarrow> fault + int \<times> string \<times> nat list" where
  "TestProxyConfig os tc cid target_host target_port now s =
     (case find_proxy_config s cid of
        None \<Rightarrow> Inr (- 1, ''No proxy config found'', [])
      | Some cfg \<Rightarrow>
          let dest_ip = resolve_hostname (os_getaddrinfo os) target_host in
          if dest_ip = 0 then Inr (- 1, ''Failed to resolve target host'', [])
          else case tc_socket tc of
            None \<Rightarrow> Inr (- 1, ''Failed to create socket'', [])
          | Some sock \<Rightarrow>
              let proxy_ip = resolve_hostname (os_getaddrinfo os) (Some (pc_host cfg)) in
              if proxy_ip = 0 then Inr (- 1, ''Failed to resolve proxy host'', [sock])
              else if \<not> tc_connect tc then Inr (- 1, ''Failed to connect to proxy'', [sock])
              else case proxy_handshake dest_ip target_port cfg now s (tc_io tc) of
                     Inl e \<Rightarrow> Inl e
                   | Inr (result, _) \<Rightarrow>
                       if result = 0 then Inr (0, ''Connection successful'', [sock])
                       else Inr (result, ''Connection failed (code '' @ (if result < 0 then ''-'' else '''') @
                                  decimal (nat \<bar>result\<bar>) @ '')'', [sock]))"

text \<open>The extended test reads its first answer again after the handshake to load a page; the page only
  changes what is logged. Its two connections are \<open>tc\<close> and, for the UDP test, \<open>us\<close>. The model keeps the
  result and the closed handles.\<close>

definition TestProxyConfigEx ::
  "os \<Rightarrow> test_conn \<Rightarrow> test_conn \<Rightarrow> u32 \<Rightarrow> string option \<Rightarrow> u16 \<Rightarrow> u64 \<Rightarrow> pb \<Rightarrow> fault + int \<times> nat list" where
  "TestProxyConfigEx os tc us cid target_host target_port now s =
     (case find_proxy_config s cid of
        None \<Rightarrow> Inr (- 1, [])
      | Some cfg \<Rightarrow>
          let host = (if absent target_host then ''www.google.com'' else the target_host);
              port = (if target_port = 0 then 80 else target_port);
              is_socks = (pc_type cfg = PROXY_TYPE_SOCKS5)
          in if resolve_hostname (os_getaddrinfo os) (Some (pc_host cfg)) = 0 then Inr (- 1, [])
             else case tc_socket tc of
               None \<Rightarrow> Inr (- 1, [])
             | Some sck \<Rightarrow>
                 if \<not> tc_connect tc then Inr (- 1, [sck])
                 else
                   let dest_ip = resolve_hostname (os_getaddrinfo os) (Some host);
                       test2 = (if dest_ip = 0 then Inr (- 1, [sck])
                                else case proxy_handshake dest_ip port cfg now s (tc_io tc) of
                                       Inl e \<Rightarrow> Inl e
                                     | Inr (rc, _) \<Rightarrow> Inr (if rc \<noteq> 0 then - 1 else 0, []));
                       test4 = (if is_socks then (case tc_socket us of None \<Rightarrow> [] | Some u \<Rightarrow> [u]) else [])
                   in case test2 of
                        Inl e \<Rightarrow> Inl e
                      | Inr (overall, closed) \<Rightarrow> Inr (overall, closed @ [sck] @ test4))"

section \<open>The request always fits its buffer\<close>

lemma length_decimal_port: "length (decimal (unat (p :: u16))) \<le> 5"
proof -
  have "length (decimal n) \<le> Suc k" if "n < 10 ^ Suc k" for n k :: nat
    using that
  proof (induction k arbitrary: n)
    case 0
    then show ?case by (subst decimal.simps) simp
  next
    case (Suc k)
    show ?case
    proof (cases "n < 10")
      case True
      then show ?thesis by (subst decimal.simps) simp
    next
      case False
      have "length (decimal (n div 10)) \<le> Suc k" by (rule Suc.IH) (use Suc.prems in simp)
      then show ?thesis using False by (subst decimal.simps) simp
    qed
  qed
  from this [of "unat p" 4] show ?thesis using unsigned_less [where w = p and ?'a = nat] by simp
qed

lemma length_strncpy_trunc [simp]: "length (strncpy_trunc n t) \<le> n - 1"
  by (simp add: strncpy_trunc_def)

lemma connect_host_length: "length (connect_host cfg ip now s) \<le> 255"
  by (auto simp: connect_host_def dns_cache_lookup_def format_ip_address_def strncpy_trunc_def split: option.splits)

lemma connect_host_v6_length: "length (connect_host_v6 ntop6 cfg ip6 now s) \<le> 255"
  by (auto simp: connect_host_v6_def dns_cache_lookup_v6_def strncpy_trunc_def split: option.splits)

lemma http_request_length:
  "length host \<le> 255 \<Longrightarrow> length (http_request host port) \<le> 1000"
  using length_decimal_port [of port] by (simp add: http_request_def crlf_def)

lemma send_printed_fits:
  "length t < n \<Longrightarrow> send_printed n t sk = Inr (send_call (bytes_of t) sk)"
  by (simp add: send_printed_def bytes_of_def Let_def)

lemma printed_exchange:
  assumes "sk_in io = seg # rest" and "length seg \<le> 4095" and "sk_accept io = k # ks" and "1000 \<le> k"
    and "length t \<le> 1000"
  shows "send_printed 1024 t io =
      Inr (int (length t), io\<lparr>sk_accept := ks, sk_out := sk_out io @ bytes_of t\<rparr>)"
    and "sock_recv 4095 (io\<lparr>sk_accept := ks, sk_out := out\<rparr>) =
      (seg, io\<lparr>sk_in := rest, sk_accept := ks, sk_out := out\<rparr>)"
  using assms by (simp_all add: send_printed_fits send_call_def sock_recv_def bytes_of_def min_def)

lemma log_message_sock [simp]:
  "sk_out (log_message m io) = sk_out io" "sk_in (log_message m io) = sk_in io"
  by (simp_all add: log_message_def)

text \<open>What a proxy's answer has to look like in the first segment it sends.\<close>

definition grants :: "bool \<Rightarrow> bytes \<Rightarrow> bool" where
  "grants v6 seg \<longleftrightarrow>
     (let r = cstr_of_bytes seg in
      (v6 \<or> take 7 r = ''HTTP/1.'') \<and> status_code r = 200)"

text \<open>C32. A request never leaves its buffer, whatever name the DNS cache holds, and the verdict is read off the first
  segment the proxy sends: the tunnel starts at the second segment. A response head that ends inside its first
  segment, or only in a later one, loses bytes of the tunnel or leaks the rest of the head into it.\<close>

theorem http_connect_first_segment:
  assumes "sk_in io = seg # rest" and "seg \<noteq> []" and "length seg \<le> 4095" and "sk_accept io = k # ks" and "1000 \<le> k"
  shows "(\<exists>rc io'. http_connect ip port cfg now s io = Inr (rc, io') \<and>
       sk_out io' = sk_out io @ bytes_of (http_request (connect_host cfg ip now s) port) \<and> sk_in io' = rest \<and>
       rc = (if grants False seg then 0 else - 1)) \<and>
     (\<exists>rc io'. http_connect_v6 ntop6 ip6 port cfg now s io = Inr (rc, io') \<and>
       sk_out io' = sk_out io @ bytes_of (http_request (connect_host_v6 ntop6 cfg ip6 now s) port) \<and> sk_in io' = rest \<and>
       rc = (if grants True seg then 0 else - 1))"
proof -
  note l4 = http_request_length [OF connect_host_length [of cfg ip now s], of port]
  note l6 = http_request_length [OF connect_host_v6_length [of ntop6 cfg ip6 now s], of port]
  note e4 = printed_exchange [OF assms(1,3,4,5) l4] and e6 = printed_exchange [OF assms(1,3,4,5) l6]
  show ?thesis
    using assms(2,3)
    by (auto simp: http_connect_def http_connect_v6_def Let_def e4 e6 grants_def status_code_def split: option.splits)
qed

text \<open>A head split in two: the tunnel is reported, and the rest of the head is left in it.\<close>

definition split_head_io :: conn_io where
  "split_head_io = \<lparr>sk_in = [bytes_of ''HTTP/1.1 200 OK'', bytes_of (crlf @ crlf), [7]], sk_accept = [1000], sk_out = [],
     io_callback = False, io_log = [], s5_last = [], s5_last_tick = 0, s5_suppressed = 0\<rparr>"

theorem http_connect_first_segment_witness:
  "\<exists>io'. http_connect 0x0100007F 443 (hd (g_proxy_configs one_config)) 5 one_config split_head_io = Inr (0, io') \<and> stream io' = [13, 10, 13, 10, 7]"
proof -
  have "grants False (bytes_of ''HTTP/1.1 200 OK'')" by code_simp
  then show ?thesis
    using http_connect_first_segment [of split_head_io "bytes_of ''HTTP/1.1 200 OK''" "[bytes_of (crlf @ crlf), [7]]" 1000 "[]"
      "0x0100007F" 443 "hd (g_proxy_configs one_config)" 5 one_config "\<lambda>_. []" "[]"]
    by (auto simp: split_head_io_def stream_def bytes_of_def crlf_def)
qed

section \<open>Handles of the connectivity tests\<close>


definition unresolved_test :: test_conn where
  "unresolved_test = \<lparr>tc_socket = Some 3, tc_connect = True, tc_io = split_head_io\<rparr>"

definition only_proxy_resolves :: os where
  "only_proxy_resolves = \<lparr>os_malloc = (\<lambda>_. True), os_inet_pton6 = (\<lambda>_. None),
     os_getaddrinfo = (\<lambda>t. if t = ''h'' then Some 5 else None), os_process_image = (\<lambda>_. None), os_dnsapi = True\<rparr>"


end
