(* ===== verification/PB_Listener.thy ===== *)
theory PB_Listener
  imports PB_Blocking PB_Workers PB_Http PB_Translate
begin

text \<open>
  The TCP side of \<open>pb_relay.c\<close>: the listener that accepts redirected connections, and the worker that opens the tunnel
  through the proxy of a connection and hands it over to a relay. The answers of the system are arguments, as in the
  theories of the relays.
  The lemmas show that only the owner of a tracked flow reaches a worker, that a tunnel leads to the destination of its
  flow, that no socket is lost on any path, and that a redirected connection arrives with the destination its rule saw.
\<close>

section \<open>Who may connect\<close>

definition relay_peer_ok_v4 :: "u32 \<Rightarrow> u32 \<Rightarrow> bool" where
  "relay_peer_ok_v4 peer original_destination \<longleftrightarrow> drop_bit 24 (ntohl peer) = 127 \<or> peer = original_destination"

definition relay_peer_ok_v6 :: "ip6 \<Rightarrow> ip6 \<Rightarrow> bool" where
  "relay_peer_ok_v6 peer original_destination \<longleftrightarrow>
     take 16 peer = loopback6 \<or> (take 12 peer = mapped_prefix \<and> peer ! 12 = 127) \<or> take 16 peer = take 16 original_destination"

section \<open>The listener\<close>

record CONNECTION_CONFIG =
  cc_client_socket :: nat
  cc_orig_dest_ip :: u32
  cc_orig_dest_port :: u16
  cc_proxy_config_id :: u32
  cc_is_ipv6 :: bool
  cc_orig_dest_ip6 :: ip6

datatype listen_act = Dispatch CONNECTION_CONFIG | Close_Client nat | Close_Listener nat

text \<open>What \<open>accept\<close> and the calls behind it report: the socket, the peer, the allocation, the creation of the thread, the
  number the worker is counted under and the time.\<close>

record 'a accepted =
  ac_socket :: SOCKET
  ac_peer :: 'a
  ac_port :: u16
  ac_malloc :: bool
  ac_thread :: bool
  ac_worker :: nat
  ac_now :: u64

definition dispatch :: "'a accepted \<Rightarrow> CONNECTION_CONFIG \<Rightarrow> gate \<Rightarrow> listen_act list \<times> gate" where
  "dispatch ac cfg g =
     (case begin_connection_worker (ac_worker ac) g of (admitted, g1) \<Rightarrow>
        if \<not> admitted then ([Close_Client (cc_client_socket cfg)], g1)
        else if ac_thread ac then ([Dispatch cfg], g1)
        else ([Close_Client (cc_client_socket cfg)], end_connection_worker (ac_worker ac) g1))"

definition accept_v4 :: "u32 accepted \<Rightarrow> gate \<Rightarrow> pb \<Rightarrow> listen_act list \<times> gate \<times> pb" where
  "accept_v4 ac g s =
     (case ac_socket ac of
        None \<Rightarrow> ([], g, s)
      | Some client_sock \<Rightarrow>
          if \<not> ac_malloc ac then ([Close_Client client_sock], g, s)
          else case get_connection_full (ac_port ac) False (ac_now ac) s of
            (None, s1) \<Rightarrow> ([Close_Client client_sock], g, s1)
          | (Some (dest_ip, dest_port, config), s1) \<Rightarrow>
              if \<not> relay_peer_ok_v4 (ac_peer ac) dest_ip then ([Close_Client client_sock], g, s1)
              else case dispatch ac \<lparr>cc_client_socket = client_sock, cc_orig_dest_ip = dest_ip, cc_orig_dest_port = dest_port,
                     cc_proxy_config_id = config, cc_is_ipv6 = False, cc_orig_dest_ip6 = []\<rparr> g of (acts, g1) \<Rightarrow> (acts, g1, s1))"

definition accept_v6 :: "ip6 accepted \<Rightarrow> gate \<Rightarrow> pb \<Rightarrow> listen_act list \<times> gate \<times> pb" where
  "accept_v6 ac g s =
     (case ac_socket ac of
        None \<Rightarrow> ([], g, s)
      | Some client_sock \<Rightarrow>
          if \<not> ac_malloc ac then ([Close_Client client_sock], g, s)
          else case get_connection_full_v6 (ac_port ac) False (ac_now ac) s of
            (None, s1) \<Rightarrow> ([Close_Client client_sock], g, s1)
          | (Some (dest_ip6, dest_port, config), s1) \<Rightarrow>
              if \<not> relay_peer_ok_v6 (ac_peer ac) dest_ip6 then ([Close_Client client_sock], g, s1)
              else case dispatch ac \<lparr>cc_client_socket = client_sock, cc_orig_dest_ip = 0, cc_orig_dest_port = dest_port,
                     cc_proxy_config_id = config, cc_is_ipv6 = True, cc_orig_dest_ip6 = dest_ip6\<rparr> g of (acts, g1) \<Rightarrow> (acts, g1, s1))"

text \<open>One iteration: whether \<open>select\<close> found anything, and what is to be accepted on the two listeners.\<close>

record listen_round =
  lr_select :: bool
  lr_v4 :: "u32 accepted option"
  lr_v6 :: "ip6 accepted option"

definition listen_iteration :: "bool \<Rightarrow> listen_round \<Rightarrow> gate \<Rightarrow> pb \<Rightarrow> listen_act list \<times> gate \<times> pb" where
  "listen_iteration sock6 r g s =
     (if \<not> lr_select r then ([], g, s)
      else case (case lr_v4 r of None \<Rightarrow> ([], g, s) | Some ac \<Rightarrow> accept_v4 ac g s) of (acts4, g1, s1) \<Rightarrow>
        case (if sock6 then (case lr_v6 r of None \<Rightarrow> ([], g1, s1) | Some ac \<Rightarrow> accept_v6 ac g1 s1) else ([], g1, s1)) of
          (acts6, g2, s2) \<Rightarrow> (acts4 @ acts6, g2, s2))"

text \<open>Each element is what other threads do before the iteration and what the calls of it report.\<close>

fun listen_loop :: "bool \<Rightarrow> ((gate \<times> pb \<Rightarrow> gate \<times> pb) \<times> listen_round) list \<Rightarrow> gate \<Rightarrow> pb \<Rightarrow> (listen_act list \<times> gate \<times> pb) option" where
  "listen_loop sock6 [] g s = None"
| "listen_loop sock6 ((others, r) # rest) g s =
     (case others (g, s) of (g0, s0) \<Rightarrow>
        if \<not> running s0 then Some ([], g0, s0)
        else case listen_iteration sock6 r g0 s0 of (acts, g1, s1) \<Rightarrow>
          map_option (\<lambda>(more, rest). (acts @ more, rest)) (listen_loop sock6 rest g1 s1))"

text \<open>What the system answers while the listener opens its sockets; \<open>lb_listen6\<close> is \<open>bind\<close> and \<open>listen\<close> together.\<close>

record listen_boot =
  lb_wsa :: bool
  lb_socket :: SOCKET
  lb_bind :: bool
  lb_listen :: bool
  lb_socket6 :: SOCKET
  lb_listen6 :: bool

text \<open>\<open>publish_start_result\<close>: the value of the status variable.\<close>

definition publish_start_result :: "bool \<Rightarrow> int" where
  "publish_start_result ready = (if ready then 1 else - 1)"

text \<open>The exit code, the published status, the actions and the state.\<close>

definition local_proxy_server ::
  "listen_boot \<Rightarrow> ((gate \<times> pb \<Rightarrow> gate \<times> pb) \<times> listen_round) list \<Rightarrow> gate \<Rightarrow> pb \<Rightarrow> (int \<times> int \<times> listen_act list \<times> gate \<times> pb) option" where
  "local_proxy_server lb rounds g s =
     (if \<not> lb_wsa lb then Some (1, publish_start_result False, [], g, s)
      else case lb_socket lb of
        None \<Rightarrow> Some (1, publish_start_result False, [], g, s)
      | Some h4 \<Rightarrow>
          if \<not> lb_bind lb then Some (1, publish_start_result False, [Close_Listener h4], g, s)
          else if \<not> lb_listen lb then Some (1, publish_start_result False, [Close_Listener h4], g, s)
          else
            let sock6 = (lb_socket6 lb \<noteq> None \<and> lb_listen6 lb);
                acts0 = (if lb_socket6 lb \<noteq> None \<and> \<not> lb_listen6 lb then [Close_Listener (the (lb_socket6 lb))] else [])
            in map_option (\<lambda>(acts, g1, s1). (0, publish_start_result True,
                 acts0 @ acts @ [Close_Listener h4] @ (if sock6 then [Close_Listener (the (lb_socket6 lb))] else []), g1, s1))
               (listen_loop sock6 rounds g s))"

section \<open>The worker\<close>

text \<open>What the system answers a worker: the new socket, whether connecting it to an address succeeds, the conversation over
  it, the text of an IPv6 address, the allocation for the relay, and the answers to the relay.\<close>

record handler_env =
  he_os :: os
  he_ntop6 :: "ip6 \<Rightarrow> string option"
  he_socket :: SOCKET
  he_connect :: "u32 \<times> u16 \<Rightarrow> bool"
  he_io :: conn_io
  he_now :: u64
  he_malloc :: bool
  he_transfer :: transfer_env

text \<open>\<open>reset_close\<close> aborts the connection of the application, a plain close ends it.\<close>

datatype client_fate = Closed | Reset | Relayed

definition open_socket :: "nat \<Rightarrow> relays \<Rightarrow> relays" where
  "open_socket h r = r\<lparr>pool := (pool r)\<lparr>sys_open := insert h (sys_open (pool r)), sys_recvd := (sys_recvd (pool r))(h := []),
     sys_sent := (sys_sent (pool r))(h := []), sys_fin := sys_fin (pool r) - {h}\<rparr>\<rparr>"

text \<open>The handshake with the proxy, for its type, the family of the destination and the choice of who resolves names.\<close>

definition open_tunnel :: "handler_env \<Rightarrow> CONNECTION_CONFIG \<Rightarrow> PROXY_CONFIG \<Rightarrow> pb \<Rightarrow> fault + int \<times> conn_io" where
  "open_tunnel he config proxy s =
     (let port = cc_orig_dest_port config; ip = cc_orig_dest_ip config; ip6 = cc_orig_dest_ip6 config in
      case pc_type proxy of
        PROXY_TYPE_SOCKS5 \<Rightarrow>
          Inr (if cc_is_ipv6 config
               then (case (if pc_send_domain_to_proxy proxy then dns_cache_lookup_v6 s ip6 256 (he_now he) else None) of
                       Some cached_domain \<Rightarrow> socks5_connect_domain cached_domain port (he_now he) (he_io he)
                     | None \<Rightarrow> socks5_connect_v6 (he_ntop6 he) ip6 port (he_now he) (he_io he))
               else (case (if pc_send_domain_to_proxy proxy then dns_cache_lookup s ip 256 (he_now he) else None) of
                       Some cached_domain \<Rightarrow> socks5_connect_domain cached_domain port (he_now he) (he_io he)
                     | None \<Rightarrow> socks5_connect ip port (he_now he) (he_io he)))
      | PROXY_TYPE_HTTP \<Rightarrow>
          if cc_is_ipv6 config
          then http_connect_v6 (\<lambda>i. case he_ntop6 he i of None \<Rightarrow> '''' | Some t \<Rightarrow> t) ip6 port proxy (he_now he) s (he_io he)
          else http_connect ip port proxy (he_now he) s (he_io he))"

definition end_client :: "int \<Rightarrow> client_fate \<Rightarrow> conn_io \<Rightarrow> nat list \<Rightarrow> relays \<Rightarrow> fault + int \<times> client_fate \<times> conn_io \<times> relays" where
  "end_client code fate io handles r =
     foldr (\<lambda>h k r. and_then (close_socket h r) k) handles (\<lambda>r1. Inr (code, fate, io, r1)) r"

definition proxy_address :: "os \<Rightarrow> PROXY_CONFIG \<Rightarrow> u32" where
  "proxy_address os proxy =
     (if pc_resolved_ip proxy \<noteq> 0 then pc_resolved_ip proxy else resolve_hostname (os_getaddrinfo os) (Some (pc_host proxy)))"

definition connection_handler_impl ::
  "handler_env \<Rightarrow> CONNECTION_CONFIG \<Rightarrow> pb \<Rightarrow> relays \<Rightarrow> fault + int \<times> client_fate \<times> conn_io \<times> relays" where
  "connection_handler_impl he config s r =
     (let client_sock = cc_client_socket config; io = he_io he in
      case find_proxy_config s (cc_proxy_config_id config) of
        None \<Rightarrow> end_client 1 Closed io [client_sock] r
      | Some proxy \<Rightarrow>
          if pc_host proxy = '''' \<or> pc_port proxy = 0 then end_client 1 Closed io [client_sock] r
          else
            let proxy_ip = proxy_address (he_os he) proxy in
            if proxy_ip = 0 then end_client 1 Closed io [client_sock] r
            else case he_socket he of
              None \<Rightarrow> end_client 0 Closed io [client_sock] r
            | Some socks_sock \<Rightarrow>
                let r1 = open_socket socks_sock r in
                if \<not> he_connect he (proxy_ip, pc_port proxy) then end_client 0 Reset io [client_sock, socks_sock] r1
                else and_then (open_tunnel he config proxy s) (\<lambda>(rc, io1).
                  if rc \<noteq> 0 then end_client 0 Reset io1 [client_sock, socks_sock] r1
                  else if \<not> he_malloc he then end_client 0 Closed io1 [client_sock, socks_sock] r1
                  else and_then (transfer_handler (he_transfer he) client_sock socks_sock r1) (\<lambda>(_, r2). Inr (0, Relayed, io1, r2))))"

text \<open>The worker counts itself out when the implementation returns.\<close>

definition connection_handler ::
  "nat \<Rightarrow> handler_env \<Rightarrow> CONNECTION_CONFIG \<Rightarrow> pb \<Rightarrow> relays \<Rightarrow> gate \<Rightarrow> fault + int \<times> client_fate \<times> conn_io \<times> relays \<times> gate" where
  "connection_handler worker he config s r g =
     and_then (connection_handler_impl he config s r) (\<lambda>(code, fate, io, r1). Inr (code, fate, io, r1, end_connection_worker worker g))"

section \<open>Accepting\<close>

lemma begin_active:
  assumes "begin_connection_worker t g = (ok, g')"
  shows "ok = gate_running g" and "active_connection_workers g' = active_connection_workers g + (if ok then 1 else 0)"
  using assms
  by (auto simp: begin_connection_worker_def end_connection_worker_def gate_ops Let_def split: if_splits)

lemma end_active: "active_connection_workers (end_connection_worker t g) = active_connection_workers g - 1"
  by (simp add: end_connection_worker_def gate_ops Let_def)

lemma dispatch_outcome:
  "fst (dispatch ac cfg g) = (if gate_running g \<and> ac_thread ac then [Dispatch cfg] else [Close_Client (cc_client_socket cfg)])"
  "active_connection_workers (snd (dispatch ac cfg g)) =
     active_connection_workers g + (if gate_running g \<and> ac_thread ac then 1 else 0)"
  using begin_active [of "ac_worker ac" g "fst (begin_connection_worker (ac_worker ac) g)" "snd (begin_connection_worker (ac_worker ac) g)"]
  by (auto simp: dispatch_def end_active split: prod.split)

lemma get_full_of:
  assumes "conn_inv s"
  shows "fst (get_connection_full port udp now s) =
      map_option (\<lambda>c. (c_orig_dest_ip c, c_orig_dest_port c, c_proxy_config_id c)) (connection_of s (port, udp, False))"
    and "fst (get_connection_full_v6 port udp now s) =
      map_option (\<lambda>c. (c_orig_dest_ip6 c, c_orig_dest_port c, c_proxy_config_id c)) (connection_of s (port, udp, True))"
proof -
  show "fst (get_connection_full port udp now s) =
      map_option (\<lambda>c. (c_orig_dest_ip c, c_orig_dest_port c, c_proxy_config_id c)) (connection_of s (port, udp, False))"
    by (cases "find_conn s port udp False") (auto simp: get_connection_full_def connection_of_def elim: find_conn_Some [OF assms])
  show "fst (get_connection_full_v6 port udp now s) =
      map_option (\<lambda>c. (c_orig_dest_ip6 c, c_orig_dest_port c, c_proxy_config_id c)) (connection_of s (port, udp, True))"
    by (cases "find_conn s port udp True") (auto simp: get_connection_full_v6_def connection_of_def elim: find_conn_Some [OF assms])
qed

text \<open>What has to happen to a connection accepted on behalf of a flow: its worker starts with the flow's destination and
  proxy, or its socket is closed; the workers are counted accordingly.\<close>

definition accepted_as :: "nat \<Rightarrow> CONNECTION_CONFIG option \<Rightarrow> gate \<Rightarrow> listen_act list \<times> gate \<times> pb \<Rightarrow> bool" where
  "accepted_as h target g result \<longleftrightarrow>
     fst result = (case target of None \<Rightarrow> [Close_Client h] | Some cfg \<Rightarrow> [Dispatch cfg]) \<and>
     active_connection_workers (fst (snd result)) = active_connection_workers g + (if target = None then 0 else 1)"

lemma accept_owner:
  assumes "conn_inv s" and "ac_socket ac = Some h" and "ac_socket ac6 = Some h6"
  shows "accepted_as h
      (case connection_of s (ac_port ac, False, False) of
         None \<Rightarrow> None
       | Some c \<Rightarrow>
           if relay_peer_ok_v4 (ac_peer ac) (c_orig_dest_ip c) \<and> ac_malloc ac \<and> ac_thread ac \<and> gate_running g
           then Some \<lparr>cc_client_socket = h, cc_orig_dest_ip = c_orig_dest_ip c, cc_orig_dest_port = c_orig_dest_port c,
                  cc_proxy_config_id = c_proxy_config_id c, cc_is_ipv6 = False, cc_orig_dest_ip6 = []\<rparr>
           else None) g (accept_v4 ac g s) \<and>
    accepted_as h6
      (case connection_of s (ac_port ac6, False, True) of
         None \<Rightarrow> None
       | Some c \<Rightarrow>
           if relay_peer_ok_v6 (ac_peer ac6) (c_orig_dest_ip6 c) \<and> ac_malloc ac6 \<and> ac_thread ac6 \<and> gate_running g
           then Some \<lparr>cc_client_socket = h6, cc_orig_dest_ip = 0, cc_orig_dest_port = c_orig_dest_port c,
                  cc_proxy_config_id = c_proxy_config_id c, cc_is_ipv6 = True, cc_orig_dest_ip6 = c_orig_dest_ip6 c\<rparr>
           else None) g (accept_v6 ac6 g s)"
  using assms get_full_of [OF assms(1)]
  by (cases "connection_of s (ac_port ac, False, False)"; cases "connection_of s (ac_port ac6, False, True)")
    (simp_all add: accepted_as_def accept_v4_def accept_v6_def dispatch_outcome case_prod_beta split_beta)

text \<open>C6. Only the owner of a flow reaches the proxy: a worker starts exactly for a connection whose source port has a tracked
  TCP flow and whose peer is the flow's original destination or the local machine, with that flow's destination and proxy.
  Every other connection is closed.\<close>

theorem accept_dispatches_owner:
  assumes "conn_inv s" and "ac_socket ac = Some h" and "ac_socket ac6 = Some h6"
  shows "accepted_as h
      (case connection_of s (ac_port ac, False, False) of
         None \<Rightarrow> None
       | Some c \<Rightarrow>
           if relay_peer_ok_v4 (ac_peer ac) (c_orig_dest_ip c) \<and> ac_malloc ac \<and> ac_thread ac \<and> gate_running g
           then Some \<lparr>cc_client_socket = h, cc_orig_dest_ip = c_orig_dest_ip c, cc_orig_dest_port = c_orig_dest_port c,
                  cc_proxy_config_id = c_proxy_config_id c, cc_is_ipv6 = False, cc_orig_dest_ip6 = []\<rparr>
           else None) g (accept_v4 ac g s) \<and>
    accepted_as h6
      (case connection_of s (ac_port ac6, False, True) of
         None \<Rightarrow> None
       | Some c \<Rightarrow>
           if relay_peer_ok_v6 (ac_peer ac6) (c_orig_dest_ip6 c) \<and> ac_malloc ac6 \<and> ac_thread ac6 \<and> gate_running g
           then Some \<lparr>cc_client_socket = h6, cc_orig_dest_ip = 0, cc_orig_dest_port = c_orig_dest_port c,
                  cc_proxy_config_id = c_proxy_config_id c, cc_is_ipv6 = True, cc_orig_dest_ip6 = c_orig_dest_ip6 c\<rparr>
           else None) g (accept_v6 ac6 g s)"
  using accept_owner [OF assms] .

section \<open>The tunnel\<close>

lemma send_printed_request:
  assumes "length host \<le> 255"
  shows "send_printed 1024 (http_request host port) sk = Inr (send_call (bytes_of (http_request host port)) sk)"
  using send_printed_fits [of "http_request host port" 1024 sk] http_request_length [OF assms, of port] by simp

lemma sock_recv_out: "sk_out (snd (sock_recv n sk)) = sk_out sk"
  by (simp add: sock_recv_def split: prod.split)

text \<open>A request is printed, sent and answered, or not.\<close>

lemma printed_request:
  assumes "length host \<le> 255"
  shows "\<exists>n sk1. send_printed 1024 (http_request host port) sk = Inr (n, sk1) \<and>
    (n = int (length (http_request host port)) \<longrightarrow> sk_out sk1 = sk_out sk @ bytes_of (http_request host port))"
proof -
  obtain n sk1 where c: "send_call (bytes_of (http_request host port)) sk = (n, sk1)" by force
  have "sk_out sk1 = sk_out sk @ bytes_of (http_request host port)" if "n = int (length (http_request host port))"
    using send_call_spec [OF c] that by (simp add: bytes_of_def)
  then show ?thesis using send_printed_request [OF assms, of port sk] c by simp
qed

lemma http_tunnel:
  "\<exists>rc io'. http_connect ip port cfg now s io = Inr (rc, io') \<and>
    (rc = 0 \<longrightarrow> sk_out io' = sk_out io @ bytes_of (http_request (connect_host cfg ip now s) port))"
proof -
  let ?req = "http_request (connect_host cfg ip now s) port"
  obtain n io1 where p: "send_printed 1024 ?req io = Inr (n, io1)" "n = int (length ?req) \<longrightarrow> sk_out io1 = sk_out io @ bytes_of ?req"
    using printed_request [OF connect_host_length, of cfg ip now s port io] by auto
  then show ?thesis
    using sock_recv_out [of 4095 io1] by (auto simp: http_connect_def Let_def split: prod.split)
qed

lemma http_tunnel_v6:
  "\<exists>rc io'. http_connect_v6 ntop6 ip6 port cfg now s io = Inr (rc, io') \<and>
    (rc = 0 \<longrightarrow> sk_out io' = sk_out io @ bytes_of (http_request (connect_host_v6 ntop6 cfg ip6 now s) port))"
proof -
  let ?req = "http_request (connect_host_v6 ntop6 cfg ip6 now s) port"
  obtain n io1 where p: "send_printed 1024 ?req io = Inr (n, io1)" "n = int (length ?req) \<longrightarrow> sk_out io1 = sk_out io @ bytes_of ?req"
    using printed_request [OF connect_host_v6_length, of ntop6 cfg ip6 now s port io] by auto
  then show ?thesis
    using sock_recv_out [of 4095 io1] by (auto simp: http_connect_v6_def Let_def split: prod.split)
qed

text \<open>What the proxy has to be asked for a flow: the host name when the configuration lets the proxy resolve names and the
  DNS cache knows one for the address, the address otherwise.\<close>

definition flow_name :: "handler_env \<Rightarrow> CONNECTION_CONFIG \<Rightarrow> PROXY_CONFIG \<Rightarrow> pb \<Rightarrow> string option" where
  "flow_name he config proxy s =
     (if \<not> pc_send_domain_to_proxy proxy then None
      else if cc_is_ipv6 config then dns_cache_lookup_v6 s (cc_orig_dest_ip6 config) 256 (he_now he)
      else dns_cache_lookup s (cc_orig_dest_ip config) 256 (he_now he))"

definition ip6_text :: "handler_env \<Rightarrow> ip6 \<Rightarrow> string" where
  "ip6_text he i = (case he_ntop6 he i of None \<Rightarrow> '''' | Some t \<Rightarrow> t)"

definition tunnel_request :: "handler_env \<Rightarrow> CONNECTION_CONFIG \<Rightarrow> PROXY_CONFIG \<Rightarrow> pb \<Rightarrow> bytes" where
  "tunnel_request he config proxy s =
     (let port = cc_orig_dest_port config; ip = cc_orig_dest_ip config; ip6 = cc_orig_dest_ip6 config in
      case pc_type proxy of
        PROXY_TYPE_SOCKS5 \<Rightarrow> [5, 1, 0] @
          (case flow_name he config proxy s of
             Some name \<Rightarrow> request_domain name port
           | None \<Rightarrow> if cc_is_ipv6 config then request_v6 ip6 port else request_v4 ip port)
      | PROXY_TYPE_HTTP \<Rightarrow> bytes_of (http_request
          (case flow_name he config proxy s of
             Some name \<Rightarrow> name
           | None \<Rightarrow> if cc_is_ipv6 config then ''['' @ take 63 (ip6_text he ip6) @ '']'' else format_ip_address ip 32) port))"

lemma flow_name_short: "flow_name he config proxy s = Some name \<Longrightarrow> length name \<le> 255"
  by (auto simp: flow_name_def dns_cache_lookup_def dns_cache_lookup_v6_def strncpy_trunc_def split: if_splits)

lemma connect_hosts:
  "\<not> cc_is_ipv6 config \<Longrightarrow> connect_host proxy (cc_orig_dest_ip config) (he_now he) s =
     (case flow_name he config proxy s of Some name \<Rightarrow> name | None \<Rightarrow> format_ip_address (cc_orig_dest_ip config) 32)"
  "cc_is_ipv6 config \<Longrightarrow> connect_host_v6 (ip6_text he) proxy (cc_orig_dest_ip6 config) (he_now he) s =
     (case flow_name he config proxy s of
        Some name \<Rightarrow> name | None \<Rightarrow> ''['' @ take 63 (ip6_text he (cc_orig_dest_ip6 config)) @ '']'')"
  by (simp_all add: connect_host_def connect_host_v6_def flow_name_def strncpy_trunc_def split: option.split)

lemma open_tunnel_http:
  assumes "pc_type proxy = PROXY_TYPE_HTTP"
  shows "\<exists>rc io. open_tunnel he config proxy s = Inr (rc, io) \<and>
     (rc = 0 \<longrightarrow> sk_out io = sk_out (he_io he) @ tunnel_request he config proxy s)"
proof (cases "cc_is_ipv6 config")
  case True
  have n: "(\<lambda>i. case he_ntop6 he i of None \<Rightarrow> '''' | Some t \<Rightarrow> t) = ip6_text he" by (simp add: fun_eq_iff ip6_text_def)
  show ?thesis
    using http_tunnel_v6 [of "ip6_text he" "cc_orig_dest_ip6 config" "cc_orig_dest_port config" proxy "he_now he" s "he_io he"]
      assms True by (simp add: open_tunnel_def tunnel_request_def connect_hosts n Let_def)
next
  case False
  show ?thesis
    using http_tunnel [of "cc_orig_dest_ip config" "cc_orig_dest_port config" proxy "he_now he" s "he_io he"]
      assms False by (simp add: open_tunnel_def tunnel_request_def connect_hosts Let_def)
qed

lemma open_tunnel_socks5:
  assumes "pc_type proxy = PROXY_TYPE_SOCKS5" and "cc_is_ipv6 config \<longrightarrow> length (cc_orig_dest_ip6 config) = 16"
  shows "\<exists>rc io. open_tunnel he config proxy s = Inr (rc, io) \<and>
     (rc = 0 \<longrightarrow> sk_out io = sk_out (he_io he) @ tunnel_request he config proxy s)"
proof -
  let ?p = "cc_orig_dest_port config" and ?n = "he_now he" and ?io = "he_io he"
  have e: "open_tunnel he config proxy s =
      Inr (case flow_name he config proxy s of
             Some name \<Rightarrow> socks5_connect_domain name ?p ?n ?io
           | None \<Rightarrow> if cc_is_ipv6 config then socks5_connect_v6 (he_ntop6 he) (cc_orig_dest_ip6 config) ?p ?n ?io
                     else socks5_connect (cc_orig_dest_ip config) ?p ?n ?io)"
    using assms(1) by (simp add: open_tunnel_def flow_name_def Let_def)
  have d: "sk_out io = sk_out ?io @ [5, 1, 0] @ request_domain name ?p"
    if "socks5_connect_domain name ?p ?n ?io = (0, io)" "flow_name he config proxy s = Some name" for name io
  proof -
    have "name \<noteq> ''''" using that(1) connect_domain_refused [of name] by force
    then show ?thesis using s5_domain.success_sent [OF _ that(1)] flow_name_short [OF that(2)] by simp
  qed
  obtain rc io where o: "open_tunnel he config proxy s = Inr (rc, io)" unfolding e by (metis surj_pair)
  have "sk_out io = sk_out ?io @ tunnel_request he config proxy s" if "rc = 0"
    using o [unfolded e] that d [of _ io] s5_v6.success_sent [of "cc_orig_dest_ip6 config" "he_ntop6 he" ?p ?n ?io io] assms
      s5_v4.success_sent [of "cc_orig_dest_ip config" ?p ?n ?io io]
    by (simp add: tunnel_request_def Let_def split: option.splits if_splits)
  with o show ?thesis by blast
qed

lemma open_tunnel_spec:
  assumes "cc_is_ipv6 config \<longrightarrow> length (cc_orig_dest_ip6 config) = 16"
  shows "\<exists>rc io. open_tunnel he config proxy s = Inr (rc, io) \<and>
     (rc = 0 \<longrightarrow> sk_out io = sk_out (he_io he) @ tunnel_request he config proxy s)"
  by (cases "pc_type proxy") (use open_tunnel_http open_tunnel_socks5 assms in blast)+

section \<open>Every path accounts for its sockets\<close>

lemma end_client_open:
  assumes "distinct handles" and "set handles \<subseteq> sys_open (pool r)"
  shows "end_client code fate io handles r =
     Inr (code, fate, io, r\<lparr>pool := (pool r)\<lparr>sys_open := sys_open (pool r) - set handles\<rparr>\<rparr>)"
  using assms
proof (induction handles arbitrary: r)
  case (Cons h handles)
  let ?r = "r\<lparr>pool := (pool r)\<lparr>sys_open := sys_open (pool r) - {h}\<rparr>\<rparr>"
  have "close_socket h r = Inr ?r" using Cons.prems(2) by (simp add: close_socket_def closesocket_def)
  then have "end_client code fate io (h # handles) r = end_client code fate io handles ?r" by (simp add: end_client_def)
  moreover have "end_client code fate io handles ?r =
      Inr (code, fate, io, ?r\<lparr>pool := (pool ?r)\<lparr>sys_open := sys_open (pool ?r) - set handles\<rparr>\<rparr>)"
    by (rule Cons.IH) (use Cons.prems in auto)
  moreover have "sys_open (pool r) - {h} - set handles = sys_open (pool r) - insert h (set handles)" by auto
  ultimately show ?case by simp
qed (simp add: end_client_def)

lemma open_socket_step:
  assumes "h \<notin> sys_open (pool r)" and "pairs_ok r"
  shows "relays_step r (open_socket h r)"
  unfolding open_socket_def
proof (rule relays_step.pool_steps [OF relay_step.opened [OF assms(1)]])
  show "\<forall>a p. pair_heap r a = Some p \<longrightarrow> pair_sockets p \<subseteq> sys_open ((pool r)\<lparr>sys_open := insert h (sys_open (pool r)),
      sys_recvd := (sys_recvd (pool r))(h := []), sys_sent := (sys_sent (pool r))(h := []), sys_fin := sys_fin (pool r) - {h}\<rparr>)"
    using pairs_okD(3) [OF assms(2)] by auto
  show "\<forall>a p b rc. pair_heap r a = Some p \<and> relay_heap ((pool r)\<lparr>sys_open := insert h (sys_open (pool r)),
      sys_recvd := (sys_recvd (pool r))(h := []), sys_sent := (sys_sent (pool r))(h := []), sys_fin := sys_fin (pool r) - {h}\<rparr>) b = Some rc \<longrightarrow>
      pair_sockets p \<inter> range (rc_s rc) = {}"
    by (auto dest: pairs_ok_apart(2) [OF assms(2)])
qed

lemma open_socket_sockets [simp]: "sys_open (pool (open_socket h r)) = insert h (sys_open (pool r))"
  by (simp add: open_socket_def)

text \<open>A worker is given a connection that is its own, and the system gives it a socket that is not in use.\<close>

definition serviceable :: "handler_env \<Rightarrow> CONNECTION_CONFIG \<Rightarrow> relays \<Rightarrow> bool" where
  "serviceable he config r \<longleftrightarrow> cc_client_socket config \<in> sys_open (pool r) \<and>
     (\<forall>h. he_socket he = Some h \<longrightarrow> h \<notin> sys_open (pool r) \<and>
        transferable (he_transfer he) (cc_client_socket config) h (open_socket h r)) \<and>
     (cc_is_ipv6 config \<longrightarrow> length (cc_orig_dest_ip6 config) = 16)"

text \<open>How a worker may leave the sockets: closed, or owned by a relay behind a tunnel that leads to the flow's destination.\<close>

definition tunnelled :: "handler_env \<Rightarrow> CONNECTION_CONFIG \<Rightarrow> pb \<Rightarrow> conn_io \<Rightarrow> relays \<Rightarrow> bool" where
  "tunnelled he config s io r \<longleftrightarrow>
     (\<exists>proxy h. find_proxy_config s (cc_proxy_config_id config) = Some proxy \<and> pc_host proxy \<noteq> '''' \<and> pc_port proxy \<noteq> 0 \<and>
        he_socket he = Some h \<and> he_connect he (proxy_address (he_os he) proxy, pc_port proxy) \<and>
        sk_out io = sk_out (he_io he) @ tunnel_request he config proxy s \<and>
        (carried (cc_client_socket config) h r \<or> {cc_client_socket config, h} \<inter> sys_open (pool r) = {}))"

definition released :: "handler_env \<Rightarrow> CONNECTION_CONFIG \<Rightarrow> relays \<Rightarrow> bool" where
  "released he config r \<longleftrightarrow> cc_client_socket config \<notin> sys_open (pool r) \<and> (\<forall>h. he_socket he = Some h \<longrightarrow> h \<notin> sys_open (pool r))"

definition accounted :: "handler_env \<Rightarrow> CONNECTION_CONFIG \<Rightarrow> pb \<Rightarrow> relays \<Rightarrow> fault + int \<times> client_fate \<times> conn_io \<times> relays \<Rightarrow> bool" where
  "accounted he config s r res \<longleftrightarrow> (\<exists>code fate io r'. res = Inr (code, fate, io, r') \<and>
     (if fate = Relayed then tunnelled he config s io r' else released he config r') \<and>
     sys_open (pool r) - {cc_client_socket config} \<subseteq> sys_open (pool r'))"

lemma handler_before_socket:
  assumes "serviceable he config r"
  shows "\<exists>r'. end_client code Closed io [cc_client_socket config] r = Inr (code, Closed, io, r') \<and> released he config r' \<and>
     sys_open (pool r) - {cc_client_socket config} \<subseteq> sys_open (pool r')"
proof -
  have "end_client code Closed io [cc_client_socket config] r =
      Inr (code, Closed, io, r\<lparr>pool := (pool r)\<lparr>sys_open := sys_open (pool r) - {cc_client_socket config}\<rparr>\<rparr>)"
    using assms end_client_open [of "[cc_client_socket config]" r] by (simp add: serviceable_def)
  moreover have "h \<notin> sys_open (pool r)" if "he_socket he = Some h" for h using assms that by (simp add: serviceable_def)
  ultimately show ?thesis by (auto simp: released_def)
qed

lemma handler_after_socket:
  assumes "serviceable he config r" and "he_socket he = Some h"
  shows "\<exists>r'. end_client code fate io [cc_client_socket config, h] (open_socket h r) = Inr (code, fate, io, r') \<and>
     released he config r' \<and> sys_open (pool r) - {cc_client_socket config} \<subseteq> sys_open (pool r')"
proof -
  let ?c = "cc_client_socket config"
  have h: "h \<notin> sys_open (pool r)" "?c \<in> sys_open (pool r)" using assms by (simp_all add: serviceable_def)
  then have "end_client code fate io [?c, h] (open_socket h r) =
      Inr (code, fate, io, (open_socket h r)\<lparr>pool := (pool (open_socket h r))\<lparr>sys_open := insert h (sys_open (pool r)) - {?c, h}\<rparr>\<rparr>)"
    using end_client_open [of "[?c, h]" "open_socket h r"] by auto
  then show ?thesis using h assms(2) by (auto simp: released_def)
qed

lemma connection_handler_accounted:
  assumes "pairs_ok r" and "serviceable he config r"
  shows "accounted he config s r (connection_handler_impl he config s r)"
proof -
  let ?c = "cc_client_socket config" and ?ok = "accounted he config s r"
  have early: "?ok (end_client code Closed io [?c] r)" for code io
    using handler_before_socket [OF assms(2), of code io] unfolding accounted_def by fastforce
  show ?thesis
  proof (cases "find_proxy_config s (cc_proxy_config_id config)")
    case None
    then show ?thesis using early by (simp add: connection_handler_impl_def)
  next
    case (Some proxy)
    show ?thesis
    proof (cases "pc_host proxy = '''' \<or> pc_port proxy = 0 \<or> proxy_address (he_os he) proxy = 0 \<or> he_socket he = None")
      case True
      then show ?thesis using early Some by (auto simp: connection_handler_impl_def Let_def)
    next
      case False
      then obtain h where h: "he_socket he = Some h" by auto
      let ?r = "open_socket h r"
      have late: "?ok (end_client code fate io [?c, h] ?r)" if "fate \<noteq> Relayed" for code fate io
        using handler_after_socket [OF assms(2) h, of code fate io] that unfolding accounted_def by fastforce
      obtain rc io where t: "open_tunnel he config proxy s = Inr (rc, io)"
          "rc = 0 \<longrightarrow> sk_out io = sk_out (he_io he) @ tunnel_request he config proxy s"
        using open_tunnel_spec [of config he proxy s] assms(2) by (auto simp: serviceable_def)
      show ?thesis
      proof (cases "he_connect he (proxy_address (he_os he) proxy, pc_port proxy) \<and> rc = 0 \<and> he_malloc he")
        case no: False
        then show ?thesis using late False Some h t(1) by (auto simp: connection_handler_impl_def Let_def)
      next
        case yes: True
        have f: "h \<notin> sys_open (pool r)" "transferable (he_transfer he) ?c h ?r" using assms(2) h by (simp_all add: serviceable_def)
        have ok: "pairs_ok ?r"
          using relays_step_ok [OF open_socket_step [OF f(1)]] assms(1) by blast
        obtain code r' where r': "transfer_handler (he_transfer he) ?c h ?r = Inr (code, r')"
            "carried ?c h r' \<or> {?c, h} \<inter> sys_open (pool r') = {}" "sys_open (pool ?r) - {?c, h} \<subseteq> sys_open (pool r')"
          using transfer_handler_ok [OF ok f(2)] by blast
        have "connection_handler_impl he config s r = Inr (0, Relayed, io, r')"
          using False Some h t(1) yes r'(1) by (simp add: connection_handler_impl_def Let_def)
        moreover have "tunnelled he config s io r'"
          unfolding tunnelled_def using False Some h t(2) yes r'(2) by blast
        moreover have "sys_open (pool r) - {?c} \<subseteq> sys_open (pool r')" using r'(3) f(1) by auto
        ultimately show ?thesis by (simp add: accounted_def)
      qed
    qed
  qed
qed


section \<open>A redirected connection arrives\<close>

lemma redirect_peer:
  "relay_peer_ok_v4 (pk_src (tcp_v4_redirect s p)) (pk_dst p)" "pk_sport (tcp_v4_redirect s p) = pk_sport p"
proof -
  have "first_octet ip = drop_bit 24 (ntohl ip)" for ip
  proof -
    have "(0xFF :: u32) = mask 8" by (simp add: mask_eq_exp_minus_1)
    then have "drop_bit 24 w AND 0xFF = take_bit 8 (drop_bit 24 w)" for w :: u32 by (simp only: take_bit_eq_mask)
    moreover have "take_bit 8 (drop_bit 24 w) = drop_bit 24 w" for w :: u32
      by (rule bit_word_eqI) (auto simp: bit_simps dest: bit_imp_le_length)
    ultimately show ?thesis by (simp add: first_octet_def)
  qed
  then show "relay_peer_ok_v4 (pk_src (tcp_v4_redirect s p)) (pk_dst p)"
    by (simp add: relay_peer_ok_v4_def tcp_v4_redirect_def tcp_v4_swap_def swap_inbound_def)
  show "pk_sport (tcp_v4_redirect s p) = pk_sport p" by (simp add: tcp_v4_redirect_def tcp_v4_swap_def swap_inbound_def)
qed

text \<open>C4. From packet to tunnel: when the rules send a new connection through a proxy, the redirected SYN makes the listener
  accept a connection from the segment's source, and the worker it dispatches has the destination of the original
  segment and the proxy of the verdict.\<close>

theorem redirected_syn_reaches_worker:
  assumes "good_env env" and "pkt_inv s" and "fresh_syn p" and "pk_sport p \<noteq> g_local_relay_port s"
    and "\<not> is_proxy_server_endpoint s (pk_dst p) (pk_dport p)" and "g_has_active_rules s"
    and "s1 = reset_stale_tcp_state (pk_sport p) False (remove_cached_pid (pk_src p) (pk_sport p) False s)"
    and "check_process_rule (en_os env) (en_start env) (en_rounds env) (en_later env)
      (pk_src p) (pk_sport p) (pk_dst p) (pk_dport p) False s1 = Some (action, pid, cid, s2)"
    and "s3 = report_connection (en_os env) (en_log_alloc env) pid (Inl (pk_dst p)) (pk_dst p) (pk_dport p)
      (tcp_v4_action p s2 action) s2" and "en_calloc env s3 \<noteq> None"
    and "tcp_v4_action p s2 action = RULE_ACTION_PROXY"
    and "ac_socket ac = Some h" and "ac_peer ac = pk_src (tcp_v4_redirect s p)" and "ac_port ac = pk_sport (tcp_v4_redirect s p)"
    and "ac_malloc ac" and "ac_thread ac" and "gate_running g"
  shows "\<exists>s'. handle_tcp_v4 env p s = Done (Resent (tcp_v4_redirect s p)) s' \<and>
     fst (accept_v4 ac g s') = [Dispatch \<lparr>cc_client_socket = h, cc_orig_dest_ip = pk_dst p, cc_orig_dest_port = pk_dport p,
       cc_proxy_config_id = cid, cc_is_ipv6 = False, cc_orig_dest_ip6 = []\<rparr>]"
proof -
  obtain s' c where s': "handle_tcp_v4 env p s = Done (Resent (tcp_v4_redirect s p)) s'"
      and c: "connection_of s' (pk_sport p, False, False) = Some c" "c_orig_dest_ip c = pk_dst p" "c_orig_dest_port c = pk_dport p"
        "c_proxy_config_id c = cid"
    using fresh_syn_obeys [OF assms(1-10)] assms(11) by (auto simp: obeys_def)
  have "conn_inv s'" using handle_tcp_inv(1) [OF assms(1,2), of p] s' by (simp add: pkt_inv_def)
  then show ?thesis
    using accept_owner [of s' ac h "\<lparr>ac_socket = Some h, ac_peer = [], ac_port = 0, ac_malloc = True, ac_thread = True, ac_worker = 0, ac_now = 0\<rparr>" h g]
      c s' assms(12-17) redirect_peer [of s p]
    by (simp add: accepted_as_def)
qed

section \<open>The listener ends\<close>

text \<open>The handles of accepted connections that a list of actions closes or gives to a worker.\<close>

definition settled :: "listen_act list \<Rightarrow> nat list" where
  "settled acts = concat (map (\<lambda>act. case act of Dispatch cfg \<Rightarrow> [cc_client_socket cfg] | Close_Client h \<Rightarrow> [h] | Close_Listener _ \<Rightarrow> []) acts)"

definition socket_of :: "'a accepted option \<Rightarrow> nat list" where
  "socket_of x = (case x of None \<Rightarrow> [] | Some ac \<Rightarrow> (case ac_socket ac of None \<Rightarrow> [] | Some h \<Rightarrow> [h]))"

text \<open>What an iteration accepts.\<close>

definition accepts :: "bool \<Rightarrow> listen_round \<Rightarrow> nat list" where
  "accepts sock6 r = (if lr_select r then socket_of (lr_v4 r) @ (if sock6 then socket_of (lr_v6 r) else []) else [])"

lemma settled_append [simp]: "settled (xs @ ys) = settled xs @ settled ys"
  by (simp add: settled_def)

lemma settled_dispatch: "settled (fst (dispatch ac cfg g)) = [cc_client_socket cfg]"
  by (simp add: dispatch_outcome settled_def)

lemma settled_accept:
  "settled (fst (accept_v4 ac g s)) = socket_of (Some ac)" "settled (fst (accept_v6 ac6 g s)) = socket_of (Some ac6)"
proof -
  have c: "settled [Close_Client h] = [h]" for h by (simp add: settled_def)
  show "settled (fst (accept_v4 ac g s)) = socket_of (Some ac)"
    by (simp add: accept_v4_def socket_of_def settled_dispatch c case_prod_beta settled_def [of "[]"] split: option.split)
  show "settled (fst (accept_v6 ac6 g s)) = socket_of (Some ac6)"
    by (simp add: accept_v6_def socket_of_def settled_dispatch c case_prod_beta settled_def [of "[]"] split: option.split)
qed

lemma settled_iteration: "settled (fst (listen_iteration sock6 r g s)) = accepts sock6 r"
  using settled_accept
  by (auto simp: listen_iteration_def accepts_def socket_of_def case_prod_beta settled_def [of "[]"] split: option.splits)

text \<open>A change by other threads that clears \<open>running\<close>.\<close>

definition stops :: "((gate \<times> pb \<Rightarrow> gate \<times> pb) \<times> listen_round) \<Rightarrow> bool" where
  "stops e \<longleftrightarrow> (\<forall>x. \<not> running (snd (fst e x)))"

lemma listen_loop_ends:
  assumes "\<exists>e \<in> set rounds. stops e"
  shows "\<exists>acts g' s' n. listen_loop sock6 rounds g s = Some (acts, g', s') \<and> n \<le> length rounds \<and>
     settled acts = concat (map (\<lambda>e. accepts sock6 (snd e)) (take n rounds)) \<and> \<not> running s'"
  using assms
proof (induction rounds arbitrary: g s)
  case (Cons e rounds)
  obtain others r where e: "e = (others, r)" by force
  obtain g0 s0 where o: "others (g, s) = (g0, s0)" by force
  show ?case
  proof (cases "running s0")
    case False
    then show ?thesis by (intro exI [of _ "[]"] exI [of _ g0] exI [of _ s0] exI [of _ 0]) (simp add: e o settled_def)
  next
    case True
    then have "\<not> stops e" using e o by (auto simp: stops_def intro!: exI [of _ g] exI [of _ s])
    then have "\<exists>e \<in> set rounds. stops e" using Cons.prems by auto
    obtain acts g1 s1 where i: "listen_iteration sock6 r g0 s0 = (acts, g1, s1)" by (metis prod_cases3)
    obtain more g' s' n where m: "listen_loop sock6 rounds g1 s1 = Some (more, g', s')" "n \<le> length rounds"
        "settled more = concat (map (\<lambda>e. accepts sock6 (snd e)) (take n rounds))" "\<not> running s'"
      using Cons.IH [OF \<open>\<exists>e \<in> set rounds. stops e\<close>] by blast
    have "settled acts = accepts sock6 r" using settled_iteration [of sock6 r g0 s0] i by simp
    then show ?thesis
      using m by (intro exI [of _ "acts @ more"] exI [of _ g'] exI [of _ s'] exI [of _ "Suc n"]) (simp add: e o True i)
  qed
qed simp

text \<open>The listener reports how it started and cleans up: when a call fails while it opens its sockets it reports failure, the
  IPv6 listener apart, and closes what it had opened; otherwise it reports success and, once \<open>running\<close> is cleared, it
  returns with both listeners closed and every connection it had accepted closed or given to a worker, each once.\<close>

theorem local_proxy_server_ends:
  assumes "\<exists>e \<in> set rounds. stops e"
  shows "\<exists>code status acts g' s' n. local_proxy_server lb rounds g s = Some (code, status, acts, g', s') \<and>
     (if lb_wsa lb \<and> lb_socket lb \<noteq> None \<and> lb_bind lb \<and> lb_listen lb
      then code = 0 \<and> status = 1 \<and> \<not> running s' \<and> n \<le> length rounds \<and>
        settled acts = concat (map (\<lambda>e. accepts (lb_socket6 lb \<noteq> None \<and> lb_listen6 lb) (snd e)) (take n rounds)) \<and>
        {h. Close_Listener h \<in> set acts} \<supseteq> set_option (lb_socket lb) \<union> set_option (lb_socket6 lb)
      else code = 1 \<and> status = - 1 \<and> acts = (if lb_wsa lb then map Close_Listener (case lb_socket lb of None \<Rightarrow> [] | Some h \<Rightarrow> [h]) else []) \<and> s' = s)"
proof (cases "lb_wsa lb \<and> lb_socket lb \<noteq> None \<and> lb_bind lb \<and> lb_listen lb")
  case False
  then show ?thesis by (auto simp: local_proxy_server_def publish_start_result_def split: option.splits)
next
  case True
  let ?sock6 = "lb_socket6 lb \<noteq> None \<and> lb_listen6 lb"
  obtain acts g' s' n where l: "listen_loop ?sock6 rounds g s = Some (acts, g', s')" "n \<le> length rounds"
      "settled acts = concat (map (\<lambda>e. accepts ?sock6 (snd e)) (take n rounds))" "\<not> running s'"
    using listen_loop_ends [OF assms] by blast
  have c: "settled (Close_Listener h # acts) = settled acts" "settled [] = []" for h acts by (simp_all add: settled_def)
  show ?thesis
    using True l c
    by (cases "lb_socket6 lb"; cases "lb_listen6 lb") (auto simp: local_proxy_server_def publish_start_result_def Let_def intro!: exI [of _ n])
qed

section \<open>Witnesses\<close>

definition sample_accept :: "'a \<Rightarrow> u16 \<Rightarrow> 'a accepted" where
  "sample_accept peer port = \<lparr>ac_socket = Some 10, ac_peer = peer, ac_port = port, ac_malloc = True, ac_thread = True, ac_worker = 1, ac_now = 9\<rparr>"

text \<open>Peers on the local machine.\<close>

theorem accept_dispatches_owner_witness:
  "(\<exists>cfg. fst (accept_v4 (sample_accept 0x0100007F 5000) gate_init sample_flows) = [Dispatch cfg] \<and> cc_orig_dest_port cfg = 443) \<and>
   (\<exists>cfg. fst (accept_v6 (sample_accept loopback6 6000) gate_init sample_flows) = [Dispatch cfg] \<and> cc_orig_dest_port cfg = 443)"
proof -
  obtain c c6 where c: "connection_of sample_flows (5000, False, False) = Some c" "c_orig_dest_port c = 443"
      "connection_of sample_flows (6000, False, True) = Some c6" "c_orig_dest_port c6 = 443"
    by (rule sample_flows_of)
  have "drop_bit 24 (ntohl 0x0100007F) = 127" by (simp add: ntohl_def)
  then show ?thesis
    using accept_dispatches_owner [of sample_flows "sample_accept 0x0100007F 5000" 10 "sample_accept loopback6 6000" 10 gate_init] c
      sample_flows_inv
    by (simp add: accepted_as_def sample_accept_def pkt_inv_def relay_peer_ok_v4_def relay_peer_ok_v6_def gate_init_def loopback6_def)
qed

theorem redirected_syn_reaches_worker_witness:
  "\<exists>s'. handle_tcp_v4 sample_env sample_syn sample_rules = Done (Resent (tcp_v4_redirect sample_rules sample_syn)) s' \<and>
     fst (accept_v4 (sample_accept 2 5000) gate_init s') = [Dispatch \<lparr>cc_client_socket = 10, cc_orig_dest_ip = 2, cc_orig_dest_port = 443,
       cc_proxy_config_id = 1, cc_is_ipv6 = False, cc_orig_dest_ip6 = []\<rparr>]"
proof -
  obtain s2 where v: "check_process_rule sample_os 8 [sample_round] 10 1 5000 2 443 False sample_rules =
      Some (RULE_ACTION_PROXY, 77, 1, s2)" "tcp_v4_action sample_syn s2 RULE_ACTION_PROXY = RULE_ACTION_PROXY"
      "en_calloc sample_env (report_connection sample_os True 77 (Inl 2) 2 443 RULE_ACTION_PROXY s2) \<noteq> None"
    by (rule sample_syn_verdict)
  have "pk_src (tcp_v4_redirect sample_rules sample_syn) = 2" "pk_sport (tcp_v4_redirect sample_rules sample_syn) = 5000"
    by (simp_all add: tcp_v4_redirect_def tcp_v4_swap_def swap_inbound_def sample_syn_def first_octet_def ntohl_def)
  then show ?thesis
    using redirected_syn_reaches_worker [OF sample_env_good(1) sample_pkt_inv sample_syn_facts(1), of sample_rules RULE_ACTION_PROXY 77 1 s2
        "report_connection sample_os True 77 (Inl 2) 2 443 RULE_ACTION_PROXY s2" "sample_accept 2 5000" 10 gate_init] v
      sample_reset sample_syn_facts
    by (simp add: sample_accept_def gate_init_def) (simp add: sample_env_def)
qed

text \<open>A worker for the destination 2:443, a proxy that grants the tunnel, and no completion port for the relay.\<close>

definition sample_handler :: handler_env where
  "sample_handler = \<lparr>he_os = sample_os, he_ntop6 = (\<lambda>_. None), he_socket = Some 12, he_connect = (\<lambda>a. a = (5, 1080)),
     he_io = granting_io, he_now = 9, he_malloc = True, he_transfer = fallback\<rparr>"

definition sample_connection :: CONNECTION_CONFIG where
  "sample_connection = \<lparr>cc_client_socket = 10, cc_orig_dest_ip = 2, cc_orig_dest_port = 443, cc_proxy_config_id = 1, cc_is_ipv6 = False,
     cc_orig_dest_ip6 = []\<rparr>"

lemma sample_serviceable: "serviceable sample_handler sample_connection open_relays"
  by (simp add: serviceable_def sample_handler_def sample_connection_def transferable_def fallback_def open_socket_def open_relays_def
    relays_init_def fresh_pair_def open_pool_def pool_init_def sample_start_def)

lemma sample_granted: "fst (socks5_connect 2 443 9 granting_io) = 0"
proof -
  have "live granting_io" "healthy 13 granting_io" "handshake_length (stream granting_io) = Some 12"
    by (simp_all add: granting_io_def live_def healthy_def stream_def handshake_length_def reply_length_def)
  then show ?thesis using s5_v4.connect_exact [where d = 2 and p = 443 and now = 9 and io = granting_io] by simp
qed


definition sample_boot :: listen_boot where
  "sample_boot = \<lparr>lb_wsa = True, lb_socket = Some 3, lb_bind = True, lb_listen = True, lb_socket6 = Some 4, lb_listen6 = False\<rparr>"

definition sample_listening :: "((gate \<times> pb \<Rightarrow> gate \<times> pb) \<times> listen_round) list" where
  "sample_listening = [(\<lambda>x. x, \<lparr>lr_select = True, lr_v4 = Some (sample_accept 9 1), lr_v6 = None\<rparr>),
     (\<lambda>(g, s). (g, s\<lparr>running := False\<rparr>), \<lparr>lr_select = False, lr_v4 = None, lr_v6 = None\<rparr>)]"

theorem local_proxy_server_ends_witness:
  "\<exists>acts g' s'. local_proxy_server sample_boot sample_listening gate_init pb_init = Some (0, 1, acts, g', s') \<and>
     Close_Listener 3 \<in> set acts \<and> Close_Listener 4 \<in> set acts"
proof -
  have "\<exists>e \<in> set sample_listening. stops e" by (auto simp: sample_listening_def stops_def)
  from local_proxy_server_ends [OF this, of sample_boot gate_init pb_init] show ?thesis
    by (auto simp: sample_boot_def)
qed

end
