(* ===== verification/PB_Udp_Relay.thy ===== *)
theory PB_Udp_Relay
  imports PB_Socks5 PB_Translate
begin

text \<open>
  The UDP relay of \<open>pb_relay.c\<close>: datagrams of applications are wrapped for the SOCKS5 association of their proxy,
  answers of the proxies are unwrapped and returned to the application that asked. One iteration of the loop is a
  function of what the socket calls report; its output is the datagrams sent and the handles closed.
  The lemmas show that wrapping and unwrapping are inverse and stay within the buffers, that answers find the
  right application, and that the relay gives up every handle when it ends.
\<close>

section \<open>Wrapping datagrams\<close>

abbreviation (input) MAXBUF :: nat where "MAXBUF \<equiv> 65535"

definition udp_header_v4 :: "u32 \<Rightarrow> u16 \<Rightarrow> bytes" where
  "udp_header_v4 dest_ip dest_port =
     [0, 0, 0, SOCKS5_ATYP_IPV4, octet 0 dest_ip, octet 1 dest_ip, octet 2 dest_ip, octet 3 dest_ip, hi8 dest_port, lo8 dest_port]"

definition udp_header_v6 :: "ip6 \<Rightarrow> u16 \<Rightarrow> bytes" where
  "udp_header_v6 dest_ip6 dest_port = [0, 0, 0, SOCKS5_ATYP_IPV6] @ take 16 dest_ip6 @ [hi8 dest_port, lo8 dest_port]"

text \<open>Into the send buffer of \<open>MAXBUF\<close> bytes.\<close>

definition wrap_datagram :: "bytes \<Rightarrow> bytes \<Rightarrow> fault + bytes" where
  "wrap_datagram header payload = write_block MAXBUF header payload"

datatype udp_reply = Ignored | From4 u32 u16 bytes | From6 ip6 u16 bytes

definition unwrap_datagram :: "bytes \<Rightarrow> udp_reply" where
  "unwrap_datagram buf =
     (if length buf < 10 then Ignored
      else if buf ! 2 \<noteq> 0 then Ignored
      else if buf ! 3 = SOCKS5_ATYP_IPV4
      then From4 (bytes_to_u32 (take 4 (drop 4 buf))) (be16 (buf ! 8) (buf ! 9)) (drop 10 buf)
      else if buf ! 3 = SOCKS5_ATYP_IPV6 \<and> 22 \<le> length buf
      then From6 (take 16 (drop 4 buf)) (be16 (buf ! 20) (buf ! 21)) (drop 22 buf)
      else Ignored)"

section \<open>The flow an answer belongs to\<close>

text \<open>The most recently active IPv4 flow to the address the answer comes from; it is kept alive.\<close>

fun best_client :: "pb \<Rightarrow> u32 \<Rightarrow> u16 \<Rightarrow> addr list \<Rightarrow> addr option \<Rightarrow> addr option" where
  "best_client s src_ip src_port [] best = best"
| "best_client s src_ip src_port (a # as) best =
     (let c = conn_at s a in
      best_client s src_ip src_port as
        (if c_is_udp c \<and> \<not> c_is_ipv6 c \<and> c_orig_dest_ip c = src_ip \<and> c_orig_dest_port c = src_port \<and>
            (case best of None \<Rightarrow> True | Some b \<Rightarrow> c_last_activity (conn_at s b) < c_last_activity c)
         then Some a else best))"

definition find_v4_udp_sender :: "u32 \<Rightarrow> u16 \<Rightarrow> u64 \<Rightarrow> pb \<Rightarrow> (u32 \<times> u16) option \<times> pb" where
  "find_v4_udp_sender src_ip src_port now s =
     (case best_client s src_ip src_port (connection_rev_table s (rev_hash_v4 src_ip src_port)) None of
        None \<Rightarrow> (None, s)
      | Some a \<Rightarrow> (Some (c_src_ip (conn_at s a), c_src_port (conn_at s a)), touch_conn a now s))"

section \<open>One iteration\<close>

datatype udp_act =
    To_Proxy SOCKET "u32 \<times> u16" bytes
  | To_Client u32 u16 bytes
  | To_Client6 ip6 u16 bytes
  | Close nat
  | Assoc_Replaced

text \<open>What the calls of one iteration report: whether \<open>select\<close> found anything and what, a peek at a control socket
  (the result, and whether an error was \<open>WSAEWOULDBLOCK\<close>), the datagrams received with their sender's port (\<open>None\<close>:
  an error), whether \<open>sendto\<close> the proxy succeeded, and how attempts at an association end.\<close>

record udp_round =
  ur_select :: bool
  ur_ready :: "nat \<Rightarrow> bool"
  ur_quick :: "nat \<Rightarrow> bool"
  ur_client :: bool
  ur_client6 :: bool
  ur_peek :: "nat \<Rightarrow> int \<times> bool"
  ur_recv4 :: "(bytes \<times> u16) option"
  ur_recv6 :: "(bytes \<times> u16) option"
  ur_recv :: "nat \<Rightarrow> bytes option"
  ur_sent :: bool
  ur_attempt :: "u32 \<Rightarrow> udp_attempt"
  ur_retry :: "u32 \<Rightarrow> udp_attempt"
  ur_now :: u64

text \<open>A pass over the array of configurations, each entry updated in place.\<close>

fun each_config :: "(PROXY_CONFIG \<Rightarrow> pb \<Rightarrow> udp_act list \<times> PROXY_CONFIG \<times> pb) \<Rightarrow> nat \<Rightarrow> nat \<Rightarrow> pb \<Rightarrow> udp_act list \<times> pb" where
  "each_config f 0 i s = ([], s)"
| "each_config f (Suc n) i s =
     (case f (g_proxy_configs s ! i) s of (acts, cfg, s1) \<Rightarrow>
        case each_config f n (Suc i) (s1\<lparr>g_proxy_configs := (g_proxy_configs s1)[i := cfg]\<rparr>) of (rest, s2) \<Rightarrow> (acts @ rest, s2))"

definition all_configs :: "(PROXY_CONFIG \<Rightarrow> pb \<Rightarrow> udp_act list \<times> PROXY_CONFIG \<times> pb) \<Rightarrow> pb \<Rightarrow> udp_act list \<times> pb" where
  "all_configs f s = each_config f (length (g_proxy_configs s)) 0 s"

definition dropped_assoc :: "PROXY_CONFIG \<Rightarrow> PROXY_CONFIG" where
  "dropped_assoc cfg = cfg\<lparr>pc_udp_tcp_ctrl := None, pc_udp_send_sock := None, pc_udp_connected := False\<rparr>"

definition associate_unused :: "os \<Rightarrow> udp_round \<Rightarrow> bool \<Rightarrow> PROXY_CONFIG \<Rightarrow> pb \<Rightarrow> udp_act list \<times> PROXY_CONFIG \<times> pb" where
  "associate_unused os r only_dropped cfg s =
     (if pc_type cfg = PROXY_TYPE_SOCKS5 \<and> (only_dropped \<longrightarrow> \<not> pc_udp_connected cfg) \<and> is_proxy_config_referenced (config_id cfg) s
      then (case establish_udp_associate_for_config os (ur_attempt r (config_id cfg)) (ur_now r) cfg of
              (_, closed, cfg1) \<Rightarrow> (map Close closed, cfg1, s))
      else ([], cfg, s))"

definition check_control :: "os \<Rightarrow> udp_round \<Rightarrow> PROXY_CONFIG \<Rightarrow> pb \<Rightarrow> udp_act list \<times> PROXY_CONFIG \<times> pb" where
  "check_control os r cfg s =
     (if pc_type cfg \<noteq> PROXY_TYPE_SOCKS5 \<or> \<not> pc_udp_connected cfg then ([], cfg, s)
      else case pc_udp_tcp_ctrl cfg of
        None \<Rightarrow> ([], cfg, s)
      | Some h \<Rightarrow>
          if ur_ready r h \<and> (fst (ur_peek r h) = 0 \<or> (fst (ur_peek r h) = - 1 \<and> \<not> snd (ur_peek r h)))
          then (case establish_udp_associate_for_config os (ur_attempt r (config_id cfg)) (ur_now r) (dropped_assoc cfg) of
                  (_, closed, cfg1) \<Rightarrow> (map Close (open_handles cfg) @ map Close closed @ [Assoc_Replaced], cfg1, s))
          else ([], cfg, s))"

text \<open>The configuration a pointer refers to, after a change.\<close>

definition put_config :: "PROXY_CONFIG \<Rightarrow> pb \<Rightarrow> pb" where
  "put_config cfg s = s\<lparr>g_proxy_configs := update_first (\<lambda>c. config_id c = config_id cfg) (\<lambda>_. cfg) (g_proxy_configs s)\<rparr>"

text \<open>Sending to the proxy; a failure rebuilds the association and tries once more. The flag says whether the
  association is still the one the iteration started with.\<close>

definition send_to_proxy :: "os \<Rightarrow> udp_round \<Rightarrow> bytes \<Rightarrow> PROXY_CONFIG \<Rightarrow> bool \<times> udp_act list \<times> PROXY_CONFIG" where
  "send_to_proxy os r msg cfg =
     (if ur_sent r then (True, [To_Proxy (pc_udp_send_sock cfg) (pc_udp_relay_addr cfg) msg], cfg)
      else case establish_udp_associate_for_config os (ur_retry r (config_id cfg)) (ur_now r) (dropped_assoc cfg) of
        (ok, closed, cfg1) \<Rightarrow>
          (False, map Close (open_handles cfg) @ map Close closed @
             (if ok then [To_Proxy (pc_udp_send_sock cfg1) (pc_udp_relay_addr cfg1) msg] else []), cfg1))"

text \<open>A datagram of an application over IPv4; the flag says whether the iteration goes on.\<close>

definition relay_from_client :: "os \<Rightarrow> udp_round \<Rightarrow> pb \<Rightarrow> fault + bool \<times> udp_act list \<times> pb" where
  "relay_from_client os r s =
     (case ur_recv4 r of
        None \<Rightarrow> Inr (False, [], s)
      | Some (data, from_port) \<Rightarrow>
          if data = [] then Inr (True, [], s)
          else if length data > MAXBUF - 10 then Inr (False, [], s)
          else (case get_connection from_port True (ur_now r) s of
            (None, s1) \<Rightarrow> Inr (True, [], s1)
          | (Some (dest_ip, dest_port), s1) \<Rightarrow>
              (case find_proxy_config s1 (get_connection_proxy_id from_port True s1) of
                None \<Rightarrow> Inr (False, [], s1)
              | Some cfg \<Rightarrow>
                  if pc_type cfg \<noteq> PROXY_TYPE_SOCKS5 then Inr (False, [], s1)
                  else (case (if pc_udp_connected cfg then (True, [], cfg)
                              else establish_udp_associate_for_config os (ur_attempt r (config_id cfg)) (ur_now r) cfg) of
                    (up, closed, cfg1) \<Rightarrow>
                      if \<not> up then Inr (False, map Close closed, put_config cfg1 s1)
                      else and_then (wrap_datagram (udp_header_v4 dest_ip dest_port) data) (\<lambda>msg.
                        case send_to_proxy os r msg cfg1 of (same, acts, cfg2) \<Rightarrow>
                          Inr (pc_udp_connected cfg \<and> same, map Close closed @ acts, put_config cfg2 s1))))))"

text \<open>A datagram of an application over IPv6.\<close>

definition relay_from_client6 :: "os \<Rightarrow> udp_round \<Rightarrow> pb \<Rightarrow> fault + udp_act list \<times> pb" where
  "relay_from_client6 os r s =
     (case ur_recv6 r of
        None \<Rightarrow> Inr ([], s)
      | Some (data, from_port) \<Rightarrow>
          if data = [] \<or> length data > MAXBUF - 22 then Inr ([], s)
          else (case get_connection_full_v6 from_port True (ur_now r) s of
            (None, s1) \<Rightarrow> Inr ([], s1)
          | (Some (dest_ip6, dest_port, proxy_config_id), s1) \<Rightarrow>
              (case find_proxy_config s1 proxy_config_id of
                None \<Rightarrow> Inr ([], s1)
              | Some cfg \<Rightarrow>
                  if pc_type cfg \<noteq> PROXY_TYPE_SOCKS5 then Inr ([], s1)
                  else (case (if pc_udp_connected cfg then (True, [], cfg)
                              else establish_udp_associate_for_config os (ur_attempt r (config_id cfg)) (ur_now r) cfg) of
                    (_, closed, cfg1) \<Rightarrow>
                      if \<not> pc_udp_connected cfg1 then Inr (map Close closed, put_config cfg1 s1)
                      else and_then (wrap_datagram (udp_header_v6 dest_ip6 dest_port) data) (\<lambda>msg.
                        Inr (map Close closed @ [To_Proxy (pc_udp_send_sock cfg1) (pc_udp_relay_addr cfg1) msg], put_config cfg1 s1))))))"

text \<open>An answer of a proxy; \<open>sock6\<close> says whether there is an IPv6 relay socket.\<close>

definition relay_from_proxy :: "udp_round \<Rightarrow> bool \<Rightarrow> PROXY_CONFIG \<Rightarrow> pb \<Rightarrow> udp_act list \<times> PROXY_CONFIG \<times> pb" where
  "relay_from_proxy r sock6 cfg s =
     (if pc_type cfg \<noteq> PROXY_TYPE_SOCKS5 \<or> \<not> pc_udp_connected cfg then ([], cfg, s)
      else case pc_udp_send_sock cfg of
        None \<Rightarrow> ([], cfg, s)
      | Some h \<Rightarrow>
          if \<not> ur_ready r h \<and> \<not> ur_quick r h then ([], cfg, s)
          else case ur_recv r h of
            None \<Rightarrow> (map Close (open_handles cfg), dropped_assoc cfg, s)
          | Some buf \<Rightarrow>
              (case unwrap_datagram buf of
                 Ignored \<Rightarrow> ([], cfg, s)
               | From4 src_ip src_port payload \<Rightarrow>
                   (case find_v4_udp_sender src_ip src_port (ur_now r) s of
                      (Some (target_ip, target_port), s1) \<Rightarrow> ([To_Client target_ip target_port payload], cfg, s1)
                    | (None, s1) \<Rightarrow> ([], cfg, s1))
               | From6 src_ip6 src_port payload \<Rightarrow>
                   (case find_v6_udp_sender src_ip6 src_port s of
                      Some (target_ip6, target_port) \<Rightarrow>
                        (if sock6 then [To_Client6 target_ip6 target_port payload] else [], cfg, s)
                    | None \<Rightarrow> ([], cfg, s))))"

definition udp_iteration :: "os \<Rightarrow> bool \<Rightarrow> udp_round \<Rightarrow> pb \<Rightarrow> fault + udp_act list \<times> pb" where
  "udp_iteration os sock6 r s =
     (if \<not> ur_select r then Inr (all_configs (associate_unused os r True) s)
      else case all_configs (check_control os r) s of (acts1, s1) \<Rightarrow>
        if Assoc_Replaced \<in> set acts1 then Inr (acts1, s1)
        else and_then (if ur_client r then relay_from_client os r s1 else Inr (True, [], s1)) (\<lambda>(go_on, acts2, s2).
          if \<not> go_on then Inr (acts1 @ acts2, s2)
          else case all_configs (relay_from_proxy r sock6) s2 of (acts3, s3) \<Rightarrow>
            and_then (if sock6 \<and> ur_client6 r then relay_from_client6 os r s3 else Inr ([], s3)) (\<lambda>(acts4, s4).
              Inr (acts1 @ acts2 @ acts3 @ acts4, s4))))"

section \<open>The server\<close>

text \<open>Each element is what other threads do before the iteration and what the calls of it report.\<close>

fun udp_relay_loop :: "os \<Rightarrow> bool \<Rightarrow> ((pb \<Rightarrow> pb) \<times> udp_round) list \<Rightarrow> pb \<Rightarrow> (fault + udp_act list \<times> pb) option" where
  "udp_relay_loop os sock6 [] s = None"
| "udp_relay_loop os sock6 ((others, r) # rest) s =
     (if \<not> running (others s) then Some (Inr ([], others s))
      else case udp_iteration os sock6 r (others s) of
        Inl e \<Rightarrow> Some (Inl e)
      | Inr (acts, s1) \<Rightarrow> map_option (map_sum id (\<lambda>(more, s2). (acts @ more, s2))) (udp_relay_loop os sock6 rest s1))"

definition udp_relay_cleanup :: "pb \<Rightarrow> udp_act list \<times> pb" where
  "udp_relay_cleanup s =
     (map Close (concat (map open_handles (g_proxy_configs s))), s\<lparr>g_proxy_configs := map dropped_assoc (g_proxy_configs s)\<rparr>)"

text \<open>What the system answers while the relay opens its two sockets.\<close>

record udp_boot =
  ub_wsa :: bool
  ub_socket :: SOCKET
  ub_bind :: bool
  ub_socket6 :: SOCKET
  ub_bind6 :: bool
  ub_first :: udp_round

text \<open>The exit code, the start status it publishes (1 ready, -1 failed), its actions and the state.\<close>

definition udp_relay_server ::
  "os \<Rightarrow> udp_boot \<Rightarrow> ((pb \<Rightarrow> pb) \<times> udp_round) list \<Rightarrow> pb \<Rightarrow> (fault + int \<times> int \<times> udp_act list \<times> pb) option" where
  "udp_relay_server os ub rounds s =
     (if \<not> ub_wsa ub then Some (Inr (1, - 1, [], s))
      else case ub_socket ub of
        None \<Rightarrow> Some (Inr (1, - 1, [], s))
      | Some h4 \<Rightarrow>
          if \<not> ub_bind ub then Some (Inr (1, - 1, [Close h4], s))
          else
            let sock6 = (ub_socket6 ub \<noteq> None \<and> ub_bind6 ub);
                acts0 = (if ub_socket6 ub \<noteq> None \<and> \<not> ub_bind6 ub then [Close (the (ub_socket6 ub))] else [])
            in case all_configs (associate_unused os (ub_first ub) False) s of (acts1, s1) \<Rightarrow>
              map_option (map_sum id (\<lambda>(acts2, s2). case udp_relay_cleanup s2 of (acts3, s3) \<Rightarrow>
                (0, 1, acts0 @ acts1 @ acts2 @ acts3 @ [Close h4] @ (if sock6 then [Close (the (ub_socket6 ub))] else []), s3)))
              (udp_relay_loop os sock6 rounds s1))"

section \<open>Wrapping and unwrapping\<close>

text \<open>C23. Wrapping and unwrapping are inverse: a datagram wrapped for a destination fits the send buffer, and read as an
  answer from that address it yields the address, the port and the payload again, for IPv4 and IPv6.\<close>

theorem udp_datagram_round_trip:
  assumes "length payload \<le> MAXBUF - 22" and "length ip6 = 16"
  shows "\<exists>m m6. wrap_datagram (udp_header_v4 ip port) payload = Inr m \<and> length m \<le> MAXBUF \<and>
     unwrap_datagram m = From4 ip port payload \<and>
     wrap_datagram (udp_header_v6 ip6 port) payload = Inr m6 \<and> length m6 \<le> MAXBUF \<and>
     unwrap_datagram m6 = From6 ip6 port payload"
  using assms bytes_to_u32_to_bytes [of ip]
  by (simp add: wrap_datagram_def udp_header_v4_def udp_header_v6_def unwrap_datagram_def be16_hi_lo u32_to_bytes_def nth_append)

theorem udp_datagram_round_trip_witness:
  "\<exists>m. wrap_datagram (udp_header_v4 0x08080808 53) [1, 2, 3] = Inr m \<and> unwrap_datagram m = From4 0x08080808 53 [1, 2, 3]"
  using udp_datagram_round_trip [of "[1, 2, 3]" "replicate 16 7" "0x08080808" 53] by auto

section \<open>The flow an answer belongs to\<close>

definition asks_for :: "pb \<Rightarrow> u32 \<Rightarrow> u16 \<Rightarrow> addr \<Rightarrow> bool" where
  "asks_for s ip port a \<longleftrightarrow> c_is_udp (conn_at s a) \<and> \<not> c_is_ipv6 (conn_at s a) \<and>
     c_orig_dest_ip (conn_at s a) = ip \<and> c_orig_dest_port (conn_at s a) = port"

definition activity :: "pb \<Rightarrow> addr \<Rightarrow> u64" where
  "activity s a = c_last_activity (conn_at s a)"

lemma best_client_Cons:
  "best_client s ip port (a # as) best =
     best_client s ip port as
       (if asks_for s ip port a \<and> (case best of None \<Rightarrow> True | Some b \<Rightarrow> activity s b < activity s a) then Some a else best)"
  by (cases best) (simp_all add: asks_for_def activity_def Let_def)

lemma best_client_max:
  "case best_client s ip port as best of
     None \<Rightarrow> best = None \<and> (\<forall>a \<in> set as. \<not> asks_for s ip port a)
   | Some a \<Rightarrow> (best = Some a \<or> (a \<in> set as \<and> asks_for s ip port a)) \<and>
       (\<forall>b. best = Some b \<or> (b \<in> set as \<and> asks_for s ip port b) \<longrightarrow> activity s b \<le> activity s a)"
proof (induction as arbitrary: best)
  case (Cons x as)
  let ?best = "if asks_for s ip port x \<and> (case best of None \<Rightarrow> True | Some b \<Rightarrow> activity s b < activity s x) then Some x else best"
  have up: "\<exists>b. ?best = Some b \<and> activity s y \<le> activity s b" if "best = Some y \<or> (y = x \<and> asks_for s ip port x)" for y
    using that by (auto simp: not_less split: option.split)
  show ?case
  proof (cases "best_client s ip port as ?best")
    case None
    then show ?thesis using Cons.IH [of ?best] up by (simp add: best_client_Cons del: best_client.simps split: if_splits)
  next
    case (Some a)
    note ih = Cons.IH [of ?best, unfolded Some option.case]
    have "best = Some a \<or> (a \<in> set (x # as) \<and> asks_for s ip port a)" using ih by (auto split: if_splits)
    moreover have "activity s b \<le> activity s a" if "best = Some b \<or> (b \<in> set (x # as) \<and> asks_for s ip port b)" for b
    proof (cases "best = Some b \<or> (b = x \<and> asks_for s ip port x)")
      case True
      then obtain b' where "?best = Some b'" "activity s b \<le> activity s b'" using up by blast
      then show ?thesis using ih by (meson order_trans)
    next
      case False
      then show ?thesis using that ih by auto
    qed
    ultimately show ?thesis using Some by (simp add: best_client_Cons del: best_client.simps)
  qed
qed (simp split: option.split)

lemma asks_for_flow:
  assumes "conn_inv s"
  shows "a \<in> set (connection_rev_table s (rev_hash_v4 ip port)) \<and> asks_for s ip port a \<longleftrightarrow>
     (\<exists>c p. conn_heap s a = Some c \<and> conn_key c = (p, True, False) \<and> c_orig_dest_ip c = ip \<and> c_orig_dest_port c = port)"
proof (cases "conn_heap s a")
  case None
  then show ?thesis using tables_okD(4) [OF assms [unfolded conn_inv_def], of a "rev_hash_v4 ip port"] by simp
next
  case (Some c)
  then have "a \<in> set (connection_rev_table s (rev_hash_v4 ip port)) \<longleftrightarrow> rev_bucket_of c = rev_hash_v4 ip port"
    using tables_okD(4) [OF assms [unfolded conn_inv_def], of a "rev_hash_v4 ip port"] by simp
  then show ?thesis using Some by (auto simp: asks_for_def conn_at_def conn_key_def rev_bucket_of_def)
qed

lemma find_v4_udp_sender_flow:
  assumes "conn_inv s" and "connection_of s (port, True, False) = Some c"
    and "c_orig_dest_ip c = ip" and "c_orig_dest_port c = dport"
    and "\<And>p c'. connection_of s (p, True, False) = Some c' \<Longrightarrow> c_orig_dest_ip c' = ip \<Longrightarrow> c_orig_dest_port c' = dport \<Longrightarrow>
      p \<noteq> port \<Longrightarrow> c_last_activity c' < c_last_activity c"
  obtains a where "conn_heap s a = Some c" and "find_v4_udp_sender ip dport now s = (Some (c_src_ip c, port), touch_conn a now s)"
proof -
  let ?l = "connection_rev_table s (rev_hash_v4 ip dport)"
  obtain a where a: "conn_heap s a = Some c" "conn_key c = (port, True, False)"
    using assms(2) unfolding connection_of_iff [OF assms(1)] by blast
  have al: "a \<in> set ?l \<and> asks_for s ip dport a" unfolding asks_for_flow [OF assms(1)] using a assms(3,4) by blast
  have "best_client s ip dport ?l None = Some a"
  proof (cases "best_client s ip dport ?l None")
    case None
    then show ?thesis using best_client_max [where s = s and ip = ip and port = dport and as = ?l and best = None] al by auto
  next
    case (Some b)
    then have b: "b \<in> set ?l \<and> asks_for s ip dport b" and m: "activity s a \<le> activity s b"
      using best_client_max [where s = s and ip = ip and port = dport and as = ?l and best = None] al by auto
    then obtain c' p where c': "conn_heap s b = Some c'" "conn_key c' = (p, True, False)" "c_orig_dest_ip c' = ip" "c_orig_dest_port c' = dport"
      unfolding asks_for_flow [OF assms(1)] by blast
    then have "connection_of s (p, True, False) = Some c'" unfolding connection_of_iff [OF assms(1)] by blast
    then have "p = port" using assms(5) [of p c'] m c' a by (fastforce simp: activity_def conn_at_def)
    then have "b = a" using tables_okD(6) [OF assms(1) [unfolded conn_inv_def] c'(1) a(1)] c'(2) a(2) by simp
    then show ?thesis using Some by simp
  qed
  then show ?thesis using that [OF a(1)] a by (simp add: find_v4_udp_sender_def conn_at_def conn_key_def)
qed

lemma touch_connection:
  assumes "conn_inv s" and "conn_heap s a = Some c"
  shows "conn_inv (touch_conn a now s)"
    "connection_of (touch_conn a now s) k = (if k = conn_key c then Some (c\<lparr>c_last_activity := now\<rparr>) else connection_of s k)"
  using conn_inv_write [OF assms, of "\<lambda>c. c\<lparr>c_last_activity := now\<rparr>"] touch_flow [OF assms, of "\<lambda>c. c\<lparr>c_last_activity := now\<rparr>" k]
  by (simp_all add: touch_conn_def conn_key_def rev_bucket_of_def)

text \<open>A datagram from the relay to the client of a tracked flow, as the packet processor sees it.\<close>

definition relay_datagram :: "u32 \<Rightarrow> u32 \<Rightarrow> u16 \<Rightarrow> bytes \<Rightarrow> u32 packet" where
  "relay_datagram src client port payload =
     \<lparr>pk_src = src, pk_dst = client, pk_sport = LOCAL_UDP_RELAY_PORT, pk_dport = port, pk_outbound = True, pk_syn = False,
      pk_ack = False, pk_fin = False, pk_rst = False, pk_payload = payload\<rparr>"

text \<open>C24. An answer finds its way back: of the flows to the address a proxied answer comes from, the most recently active
  one gets it. The relay sends the unwrapped payload to that flow's application, and the packet processor makes the
  datagram come from the address and port the application had asked.\<close>

theorem udp_answer_reaches_client:
  assumes "conn_inv s" and "connection_of s (port, True, False) = Some c"
    and "c_orig_dest_ip c = ip" and "c_orig_dest_port c = dport"
    and "\<And>p c'. connection_of s (p, True, False) = Some c' \<Longrightarrow> c_orig_dest_ip c' = ip \<Longrightarrow> c_orig_dest_port c' = dport \<Longrightarrow>
      p \<noteq> port \<Longrightarrow> c_last_activity c' < c_last_activity c"
    and "pc_type cfg = PROXY_TYPE_SOCKS5" and "pc_udp_connected cfg" and "pc_udp_send_sock cfg = Some h" and "ur_ready r h"
    and "ur_recv r h = Some (udp_header_v4 ip dport @ payload)"
  shows "\<exists>s'. relay_from_proxy r sock6 cfg s = ([To_Client (c_src_ip c) port payload], cfg, s') \<and>
     (\<exists>q s''. handle_udp_v4 env (relay_datagram local_ip (c_src_ip c) port payload) s' = Done (Resent q) s'' \<and>
        pk_src q = ip \<and> pk_sport q = dport \<and> pk_dst q = c_src_ip c \<and> pk_dport q = port \<and> pk_payload q = payload)"
proof -
  obtain a where a: "conn_heap s a = Some c" "find_v4_udp_sender ip dport (ur_now r) s = (Some (c_src_ip c, port), touch_conn a (ur_now r) s)"
    by (rule find_v4_udp_sender_flow [OF assms(1-4), of "ur_now r"]) (use assms(5) in auto)
  let ?s = "touch_conn a (ur_now r) s"
  have "unwrap_datagram (udp_header_v4 ip dport @ payload) = From4 ip dport payload"
    using bytes_to_u32_to_bytes [of ip]
    by (simp add: udp_header_v4_def unwrap_datagram_def be16_hi_lo u32_to_bytes_def)
  then have r: "relay_from_proxy r sock6 cfg s = ([To_Client (c_src_ip c) port payload], cfg, ?s)"
    using assms(6-10) a(2) by (simp add: relay_from_proxy_def)
  have k: "conn_key c = (port, True, False)"
    using assms(2) a(1) unfolding connection_of_iff [OF assms(1)]
    by (metis a(1) assms(1) conn_inv_def connection_of_iff option.inject)
  then have t: "conn_inv ?s" "connection_of ?s (port, True, False) = Some (c\<lparr>c_last_activity := ur_now r\<rparr>)"
    using touch_connection [OF assms(1) a(1)] by auto
  obtain b where "find_conn ?s port True False = Some b" "conn_at ?s b = c\<lparr>c_last_activity := ur_now r\<rparr>"
    using find_conn_of [OF t] by blast
  then have "fst (get_connection port True (en_now env) ?s) = Some (ip, dport)"
    using assms(3,4) by (simp add: get_connection_def)
  then show ?thesis unfolding r
    by (auto simp: handle_udp_v4_def relay_datagram_def udp_v4_relay_reply_def Let_def split: prod.split)
qed

section \<open>Iterations\<close>

text \<open>What an iteration keeps: the flow tables stay consistent and the configurations keep their identifiers.\<close>

definition udp_kept :: "pb \<Rightarrow> pb \<Rightarrow> bool" where
  "udp_kept s s' \<longleftrightarrow> (conn_inv s \<longrightarrow> conn_inv s') \<and> map config_id (g_proxy_configs s') = map config_id (g_proxy_configs s) \<and>
     rules_list s' = rules_list s"

lemma udp_kept_refl [simp]: "udp_kept s s"
  by (simp add: udp_kept_def)

lemma udp_kept_trans: "udp_kept s s1 \<Longrightarrow> udp_kept s1 s2 \<Longrightarrow> udp_kept s s2"
  by (simp add: udp_kept_def)

lemma establish_id: "establish_udp_associate_for_config os att now cfg = (ok, closed, cfg') \<Longrightarrow> config_id cfg' = config_id cfg"
  by (auto simp: establish_udp_associate_for_config_def Let_def split: if_splits option.splits prod.splits)

lemma dropped_id [simp]: "config_id (dropped_assoc cfg) = config_id cfg"
  by (simp add: dropped_assoc_def)

lemma conn_inv_configs [simp]: "conn_inv (s\<lparr>g_proxy_configs := v\<rparr>) = conn_inv s"
  by (simp add: conn_inv_def)

lemma put_config_kept: "udp_kept s (put_config cfg s)"
proof -
  have "map config_id (update_first (\<lambda>c. config_id c = config_id cfg) (\<lambda>_. cfg) xs) = map config_id xs" for xs
    by (rule map_update_first) simp
  then show ?thesis by (simp add: udp_kept_def put_config_def)
qed

lemma each_config_kept:
  assumes "\<And>cfg s acts cfg' s1. f cfg s = (acts, cfg', s1) \<Longrightarrow> udp_kept s s1 \<and> config_id cfg' = config_id cfg"
    and "i + n \<le> length (g_proxy_configs s)" and "each_config f n i s = (acts, s')"
  shows "udp_kept s s'"
  using assms(2,3)
proof (induction n arbitrary: i s acts s')
  case (Suc n)
  obtain acts1 cfg s1 where f: "f (g_proxy_configs s ! i) s = (acts1, cfg, s1)" by (metis prod_cases3)
  let ?s = "s1\<lparr>g_proxy_configs := (g_proxy_configs s1)[i := cfg]\<rparr>"
  have k: "udp_kept s s1" "config_id cfg = config_id (g_proxy_configs s ! i)" using assms(1) [OF f] by auto
  have len: "length (g_proxy_configs s1) = length (g_proxy_configs s)"
    using k(1) unfolding udp_kept_def by (metis length_map)
  have "config_id (g_proxy_configs s ! i) = config_id (g_proxy_configs s1 ! i)"
    using k(1) Suc.prems(1) len unfolding udp_kept_def by (metis add_Suc_right less_le_trans less_add_Suc1 nth_map)
  then have "map config_id ((g_proxy_configs s1)[i := cfg]) = map config_id (g_proxy_configs s1)"
    using k(2) by (simp add: map_update list_update_same_conv Suc.prems len flip: nth_map) (metis list_update_id map_update)
  then have "udp_kept s1 ?s" by (simp add: udp_kept_def)
  moreover obtain rest s2 where "each_config f n (Suc i) ?s = (rest, s2)" by force
  moreover from this have "udp_kept ?s s2" using Suc.IH [of "Suc i" ?s] Suc.prems(1) len by simp
  ultimately show ?case using Suc.prems(2) f k(1) by (auto intro: udp_kept_trans)
qed simp

lemma all_configs_kept:
  assumes "\<And>cfg s acts cfg' s1. f cfg s = (acts, cfg', s1) \<Longrightarrow> udp_kept s s1 \<and> config_id cfg' = config_id cfg"
    and "all_configs f s = (acts, s')"
  shows "udp_kept s s'"
  using each_config_kept [where f = f and i = 0 and n = "length (g_proxy_configs s)" and s = s, OF assms(1)] assms(2) by (simp add: all_configs_def)

lemma touch_kept:
  "udp_kept s (snd (get_connection port udp now s))" "udp_kept s (snd (get_connection_full_v6 port udp now s))"
  "udp_kept s (snd (find_v4_udp_sender ip port now s))"
proof -
  have c: "g_proxy_configs (touch_conn a now s) = g_proxy_configs s" "rules_list (touch_conn a now s) = rules_list s" for a
    by (simp_all add: touch_conn_def write_conn_def)
  show "udp_kept s (snd (get_connection port udp now s))" "udp_kept s (snd (get_connection_full_v6 port udp now s))"
    using conn_inv_get [of s] c by (auto simp: udp_kept_def get_connection_def get_connection_full_v6_def split: option.split)
  show "udp_kept s (snd (find_v4_udp_sender ip port now s))"
  proof (cases "best_client s ip port (connection_rev_table s (rev_hash_v4 ip port)) None")
    case (Some a)
    then have "a \<in> set (connection_rev_table s (rev_hash_v4 ip port))"
      using best_client_max [where s = s and ip = ip and port = port and best = None
        and as = "connection_rev_table s (rev_hash_v4 ip port)"] by simp
    then have "conn_inv s \<Longrightarrow> \<exists>c. conn_heap s a = Some c" using tables_okD(4) unfolding conn_inv_def by blast
    then have "conn_inv s \<longrightarrow> conn_inv (touch_conn a now s)" using touch_connection(1) by blast
    then show ?thesis using Some c by (simp add: find_v4_udp_sender_def udp_kept_def)
  qed (simp add: find_v4_udp_sender_def)
qed

lemma relay_from_proxy_kept:
  "relay_from_proxy r sock6 cfg s = (acts, cfg', s1) \<Longrightarrow> udp_kept s s1 \<and> config_id cfg' = config_id cfg"
  using touch_kept(3) [of s]
  by (auto simp: relay_from_proxy_def split: if_splits option.splits udp_reply.splits prod.splits) (metis snd_conv)+

lemma config_passes_kept:
  "associate_unused os r b cfg s = (acts, cfg', s1) \<Longrightarrow> udp_kept s s1 \<and> config_id cfg' = config_id cfg"
  "check_control os r cfg s = (acts, cfg', s1) \<Longrightarrow> udp_kept s s1 \<and> config_id cfg' = config_id cfg"
  by (auto simp: associate_unused_def check_control_def split: if_splits option.splits prod.splits dest!: establish_id)

lemma wrap_fits:
  "length data \<le> MAXBUF - 10 \<Longrightarrow> wrap_datagram (udp_header_v4 ip port) data = Inr (udp_header_v4 ip port @ data)"
  "length data \<le> MAXBUF - 22 \<Longrightarrow> wrap_datagram (udp_header_v6 ip6 port) data = Inr (udp_header_v6 ip6 port @ data)"
  by (simp_all add: wrap_datagram_def udp_header_v4_def udp_header_v6_def)

lemma relay_from_client_ok:
  "\<exists>go_on acts s'. relay_from_client os r s = Inr (go_on, acts, s') \<and> udp_kept s s'"
  "\<exists>acts s'. relay_from_client6 os r s = Inr (acts, s') \<and> udp_kept s s'"
  using touch_kept(1,2) [of s] udp_kept_trans [OF _ put_config_kept]
  by (auto simp: relay_from_client_def relay_from_client6_def wrap_fits not_less split: option.split prod.split if_split) (metis snd_conv)+

lemma all_passes_kept:
  "all_configs (check_control os r) s = (acts, s') \<Longrightarrow> udp_kept s s'"
  "all_configs (associate_unused os r b) s = (acts, s') \<Longrightarrow> udp_kept s s'"
  "all_configs (relay_from_proxy r sock6) s = (acts, s') \<Longrightarrow> udp_kept s s'"
  by (erule all_configs_kept [rotated], erule config_passes_kept relay_from_proxy_kept)+

lemma udp_iteration_kept: "\<exists>acts s'. udp_iteration os sock6 r s = Inr (acts, s') \<and> udp_kept s s'"
proof (cases "ur_select r")
  case True
  obtain acts1 s1 where 1: "all_configs (check_control os r) s = (acts1, s1)" by force
  then have k1: "udp_kept s s1" by (rule all_passes_kept)
  have "\<exists>go_on acts2 s2. (if ur_client r then relay_from_client os r s1 else Inr (True, [], s1)) = Inr (go_on, acts2, s2) \<and> udp_kept s1 s2"
    using relay_from_client_ok(1) [of os r s1] by (cases "ur_client r") auto
  then obtain go_on acts2 s2 where
      2: "(if ur_client r then relay_from_client os r s1 else Inr (True, [], s1)) = Inr (go_on, acts2, s2)" "udp_kept s1 s2" by blast
  obtain acts3 s3 where 3: "all_configs (relay_from_proxy r sock6) s2 = (acts3, s3)" by force
  then have k3: "udp_kept s2 s3" by (rule all_passes_kept)
  have "\<exists>acts4 s4. (if sock6 \<and> ur_client6 r then relay_from_client6 os r s3 else Inr ([], s3)) = Inr (acts4, s4) \<and> udp_kept s3 s4"
    using relay_from_client_ok(2) [of os r s3] by (cases "sock6 \<and> ur_client6 r") auto
  then obtain acts4 s4 where
      4: "(if sock6 \<and> ur_client6 r then relay_from_client6 os r s3 else Inr ([], s3)) = Inr (acts4, s4)" "udp_kept s3 s4" by blast
  have "udp_kept s s2" "udp_kept s s4" using k1 2(2) k3 4(2) by (blast intro: udp_kept_trans)+
  moreover have "udp_iteration os sock6 r s =
      Inr (if Assoc_Replaced \<in> set acts1 then (acts1, s1) else if \<not> go_on then (acts1 @ acts2, s2) else (acts1 @ acts2 @ acts3 @ acts4, s4))"
    using True 1 2(1) 3 4(1) unfolding udp_iteration_def by simp
  ultimately show ?thesis using k1 by simp
next
  case False
  obtain acts1 s1 where "all_configs (associate_unused os r True) s = (acts1, s1)" by force
  then show ?thesis using False all_passes_kept(2) by (auto simp: udp_iteration_def)
qed

text \<open>Whatever datagrams arrive and however the socket calls end, an iteration of the UDP relay stays within its
  buffers; the flow tables stay consistent, and no configuration is lost, added or renumbered.\<close>

theorem udp_iteration_safe:
  assumes "conn_inv s"
  shows "\<exists>acts s'. udp_iteration os sock6 r s = Inr (acts, s') \<and> conn_inv s' \<and>
     map config_id (g_proxy_configs s') = map config_id (g_proxy_configs s)"
  using udp_iteration_kept [of os sock6 r s] assms by (auto simp: udp_kept_def)

lemma udp_relay_loop_ends:
  "list_ex (\<lambda>(others, r). \<forall>s. \<not> running (others s)) rounds \<Longrightarrow> \<exists>acts s'. udp_relay_loop os sock6 rounds s = Some (Inr (acts, s'))"
proof (induction rounds arbitrary: s)
  case (Cons x rounds)
  obtain others r where x: "x = (others, r)" by force
  obtain acts s1 where i: "udp_iteration os sock6 r (others s) = Inr (acts, s1)" using udp_iteration_kept by blast
  show ?case
  proof (cases "running (others s)")
    case True
    then have "list_ex (\<lambda>(others, r). \<forall>s. \<not> running (others s)) rounds" using Cons.prems x by auto
    then obtain more s2 where "udp_relay_loop os sock6 rounds s1 = Some (Inr (more, s2))" using Cons.IH by blast
    then show ?thesis using True i x by simp
  qed (simp add: x)
qed simp

lemma dropped_open [simp]: "open_handles (dropped_assoc cfg) = []" "\<not> pc_udp_connected (dropped_assoc cfg)"
  by (simp_all add: dropped_assoc_def open_handles_def)

text \<open>C25. The relay thread ends once the engine stops, without a fault. It reports failure exactly when it exits with an
  error before serving anything; when it has served, no configuration keeps an association or a socket, and the
  sockets of the relay itself are closed last.\<close>

theorem udp_relay_server_ends:
  assumes "list_ex (\<lambda>(others, r). \<forall>s. \<not> running (others s)) rounds"
  shows "\<exists>code status acts s'. udp_relay_server os ub rounds s = Some (Inr (code, status, acts, s')) \<and>
     (if ub_wsa ub \<and> ub_socket ub \<noteq> None \<and> ub_bind ub
      then code = 0 \<and> status = 1 \<and> (\<forall>cfg \<in> set (g_proxy_configs s'). open_handles cfg = [] \<and> \<not> pc_udp_connected cfg) \<and>
        (\<exists>before. acts = before @ Close (the (ub_socket ub)) #
           (if ub_socket6 ub \<noteq> None \<and> ub_bind6 ub then [Close (the (ub_socket6 ub))] else []))
      else code = 1 \<and> status = - 1 \<and> s' = s)"
proof (cases "ub_wsa ub \<and> ub_socket ub \<noteq> None \<and> ub_bind ub")
  case True
  then obtain h4 where h: "ub_wsa ub" "ub_socket ub = Some h4" "ub_bind ub" by auto
  let ?sock6 = "ub_socket6 ub \<noteq> None \<and> ub_bind6 ub"
  obtain acts1 s1 where a: "all_configs (associate_unused os (ub_first ub) False) s = (acts1, s1)" by force
  obtain acts2 s2 where l: "udp_relay_loop os ?sock6 rounds s1 = Some (Inr (acts2, s2))" using udp_relay_loop_ends [OF assms] by blast
  show ?thesis using h a l by (simp add: udp_relay_server_def Let_def udp_relay_cleanup_def)
next
  case False
  then show ?thesis by (auto simp: udp_relay_server_def split: option.split)
qed

text \<open>A datagram of a tracked flow leaves for the proxy of the flow's rule, addressed to the destination the
  application had named.\<close>

theorem udp_datagram_reaches_proxy:
  assumes "conn_inv s" and "connection_of s (port, True, False) = Some c" and "find_proxy_config s (c_proxy_config_id c) = Some cfg"
    and "pc_type cfg = PROXY_TYPE_SOCKS5" and "pc_udp_connected cfg" and "ur_sent r"
    and "ur_recv4 r = Some (data, port)" and "data \<noteq> []" and "length data \<le> MAXBUF - 10"
  shows "\<exists>s'. relay_from_client os r s = Inr (True, [To_Proxy (pc_udp_send_sock cfg) (pc_udp_relay_addr cfg)
     (udp_header_v4 (c_orig_dest_ip c) (c_orig_dest_port c) @ data)], s')"
proof -
  obtain a where a: "find_conn s port True False = Some a" "conn_at s a = c" using find_conn_of [OF assms(1,2)] by blast
  let ?s = "touch_conn a (ur_now r) s"
  have "conn_heap s a = Some c" "conn_key c = (port, True, False)"
    using find_conn_Some [OF assms(1) a(1)] a(2) by auto
  then have "connection_of ?s (port, True, False) = Some (c\<lparr>c_last_activity := ur_now r\<rparr>)" "conn_inv ?s"
    using touch_connection [OF assms(1)] by auto
  then have "get_connection_proxy_id port True ?s = c_proxy_config_id c"
    using find_conn_of [of ?s port True False] by (fastforce simp: get_connection_proxy_id_def)
  moreover have "find_proxy_config ?s i = find_proxy_config s i" for i
  proof -
    have "g_proxy_configs ?s = g_proxy_configs s" by (simp add: touch_conn_def write_conn_def)
    then show ?thesis by (simp only: find_proxy_config_def)
  qed
  moreover have "get_connection port True (ur_now r) s = (Some (c_orig_dest_ip c, c_orig_dest_port c), ?s)"
    using a by (simp add: get_connection_def)
  ultimately show ?thesis using assms(3-9) by (simp add: relay_from_client_def wrap_fits send_to_proxy_def)
qed

section \<open>A relayed flow\<close>

definition sample_attempt :: udp_attempt where
  "sample_attempt = \<lparr>ua_tcp = None, ua_connect = \<lparr>co_connected = False, co_would_block = False, co_select = 0, co_in_efds = False, co_so_error = 0\<rparr>,
     ua_sock = \<lparr>sk_in = [], sk_accept = [], sk_out = []\<rparr>, ua_udp = None\<rparr>"

definition sample_udp_config :: PROXY_CONFIG where
  "sample_udp_config = \<lparr>config_id = 3, pc_type = PROXY_TYPE_SOCKS5, pc_host = ''proxy'', pc_port = 1080, pc_send_domain_to_proxy = False,
     pc_resolved_ip = 9, pc_last_udp_attempt = 0, pc_udp_tcp_ctrl = Some 20, pc_udp_send_sock = Some 21, pc_udp_relay_addr = (9, 5555),
     pc_udp_connected = True\<rparr>"

definition sample_round_udp :: udp_round where
  "sample_round_udp = \<lparr>ur_select = True, ur_ready = (\<lambda>h. h = 21), ur_quick = (\<lambda>_. False), ur_client = True, ur_client6 = False,
     ur_peek = (\<lambda>_. (1, False)), ur_recv4 = Some ([7, 8], 4000), ur_recv6 = None,
     ur_recv = (\<lambda>_. Some (udp_header_v4 2 53 @ [1, 2, 3])), ur_sent = True, ur_attempt = (\<lambda>_. sample_attempt),
     ur_retry = (\<lambda>_. sample_attempt), ur_now = 150\<rparr>"

definition relayed_udp :: pb where
  "relayed_udp = tracked_udp\<lparr>g_proxy_configs := [sample_udp_config]\<rparr>"

lemma relayed_udp_flow:
  obtains c where "conn_inv relayed_udp" and "connection_of relayed_udp (4000, True, False) = Some c"
    and "flow_v4 4000 True 1 2 53 3 1 100 c"
    and "\<And>k c'. connection_of relayed_udp k = Some c' \<Longrightarrow> k = (4000, True, False)"
proof -
  have u: "usable pb_init (Some 7)" by (simp add: usable_def pb_init_def)
  have same: "connection_of relayed_udp k = connection_of tracked_udp k" for k
    by (rule same_flowsD(2)) (simp add: same_flows_def relayed_udp_def)
  have init: "connection_of pb_init k = None" for k
    by (simp add: connection_of_def find_conn_def pb_init_def empty_table_def split: prod.split)
  obtain c where "conn_inv tracked_udp" "flow_v4 4000 True 1 2 53 3 (g_udp_generation pb_init) 100 c"
      "\<And>k. connection_of tracked_udp k = (if k = (4000, True, False) then Some c else connection_of pb_init k)"
    using add_connection_flow [OF conn_inv_init impI refl, of 4000 True "Some 7" 1 2 53 3 100] u by (auto simp: tracked_udp_def)
  note c = this
  have "conn_inv relayed_udp" using c(1) by (simp add: relayed_udp_def)
  moreover have "flow_v4 4000 True 1 2 53 3 1 100 c" using c(2) by (simp add: pb_init_def)
  moreover have "connection_of relayed_udp k = (if k = (4000, True, False) then Some c else None)" for k
    unfolding same c(3) init ..
  ultimately show ?thesis by (intro that [of c]) (auto split: if_splits)
qed

theorem udp_iteration_safe_witness:
  "\<exists>acts s'. udp_iteration sample_os False sample_round_udp relayed_udp = Inr (acts, s') \<and> conn_inv s'"
proof -
  have "conn_inv relayed_udp" by (rule relayed_udp_flow)
  then show ?thesis using udp_iteration_safe by blast
qed

theorem udp_datagram_reaches_proxy_witness:
  "\<exists>s'. relay_from_client sample_os sample_round_udp relayed_udp =
     Inr (True, [To_Proxy (Some 21) (9, 5555) (udp_header_v4 2 53 @ [7, 8])], s')"
proof -
  obtain c where c: "conn_inv relayed_udp" "connection_of relayed_udp (4000, True, False) = Some c" "flow_v4 4000 True 1 2 53 3 1 100 c"
    by (rule relayed_udp_flow)
  have "find_proxy_config relayed_udp 3 = Some sample_udp_config"
    by (simp add: find_proxy_config_def relayed_udp_def sample_udp_config_def)
  then show ?thesis
    using udp_datagram_reaches_proxy [OF c(1,2), of sample_udp_config sample_round_udp "[7, 8]" sample_os] c(3)
    by (simp add: flow_v4_def sample_udp_config_def sample_round_udp_def)
qed

theorem udp_answer_reaches_client_witness:
  "\<exists>s'. relay_from_proxy sample_round_udp False sample_udp_config relayed_udp = ([To_Client 1 4000 [1, 2, 3]], sample_udp_config, s') \<and>
     (\<exists>q s''. handle_udp_v4 sample_env (relay_datagram 9 1 4000 [1, 2, 3]) s' = Done (Resent q) s'' \<and>
        pk_src q = 2 \<and> pk_sport q = 53 \<and> pk_payload q = [1, 2, 3])"
proof -
  obtain c where c: "conn_inv relayed_udp" "connection_of relayed_udp (4000, True, False) = Some c" "flow_v4 4000 True 1 2 53 3 1 100 c"
      and only: "\<And>k c'. connection_of relayed_udp k = Some c' \<Longrightarrow> k = (4000, True, False)"
    by (rule relayed_udp_flow) blast
  have d: "c_orig_dest_ip c = 2" "c_orig_dest_port c = 53" "c_src_ip c = 1" using c(3) by (simp_all add: flow_v4_def)
  have "c_last_activity c' < c_last_activity c" if "connection_of relayed_udp (p, True, False) = Some c'" "p \<noteq> 4000" for p c'
    using only [OF that(1)] that(2) by simp
  then show ?thesis
    using udp_answer_reaches_client [OF c(1,2) d(1,2), of sample_udp_config 21 sample_round_udp "[1, 2, 3]" False sample_env 9] d(3)
    by (fastforce simp: sample_udp_config_def sample_round_udp_def)
qed

theorem udp_relay_server_ends_witness:
  "\<exists>acts s'. udp_relay_server sample_os \<lparr>ub_wsa = True, ub_socket = Some 30, ub_bind = True, ub_socket6 = None, ub_bind6 = False,
      ub_first = sample_round_udp\<rparr> [(\<lambda>s. s\<lparr>running := False\<rparr>, sample_round_udp)] relayed_udp = Some (Inr (0, 1, acts, s')) \<and>
     (\<exists>before. acts = before @ [Close 30])"
  using udp_relay_server_ends [of "[(\<lambda>s. s\<lparr>running := False\<rparr>, sample_round_udp)]" sample_os
      "\<lparr>ub_wsa = True, ub_socket = Some 30, ub_bind = True, ub_socket6 = None, ub_bind6 = False, ub_first = sample_round_udp\<rparr>" relayed_udp]
  by auto

end
