(* ===== verification/PB_Lifecycle.thy ===== *)
theory PB_Lifecycle
  imports PB_Control PB_Listener PB_Udp_Relay
begin

text \<open>
  Starting and stopping: \<open>ProxyBridge_Start\<close>, \<open>ProxyBridge_Stop\<close>, \<open>DllMain\<close> and the functions of \<open>ProxyBridge.c\<close> they
  are made of. The global handles are slots that hold a handle of the system or none; closing a handle that is not open
  is a fault, and so is using one. Other threads act while these functions wait. The lemmas here are about the filter the
  driver gets; what starting and stopping keep is shown in \<open>PB_Ledger\<close>.
\<close>

section \<open>State\<close>

text \<open>The global handles. \<open>NUM_PACKET_THREADS\<close> is 1, so there is one packet thread.\<close>

datatype slot =
    Shutdown | Proxy_Ready | Udp_Ready | Workers_Done | Owner_Update
  | Owner_Socket | Owner_Flow | Windivert
  | T_Owner_Socket | T_Owner_Flow | T_Proxy | T_Udp | T_Cleanup | T_Packet

text \<open>A slot without a handle is \<open>NULL\<close> or \<open>INVALID_HANDLE_VALUE\<close>. \<open>sys_handles\<close> are the handles the system has open,
  \<open>alive_threads\<close> the threads that were created and not yet waited for, \<open>closings\<close> the slots that were closed, each with
  the threads alive then, and \<open>divert_filter\<close> the filter of the last \<open>WinDivertOpen\<close> of the network layer. \<open>running\<close> is the
  variable of \<open>core\<close>; the gate of the connection workers has a copy. The states of the events \<open>shutdown_event\<close> and
  \<open>connection_workers_done_event\<close> are those of the relays and of the gate.\<close>

record life =
  core :: pb
  relays_of :: relays
  gate_of :: gate
  handles :: "slot \<Rightarrow> nat option"
  proxy_start_status :: int
  udp_relay_start_status :: int
  sys_handles :: "nat set"
  alive_threads :: "slot set"
  closings :: "(slot \<times> slot set) list"
  divert_filter :: string

definition life_init :: life where
  "life_init = \<lparr>core = pb_init, relays_of = relays_init,
     gate_of = \<lparr>gate_running = False, active_connection_workers = 0, connection_workers_done_event = None, phase_of = (\<lambda>_. Outside)\<rparr>,
     handles = (\<lambda>_. None), proxy_start_status = 0, udp_relay_start_status = 0, sys_handles = {}, alive_threads = {},
     closings = [], divert_filter = []\<rparr>"

definition on_core :: "(pb \<Rightarrow> pb) \<Rightarrow> life \<Rightarrow> life" where
  "on_core f L = L\<lparr>core := f (core L)\<rparr>"

definition set_running :: "bool \<Rightarrow> life \<Rightarrow> life" where
  "set_running b L = L\<lparr>core := (core L)\<lparr>running := b\<rparr>, gate_of := (gate_of L)\<lparr>gate_running := b\<rparr>\<rparr>"

text \<open>The state of an event: \<open>None\<close> while it does not exist.\<close>

fun event_state :: "slot \<Rightarrow> bool option \<Rightarrow> life \<Rightarrow> life" where
  "event_state Shutdown e L = L\<lparr>relays_of := (relays_of L)\<lparr>shutdown_event := e\<rparr>\<rparr>"
| "event_state Workers_Done e L = L\<lparr>gate_of := (gate_of L)\<lparr>connection_workers_done_event := e\<rparr>\<rparr>"
| "event_state _ e L = L"

text \<open>The system's calls that create a handle: the handle they return, if any, is stored in the slot.\<close>

definition open_handle :: "slot \<Rightarrow> nat option \<Rightarrow> life \<Rightarrow> life" where
  "open_handle sl h L = L\<lparr>handles := (handles L)(sl := h), sys_handles := set_option h \<union> sys_handles L\<rparr>"

definition create_event :: "slot \<Rightarrow> nat option \<Rightarrow> bool \<Rightarrow> life \<Rightarrow> life" where
  "create_event sl h signalled L = event_state sl (map_option (\<lambda>_. signalled) h) (open_handle sl h L)"

definition create_thread :: "slot \<Rightarrow> nat option \<Rightarrow> life \<Rightarrow> life" where
  "create_thread sl h L =
     (open_handle sl h L)\<lparr>alive_threads := (if h = None then alive_threads L else insert sl (alive_threads L))\<rparr>"

text \<open>Using the handle of a slot, if there is one; closing it and clearing the slot.\<close>

definition with_handle :: "slot \<Rightarrow> (life \<Rightarrow> fault + life) \<Rightarrow> life \<Rightarrow> fault + life" where
  "with_handle sl f L =
     (case handles L sl of None \<Rightarrow> Inr L | Some h \<Rightarrow> if h \<in> sys_handles L then f L else Inl UseAfterFree)"

definition close_slot :: "slot \<Rightarrow> life \<Rightarrow> fault + life" where
  "close_slot sl L =
     (case handles L sl of
        None \<Rightarrow> Inr L
      | Some h \<Rightarrow>
          if h \<in> sys_handles L
          then Inr (event_state sl None (L\<lparr>handles := (handles L)(sl := None), sys_handles := sys_handles L - {h},
                 closings := closings L @ [(sl, alive_threads L)]\<rparr>))
          else Inl DoubleFree)"

text \<open>Steps one after the other.\<close>

fun run_steps :: "('s \<Rightarrow> fault + 's) list \<Rightarrow> 's \<Rightarrow> fault + 's" where
  "run_steps [] s = Inr s"
| "run_steps (f # fs) s = and_then (f s) (run_steps fs)"

section \<open>Stopping\<close>

text \<open>What happens meanwhile: what other threads do until the thread of a slot has ended, what they do while \<open>Stop\<close> waits
  for the connection workers, and the completions of the requests that are outstanding when the relay pool stops.\<close>

record stop_env =
  sv_wait :: "slot \<Rightarrow> life \<Rightarrow> life"
  sv_workers :: "(life \<Rightarrow> life) list"
  sv_completions :: "relay_pool \<Rightarrow> (io_answer \<times> completion \<times> addr \<times> side) list"

definition close_thread :: "stop_env \<Rightarrow> slot \<Rightarrow> life \<Rightarrow> fault + life" where
  "close_thread sv sl = with_handle sl (\<lambda>L.
     let L1 = sv_wait sv sl L in close_slot sl (L1\<lparr>alive_threads := alive_threads L1 - {sl}\<rparr>))"

definition close_lifecycle_events :: "life \<Rightarrow> fault + life" where
  "close_lifecycle_events = run_steps [close_slot Shutdown, close_slot Proxy_Ready, close_slot Udp_Ready, close_slot Workers_Done]"

definition stop_owner_observers :: "stop_env \<Rightarrow> life \<Rightarrow> fault + life" where
  "stop_owner_observers sv = run_steps [close_slot Owner_Socket, close_slot Owner_Flow,
     close_thread sv T_Owner_Socket, close_thread sv T_Owner_Flow, close_slot Owner_Update]"

definition abort_relays :: "life \<Rightarrow> fault + life" where
  "abort_relays L = and_then (abort_active_relays (relays_of L)) (\<lambda>(_, r). Inr (L\<lparr>relays_of := r\<rparr>))"

text \<open>\<open>WinDivertShutdown\<close> ends the receiving of packets, nothing of the state.\<close>

definition request_runtime_stop :: "stop_env \<Rightarrow> life \<Rightarrow> fault + life" where
  "request_runtime_stop sv L =
     run_steps [with_handle Shutdown (\<lambda>L. Inr (event_state Shutdown (Some True) L)), with_handle Windivert Inr,
       stop_owner_observers sv, abort_relays] (set_running False L)"

text \<open>\<open>None\<close>: the wait has not ended when what the others do is used up.\<close>

fun wait_workers_done :: "(life \<Rightarrow> life) list \<Rightarrow> life \<Rightarrow> life option" where
  "wait_workers_done [] L = (if connection_workers_done_event (gate_of L) = Some True then Some L else None)"
| "wait_workers_done (f # fs) L =
     (if connection_workers_done_event (gate_of L) = Some True then Some L else wait_workers_done fs (f L))"

definition stop_relay_pool :: "stop_env \<Rightarrow> life \<Rightarrow> (fault + life) option" where
  "stop_relay_pool sv L =
     (let pl = pool (relays_of L) in
      map_option (map_sum id (\<lambda>pl1. L\<lparr>relays_of := (relays_of L)\<lparr>pool := pl1\<rparr>\<rparr>)) (relay_pool_stop (sv_completions sv pl) pl))"

definition wait_for_runtime_workers :: "stop_env \<Rightarrow> life \<Rightarrow> (fault + life) option" where
  "wait_for_runtime_workers sv L =
     (case run_steps [close_thread sv T_Packet, close_slot Windivert, close_thread sv T_Proxy, close_thread sv T_Udp,
             close_thread sv T_Cleanup, with_handle Workers_Done Inr] L of
        Inl e \<Rightarrow> Some (Inl e)
      | Inr L1 \<Rightarrow>
          (case (if handles L1 Workers_Done = None then Some L1 else wait_workers_done (sv_workers sv) L1) of
             None \<Rightarrow> None
           | Some L2 \<Rightarrow> stop_relay_pool sv L2))"

section \<open>Starting\<close>

text \<open>What the system answers: the handle each call returns, the start of the relay pool, and for each of the two relays
  whether its event was set in time and the status it published; then what other threads do after the thread of a slot was
  created, and what happens if the start has to be undone.\<close>

record start_env =
  se_os :: os
  se_handle :: "slot \<Rightarrow> nat option"
  se_pool :: pool_start
  se_proxy_signalled :: bool
  se_proxy_status :: int
  se_udp_signalled :: bool
  se_udp_status :: int
  se_others :: "slot \<Rightarrow> life \<Rightarrow> life"
  se_stop :: stop_env

definition create_lifecycle_events :: "start_env \<Rightarrow> life \<Rightarrow> fault + bool \<times> life" where
  "create_lifecycle_events se L =
     (let L1 = create_event Workers_Done (se_handle se Workers_Done) True
                 (create_event Udp_Ready (se_handle se Udp_Ready) False
                   (create_event Proxy_Ready (se_handle se Proxy_Ready) False
                     (create_event Shutdown (se_handle se Shutdown) False L)))
      in if handles L1 Shutdown = None \<or> handles L1 Proxy_Ready = None \<or> handles L1 Udp_Ready = None \<or> handles L1 Workers_Done = None
         then and_then (close_lifecycle_events L1) (\<lambda>L2. Inr (False, L2))
         else Inr (True, L1\<lparr>proxy_start_status := 0, udp_relay_start_status := 0,
                gate_of := (gate_of L1)\<lparr>active_connection_workers := 0\<rparr>\<rparr>))"

definition wait_for_worker_ready :: "bool \<Rightarrow> int \<Rightarrow> bool" where
  "wait_for_worker_ready signalled status \<longleftrightarrow> signalled \<and> status = 1"

text \<open>A thread is created and other threads go on.\<close>

definition spawn :: "start_env \<Rightarrow> slot \<Rightarrow> life \<Rightarrow> life" where
  "spawn se sl L = (let L1 = create_thread sl (se_handle se sl) L in if se_handle se sl = None then L1 else se_others se sl L1)"

definition start_owner_observers :: "start_env \<Rightarrow> life \<Rightarrow> fault + bool \<times> life" where
  "start_owner_observers se L =
     (let undo = (\<lambda>L. and_then (stop_owner_observers (se_stop se) L) (\<lambda>L1. Inr (False, L1)));
          L1 = create_event Owner_Update (se_handle se Owner_Update) False L
      in if handles L1 Owner_Update = None then Inr (False, L1)
         else
           let L2 = open_handle Owner_Socket (se_handle se Owner_Socket) L1
           in if handles L2 Owner_Socket = None then undo L2
              else
                let L3 = open_handle Owner_Flow (se_handle se Owner_Flow) L2
                in if handles L3 Owner_Flow = None then undo L3
                   else
                     let L4 = spawn se T_Owner_Flow (spawn se T_Owner_Socket L3)
                     in if handles L4 T_Owner_Socket = None \<or> handles L4 T_Owner_Flow = None then undo L4 else Inr (True, L4))"

text \<open>The filter the driver gets, printed into a buffer.\<close>

abbreviation (input) FILTER_BUFFER_SIZE :: nat where "FILTER_BUFFER_SIZE \<equiv> 1024"

definition filter_format :: "string \<Rightarrow> string \<Rightarrow> string" where
  "filter_format p u =
       (''not impostor and ('' @
        ''(tcp and (outbound or loopback or (tcp.DstPort == '' @ p @ '' or tcp.SrcPort == '' @ p @ ''))) or '' @
        ''(udp and (outbound or loopback or (udp.DstPort == '' @ u @ '' or udp.SrcPort == '' @ u @ '')) and '' @
        ''udp.SrcPort != 67 and udp.DstPort != 67 and udp.SrcPort != 68 and udp.DstPort != 68) or '' @
        ''(udp and not outbound and udp.SrcPort == 53) or '' @
        ''(ipv6 and udp and not outbound and udp.SrcPort == 53) or '' @
        ''(ipv6 and tcp and (outbound or loopback or (tcp.DstPort == '' @ p @ '' or tcp.SrcPort == '' @ p @ ''))) or '' @
        ''(ipv6 and udp and (outbound or loopback or (udp.DstPort == '' @ u @ '' or udp.SrcPort == '' @ u @ '')) and '' @
        ''udp.SrcPort != 546 and udp.DstPort != 546 and udp.SrcPort != 547 and udp.DstPort != 547))'')"

definition filter_text :: "u16 \<Rightarrow> string" where
  "filter_text port =
     strncpy_trunc FILTER_BUFFER_SIZE (filter_format (decimal (unat port)) (decimal (unat LOCAL_UDP_RELAY_PORT)))"

text \<open>What the filter says of a packet, in the driver's documented reading: \<open>tcp\<close> and \<open>udp\<close> hold of packets of either
  version of IP, and a test of a port fails for a packet without that header.\<close>

record divert_packet =
  dp_impostor :: bool
  dp_outbound :: bool
  dp_loopback :: bool
  dp_ipv6 :: bool
  dp_tcp :: bool
  dp_udp :: bool
  dp_src :: u16
  dp_dst :: u16

definition filter_accepts :: "u16 \<Rightarrow> divert_packet \<Rightarrow> bool" where
  "filter_accepts port p \<longleftrightarrow> \<not> dp_impostor p \<and>
     ((dp_tcp p \<and> (dp_outbound p \<or> dp_loopback p \<or> dp_dst p = port \<or> dp_src p = port)) \<or>
      (dp_udp p \<and> (dp_outbound p \<or> dp_loopback p \<or> dp_dst p = LOCAL_UDP_RELAY_PORT \<or> dp_src p = LOCAL_UDP_RELAY_PORT) \<and>
        dp_src p \<noteq> 67 \<and> dp_dst p \<noteq> 67 \<and> dp_src p \<noteq> 68 \<and> dp_dst p \<noteq> 68) \<or>
      (dp_udp p \<and> \<not> dp_outbound p \<and> dp_src p = 53) \<or>
      (dp_ipv6 p \<and> dp_udp p \<and> \<not> dp_outbound p \<and> dp_src p = 53) \<or>
      (dp_ipv6 p \<and> dp_tcp p \<and> (dp_outbound p \<or> dp_loopback p \<or> dp_dst p = port \<or> dp_src p = port)) \<or>
      (dp_ipv6 p \<and> dp_udp p \<and> (dp_outbound p \<or> dp_loopback p \<or> dp_dst p = LOCAL_UDP_RELAY_PORT \<or> dp_src p = LOCAL_UDP_RELAY_PORT) \<and>
        dp_src p \<noteq> 546 \<and> dp_dst p \<noteq> 546 \<and> dp_src p \<noteq> 547 \<and> dp_dst p \<noteq> 547))"

definition start_proxy :: "start_env \<Rightarrow> life \<Rightarrow> bool \<times> life" where
  "start_proxy se L =
     (let L1 = spawn se T_Proxy L
      in if handles L1 T_Proxy = None then (False, L1)
         else let L2 = L1\<lparr>proxy_start_status := se_proxy_status se\<rparr>
              in (wait_for_worker_ready (se_proxy_signalled se) (proxy_start_status L2), L2))"

definition start_udp_relay :: "start_env \<Rightarrow> life \<Rightarrow> bool \<times> life" where
  "start_udp_relay se L =
     (if any_socks5_config (core L)
      then
        let L1 = spawn se T_Udp L
        in if handles L1 T_Udp = None then (False, L1)
           else let L2 = L1\<lparr>udp_relay_start_status := se_udp_status se\<rparr>
                in (wait_for_worker_ready (se_udp_signalled se) (udp_relay_start_status L2), L2)
      else (True, L))"

definition start_cleanup :: "start_env \<Rightarrow> life \<Rightarrow> bool \<times> life" where
  "start_cleanup se L = (let L1 = spawn se T_Cleanup L in (handles L1 T_Cleanup \<noteq> None, L1))"

definition open_divert :: "start_env \<Rightarrow> life \<Rightarrow> bool \<times> life" where
  "open_divert se L =
     (let L1 = open_handle Windivert (se_handle se Windivert) (L\<lparr>divert_filter := filter_text (g_local_relay_port (core L))\<rparr>)
      in (handles L1 Windivert \<noteq> None, L1))"

definition start_packets :: "start_env \<Rightarrow> life \<Rightarrow> bool \<times> life" where
  "start_packets se L = (let L1 = spawn se T_Packet L in (handles L1 T_Packet \<noteq> None, L1))"

text \<open>The steps up to the first that fails.\<close>

fun try_steps :: "('s \<Rightarrow> bool \<times> 's) list \<Rightarrow> 's \<Rightarrow> bool \<times> 's" where
  "try_steps [] s = (True, s)"
| "try_steps (f # fs) s = (case f s of (ok, s1) \<Rightarrow> if ok then try_steps fs s1 else (False, s1))"

definition start_failed :: "stop_env \<Rightarrow> life \<Rightarrow> (fault + bool \<times> life) option" where
  "start_failed sv L =
     (case request_runtime_stop sv L of
        Inl e \<Rightarrow> Some (Inl e)
      | Inr L1 \<Rightarrow>
          map_option (\<lambda>r. and_then r (\<lambda>L2. and_then (close_lifecycle_events L2) (\<lambda>L3. Inr (False, L3))))
            (wait_for_runtime_workers sv L1))"

definition start_workers :: "start_env \<Rightarrow> life \<Rightarrow> fault + bool \<times> life" where
  "start_workers se L =
     and_then (start_owner_observers se L) (\<lambda>(ok, L1).
       Inr (if \<not> ok then (False, L1)
            else try_steps [start_proxy se, start_udp_relay se, start_cleanup se, open_divert se, start_packets se] L1))"

definition prepare_start :: "os \<Rightarrow> pb \<Rightarrow> pb" where
  "prepare_start os s =
     (let s1 = dns_cache_init (invalidate_udp_decisions s)
      in if g_has_domain_rules s1 then flush_dns_resolver_cache os s1 else s1)"

definition ProxyBridge_Start :: "start_env \<Rightarrow> life \<Rightarrow> (fault + bool \<times> life) option" where
  "ProxyBridge_Start se L =
     (if running (core L) then Some (Inr (False, L))
      else case create_lifecycle_events se (on_core (prepare_start (se_os se)) L) of
          Inl e \<Rightarrow> Some (Inl e)
        | Inr (created, L1) \<Rightarrow>
            if \<not> created then Some (Inr (False, L1))
            else
              let L2 = set_running True L1;
                  L3 = L2\<lparr>relays_of := (relays_of L2)\<lparr>pool := snd (relay_pool_start (se_pool se) (pool (relays_of L2)))\<rparr>\<rparr>
              in (case start_workers se L3 of
                   Inl e \<Rightarrow> Some (Inl e)
                 | Inr (ok, L4) \<Rightarrow>
                     if ok then Some (Inr (True, on_core (update_has_active_rules (se_os se)) L4))
                     else start_failed (se_stop se) L4))"

section \<open>Stop and unloading\<close>

definition free_bucket :: "nat \<Rightarrow> pb \<Rightarrow> pb" where
  "free_bucket i s =
     (fold (\<lambda>a s. s\<lparr>conn_heap := (conn_heap s)(a := None)\<rparr>) (connection_hash_table s i) s)
       \<lparr>connection_hash_table := (connection_hash_table s)(i := [])\<rparr>"

definition free_connections :: "pb \<Rightarrow> pb" where
  "free_connections s =
     (let s1 = fold free_bucket [0..<CONNECTION_HASH_SIZE] s
      in s1\<lparr>connection_rev_table := (\<lambda>i. if i < CONNECTION_HASH_SIZE then [] else connection_rev_table s1 i)\<rparr>)"

definition clear_state :: "pb \<Rightarrow> pb" where
  "clear_state s =
     clear_port_decisions ((clear_owner_event_cache (clear_pid_cache (clear_logged_connections (free_connections s))))
       \<lparr>g_pidtbl_cap := 0\<rparr>)"

definition ProxyBridge_Stop :: "stop_env \<Rightarrow> life \<Rightarrow> (fault + bool \<times> life) option" where
  "ProxyBridge_Stop sv L =
     (if \<not> running (core L) then Some (Inr (False, L))
      else case request_runtime_stop sv L of
        Inl e \<Rightarrow> Some (Inl e)
      | Inr L1 \<Rightarrow>
          map_option (\<lambda>r. and_then r (\<lambda>L2. and_then (close_lifecycle_events (on_core clear_state L2)) (\<lambda>L3. Inr (True, L3))))
            (wait_for_runtime_workers sv L1))"

text \<open>Unloading: the sockets of the UDP associations that are closed, and the state. \<open>Winsock\<close> has been shut down before.\<close>

definition dll_detach :: "stop_env \<Rightarrow> life \<Rightarrow> (fault + nat list \<times> life) option" where
  "dll_detach sv L =
     map_option (\<lambda>r. and_then r (\<lambda>(_, L1).
         let s = core L1;
             closed = concat (map open_handles (g_proxy_configs s))
         in Inr (closed, L1\<lparr>core := s\<lparr>g_proxy_configs := map (\<lambda>cfg. cfg\<lparr>pc_udp_tcp_ctrl := None, pc_udp_send_sock := None\<rparr>) (g_proxy_configs s),
              rules_list := []\<rparr>\<rparr>)))
       (if running (core L) then ProxyBridge_Stop sv L else Some (Inr (False, L)))"

definition dll_attach :: "u32 \<Rightarrow> life \<Rightarrow> life" where
  "dll_attach pid = on_core (\<lambda>s. s\<lparr>g_current_process_id := pid\<rparr>)"

section \<open>The filter\<close>

lemma length_filter_format: "length (filter_format p u) = 622 + 4 * length p + 4 * length u"
  by (simp add: filter_format_def)


text \<open>The filter fits its buffer whatever the relay port is, so the driver gets the whole of it.\<close>

theorem filter_not_cut:
  "filter_text port = filter_format (decimal (unat port)) (decimal (unat LOCAL_UDP_RELAY_PORT)) \<and>
   length (filter_text port) < FILTER_BUFFER_SIZE"
  using length_decimal_port [of port] length_decimal_port [of LOCAL_UDP_RELAY_PORT]
  by (simp add: filter_text_def strncpy_trunc_def length_filter_format)


end
