(* ===== verification/PB_Ledger.thy ===== *)
theory PB_Ledger
  imports PB_Lifecycle
begin

text \<open>
  What starting and stopping keep: the ledger of the handles. The lemmas follow the functions of \<open>PB_Lifecycle\<close> from closing
  one slot to \<open>ProxyBridge_Start\<close> and \<open>ProxyBridge_Stop\<close>. They show that a start that fails and a stop give every handle back
  exactly once, that what the threads use outlives them, with one exception, and that flows, decisions, owners and logs
  of one run are gone when it has been stopped.
\<close>

section \<open>The ledger\<close>

definition threads :: "slot set" where
  "threads = {T_Owner_Socket, T_Owner_Flow, T_Proxy, T_Udp, T_Cleanup, T_Packet}"

definition lifecycle_events :: "slot set" where
  "lifecycle_events = {Shutdown, Proxy_Ready, Udp_Ready, Workers_Done}"

text \<open>A slot may be closed while the threads \<open>A\<close> are alive: a thread's handle once it has ended, the events of the life cycle
  and the driver's handle once the threads that use them have ended.\<close>

definition closable :: "slot \<Rightarrow> slot set \<Rightarrow> bool" where
  "closable sl A \<longleftrightarrow> sl \<notin> A \<and> (sl \<in> lifecycle_events \<longrightarrow> A = {}) \<and> (sl = Windivert \<longrightarrow> T_Packet \<notin> A) \<and>
     (sl = Owner_Update \<longrightarrow> T_Owner_Socket \<notin> A \<and> T_Owner_Flow \<notin> A)"

text \<open>The handles of the slots are different, they are what the system has open beside \<open>X\<close>, and whatever was closed could be.\<close>

definition slots_ok :: "nat set \<Rightarrow> life \<Rightarrow> bool" where
  "slots_ok X L \<longleftrightarrow> inj_on (handles L) (dom (handles L)) \<and> sys_handles L = X \<union> ran (handles L) \<and> X \<inter> ran (handles L) = {} \<and>
     (\<forall>(sl, A) \<in> set (closings L). closable sl A)"

text \<open>The gate: without a listener nobody is on the way in; while the event exists the count is exact, otherwise nobody is inside.\<close>

definition no_listener :: "gate \<Rightarrow> bool" where
  "no_listener g \<longleftrightarrow> (\<forall>t. phase_of g t \<notin> {Counted, Rearmed})"

definition gate_fine :: "bool \<Rightarrow> bool \<Rightarrow> gate \<Rightarrow> bool" where
  "gate_fine listening counting g \<longleftrightarrow> (\<not> listening \<longrightarrow> no_listener g) \<and>
     (if counting then gate_ok g \<and> event_exact g
      else connection_workers_done_event g = None \<and> inside g = {} \<and> active_connection_workers g = 0)"

definition ledger_ok :: "nat set \<Rightarrow> life \<Rightarrow> bool" where
  "ledger_ok X L \<longleftrightarrow> slots_ok X L \<and> alive_threads L = threads \<inter> dom (handles L) \<and> pkt_inv (core L) \<and> pairs_ok (relays_of L) \<and>
     (shutdown_event (relays_of L) = None \<longleftrightarrow> handles L Shutdown = None) \<and> gate_running (gate_of L) = running (core L) \<and>
     gate_fine (handles L T_Proxy \<noteq> None) (handles L Workers_Done \<noteq> None) (gate_of L)"

text \<open>From \<open>L\<close> to \<open>L'\<close> the slots \<open>S\<close> were closed and no other; \<open>running\<close> and the rules are as before.\<close>

definition moved :: "slot set \<Rightarrow> life \<Rightarrow> life \<Rightarrow> bool" where
  "moved S L L' \<longleftrightarrow> handles L' = (\<lambda>sl. if sl \<in> S then None else handles L sl) \<and> running (core L') = running (core L) \<and>
     rules_list (core L') = rules_list (core L) \<and> set (closings L) \<subseteq> set (closings L')"

text \<open>What other threads may do: keep the ledger, and leave the slots, \<open>running\<close> and the rules alone.\<close>

definition bystander :: "nat set \<Rightarrow> (life \<Rightarrow> life) \<Rightarrow> bool" where
  "bystander X f \<longleftrightarrow> (\<forall>L. ledger_ok X L \<longrightarrow> ledger_ok X (f L) \<and> moved {} L (f L))"

lemma moved_refl [simp]: "moved {} L L"
  by (simp add: moved_def)

lemma moved_none: "handles L sl = None \<Longrightarrow> moved {sl} L L"
  by (auto simp: moved_def)

lemma moved_trans: "moved S L L1 \<Longrightarrow> moved T L1 L2 \<Longrightarrow> moved (S \<union> T) L L2"
  by (auto simp: moved_def fun_eq_iff)

lemma event_state_fields [simp]:
  "handles (event_state sl e L) = handles L" "sys_handles (event_state sl e L) = sys_handles L"
  "core (event_state sl e L) = core L" "closings (event_state sl e L) = closings L"
  "alive_threads (event_state sl e L) = alive_threads L" "running (core (event_state sl e L)) = running (core L)"
  by (cases sl; simp)+

lemma event_state_gate:
  "gate_of (event_state sl e L) = (if sl = Workers_Done then (gate_of L)\<lparr>connection_workers_done_event := e\<rparr> else gate_of L)"
  "relays_of (event_state sl e L) = (if sl = Shutdown then (relays_of L)\<lparr>shutdown_event := e\<rparr> else relays_of L)"
  by (cases sl; simp)+

lemma pairs_ok_shutdown [simp]: "pairs_ok (r\<lparr>shutdown_event := e\<rparr>) = pairs_ok r"
  by (simp add: pairs_ok_def pair_ok_def running_dirs_def)

lemma phase_insensitive [simp]:
  "no_listener (g\<lparr>connection_workers_done_event := e\<rparr>) = no_listener g" "no_listener (g\<lparr>gate_running := b\<rparr>) = no_listener g"
  "no_listener (g\<lparr>active_connection_workers := n\<rparr>) = no_listener g"
  "gate_ok (g\<lparr>gate_running := b\<rparr>) = gate_ok g" "event_exact (g\<lparr>gate_running := b\<rparr>) = event_exact g"
  by (simp_all add: no_listener_def gate_ok_def event_exact_def)

lemma slots_close:
  assumes "slots_ok X L" and "handles L sl = Some h" and "closable sl A"
  shows "slots_ok X (L\<lparr>handles := (handles L)(sl := None), sys_handles := sys_handles L - {h}, closings := closings L @ [(sl, A)]\<rparr>)"
proof -
  have i: "inj_on (handles L) (dom (handles L))" and s: "sys_handles L = X \<union> ran (handles L)" and d: "X \<inter> ran (handles L) = {}"
    using assms(1) by (simp_all add: slots_ok_def)
  have n: "handles L sl' \<noteq> Some h" if "sl' \<noteq> sl" for sl'
    using i assms(2) that unfolding inj_on_def dom_def by (metis (mono_tags, lifting) mem_Collect_eq option.distinct(1))
  have r: "ran ((handles L)(sl := None)) = ran (handles L) - {h}"
  proof (intro set_eqI iffI)
    fix k assume "k \<in> ran ((handles L)(sl := None))"
    then obtain sl' where "sl' \<noteq> sl" "handles L sl' = Some k" by (auto simp: ran_def split: if_splits)
    then show "k \<in> ran (handles L) - {h}" using n by (auto simp: ran_def)
  next
    fix k assume "k \<in> ran (handles L) - {h}"
    then obtain sl' where "handles L sl' = Some k" "k \<noteq> h" by (auto simp: ran_def)
    then show "k \<in> ran ((handles L)(sl := None))" using assms(2) by (intro ranI [of _ sl']) auto
  qed
  have "inj_on ((handles L)(sl := None)) (dom ((handles L)(sl := None)))"
    using i by (auto simp: inj_on_def dom_def)
  moreover have "h \<notin> X" using d assms(2) by (auto simp: ran_def)
  ultimately show ?thesis using s d assms(1,3) by (auto simp: slots_ok_def r)
qed

lemma slots_open:
  assumes "slots_ok X L" and "handles L sl = None" and "\<And>h'. h = Some h' \<Longrightarrow> h' \<notin> sys_handles L"
  shows "slots_ok X (open_handle sl h L)"
proof -
  have i: "inj_on (handles L) (dom (handles L))" and s: "sys_handles L = X \<union> ran (handles L)" and d: "X \<inter> ran (handles L) = {}"
    using assms(1) by (simp_all add: slots_ok_def)
  have n: "handles L sl' \<noteq> h" if "handles L sl' \<noteq> None" for sl' using that assms(3) s by (auto simp: ran_def)
  have "ran ((handles L)(sl := h)) = ran (handles L) \<union> set_option h"
    using assms(2) by (cases h) (simp_all add: fun_upd_idem ran_map_upd)
  moreover have "inj_on ((handles L)(sl := h)) (dom ((handles L)(sl := h)))"
    using i n by (auto simp: inj_on_def dom_def) metis+
  moreover have "set_option h \<inter> X = {}" using assms(3) s by (cases h) auto
  ultimately show ?thesis using s d assms(1) by (auto simp: slots_ok_def open_handle_def)
qed

section \<open>Closing\<close>

lemma ledger_handle: "ledger_ok X L \<Longrightarrow> handles L sl = Some h \<Longrightarrow> h \<in> sys_handles L"
  by (auto simp: ledger_ok_def slots_ok_def ran_def)

lemma ledger_gate: "ledger_ok X L \<Longrightarrow> gate_fine (handles L T_Proxy \<noteq> None) (handles L Workers_Done \<noteq> None) (gate_of L)"
  by (simp add: ledger_ok_def)

lemma ledger_gate_ok: "ledger_ok X L \<Longrightarrow> handles L Workers_Done \<noteq> None \<Longrightarrow> gate_ok (gate_of L)"
  using ledger_gate [of X L] by (simp add: gate_fine_def)

lemma gate_ok_empty: "gate_ok g \<Longrightarrow> inside g = {} \<Longrightarrow> active_connection_workers g = 0"
  by (simp add: gate_ok_def)

lemma close_slot_ok:
  assumes "ledger_ok X L" and "sl \<notin> threads" and "closable sl (alive_threads L)"
    and "sl = Workers_Done \<Longrightarrow> inside (gate_of L) = {}"
  obtains L' where "close_slot sl L = Inr L'" and "ledger_ok X L'" and "moved {sl} L L'"
    and "handles L sl \<noteq> None \<longrightarrow> (sl, alive_threads L) \<in> set (closings L')"
proof (cases "handles L sl")
  case None
  then show ?thesis using moved_none assms(1) by (intro that [of L]) (simp_all add: close_slot_def)
next
  case (Some h)
  let ?L = "event_state sl None (L\<lparr>handles := (handles L)(sl := None), sys_handles := sys_handles L - {h},
    closings := closings L @ [(sl, alive_threads L)]\<rparr>)"
  have sl: "sl \<noteq> T_Proxy" using assms(2) by (auto simp: threads_def)
  have g: "gate_fine (handles ?L T_Proxy \<noteq> None) (handles ?L Workers_Done \<noteq> None) (gate_of ?L)"
    using ledger_gate [OF assms(1)] assms(4) Some sl by (cases "sl = Workers_Done") (simp_all add: gate_fine_def event_state_gate gate_ok_empty)
  have "slots_ok X ?L"
    using slots_close [of X L sl h "alive_threads L"] Some assms(1,3) by (simp add: ledger_ok_def slots_ok_def)
  moreover have "alive_threads ?L = threads \<inter> dom (handles ?L)" using assms(1,2) by (auto simp: ledger_ok_def)
  moreover have "gate_running (gate_of ?L) = running (core ?L)" "pkt_inv (core ?L)" "pairs_ok (relays_of ?L)"
      "shutdown_event (relays_of ?L) = None \<longleftrightarrow> handles ?L Shutdown = None"
    using assms(1) by (auto simp: ledger_ok_def event_state_gate)
  ultimately have "ledger_ok X ?L" using g by (simp only: ledger_ok_def)
  moreover have "moved {sl} L ?L" by (simp add: moved_def fun_eq_iff subset_insertI)
  ultimately show ?thesis
    using Some ledger_handle [OF assms(1) Some] by (intro that [of ?L]) (simp_all add: close_slot_def)
qed

lemma with_handle_ok: "ledger_ok X L \<Longrightarrow> with_handle sl f L = (if handles L sl = None then Inr L else f L)"
  using ledger_handle [of X L sl] by (auto simp: with_handle_def split: option.split)

lemma close_thread_ok:
  assumes "ledger_ok X L" and "sl \<in> threads" and "bystander X (sv_wait sv sl)"
    and "sl = T_Proxy \<Longrightarrow> no_listener (gate_of (sv_wait sv sl L))"
  obtains L' where "close_thread sv sl L = Inr L'" and "ledger_ok X L'" and "moved {sl} L L'"
proof (cases "handles L sl")
  case None
  then show ?thesis
    using moved_none assms(1) by (intro that [of L]) (simp_all add: close_thread_def with_handle_def)
next
  case (Some h)
  let ?L1 = "sv_wait sv sl L"
  let ?L = "?L1\<lparr>alive_threads := alive_threads ?L1 - {sl}, handles := (handles ?L1)(sl := None), sys_handles := sys_handles ?L1 - {h},
    closings := closings ?L1 @ [(sl, alive_threads ?L1 - {sl})]\<rparr>"
  have l1: "ledger_ok X ?L1" "moved {} L ?L1" using assms(1,3) by (simp_all add: bystander_def)
  then have h1: "handles ?L1 sl = Some h" using Some by (simp add: moved_def)
  have sl: "sl \<noteq> Shutdown" "sl \<noteq> Workers_Done" "sl \<notin> lifecycle_events" "sl \<noteq> Windivert" "sl \<noteq> Owner_Update"
    using assms(2) by (auto simp: threads_def lifecycle_events_def)
  have c: "close_slot sl (?L1\<lparr>alive_threads := alive_threads ?L1 - {sl}\<rparr>) = Inr ?L"
    using h1 ledger_handle [OF l1(1) h1] assms(2) by (auto simp: close_slot_def threads_def)
  have "slots_ok X ?L"
    using slots_close [of X ?L1 sl h "alive_threads ?L1 - {sl}"] h1 l1(1) sl by (simp add: ledger_ok_def slots_ok_def closable_def)
  moreover have "gate_fine (handles ?L T_Proxy \<noteq> None) (handles ?L Workers_Done \<noteq> None) (gate_of ?L)"
    using ledger_gate [OF l1(1)] sl assms(4) by (cases "sl = T_Proxy") (simp_all add: gate_fine_def)
  ultimately have "ledger_ok X ?L" using l1(1) sl by (auto simp: ledger_ok_def)
  moreover have "moved {sl} L ?L" using l1(2) by (auto simp: moved_def fun_eq_iff)
  ultimately show ?thesis
    using that [of ?L] Some c by (simp add: close_thread_def with_handle_ok [OF assms(1)] Let_def)
qed

section \<open>Undoing a start, and stopping\<close>

definition cancels :: "(relay_pool \<Rightarrow> (io_answer \<times> completion \<times> addr \<times> side) list) \<Rightarrow> bool" where
  "cancels f \<longleftrightarrow> (\<forall>pl. pool_ok {} pl \<and> g_iocp pl \<longrightarrow>
     list_all cancelled (f pl) \<and> distinct (map request_of (f pl)) \<and> request_of ` set (f pl) = sys_pending pl)"

text \<open>What \<open>Stop\<close> relies on: other threads keep to what is theirs, the listener ends, the workers leave in the end, and the
  system cancels the outstanding requests of the sockets that were shut down.\<close>

definition fair :: "nat set \<Rightarrow> stop_env \<Rightarrow> bool" where
  "fair X sv \<longleftrightarrow> (\<forall>sl. bystander X (sv_wait sv sl)) \<and> (\<forall>f \<in> set (sv_workers sv). bystander X f) \<and> sv_workers sv \<noteq> [] \<and>
     (\<forall>L. ledger_ok X L \<and> \<not> running (core L) \<longrightarrow> no_listener (gate_of (sv_wait sv T_Proxy L))) \<and>
     (\<forall>L. ledger_ok X L \<and> \<not> running (core L) \<longrightarrow> (\<forall>t. phase_of (gate_of (last (sv_workers sv) L)) t = Outside)) \<and>
     cancels (sv_completions sv)"

definition owner_slots :: "slot set" where
  "owner_slots = {Owner_Socket, Owner_Flow, T_Owner_Socket, T_Owner_Flow, Owner_Update}"

definition worker_slots :: "slot set" where
  "worker_slots = {T_Packet, Windivert, T_Proxy, T_Udp, T_Cleanup}"

lemma ledger_alive: "ledger_ok X L \<Longrightarrow> alive_threads L = threads \<inter> dom (handles L)"
  by (simp add: ledger_ok_def)

lemma moved_alive:
  "ledger_ok X L \<Longrightarrow> ledger_ok X L' \<Longrightarrow> moved S L L' \<Longrightarrow> alive_threads L' = alive_threads L - S"
  by (auto simp: ledger_alive moved_def dom_def split: if_splits)

lemma closable_plain:
  "ledger_ok X L \<Longrightarrow> sl \<in> {Owner_Socket, Owner_Flow} \<Longrightarrow> closable sl (alive_threads L)"
  by (auto simp: closable_def ledger_alive threads_def lifecycle_events_def)

lemma stop_owner_observers_ok:
  assumes "ledger_ok X L" and "\<And>sl. bystander X (sv_wait sv sl)"
  obtains L' where "stop_owner_observers sv L = Inr L'" and "ledger_ok X L'" and "moved owner_slots L L'"
    and "handles L Owner_Update \<noteq> None \<longrightarrow> (Owner_Update, alive_threads L - {T_Owner_Socket, T_Owner_Flow}) \<in> set (closings L')"
proof -
  obtain L1 where L1: "close_slot Owner_Socket L = Inr L1" "ledger_ok X L1" "moved {Owner_Socket} L L1"
    by (rule close_slot_ok [OF assms(1), of Owner_Socket]) (use closable_plain [OF assms(1)] in \<open>auto simp: threads_def\<close>)
  obtain L2 where L2: "close_slot Owner_Flow L1 = Inr L2" "ledger_ok X L2" "moved {Owner_Flow} L1 L2"
    by (rule close_slot_ok [OF L1(2), of Owner_Flow]) (use closable_plain [OF L1(2)] in \<open>auto simp: threads_def\<close>)
  obtain L3 where L3: "close_thread sv T_Owner_Socket L2 = Inr L3" "ledger_ok X L3" "moved {T_Owner_Socket} L2 L3"
    by (rule close_thread_ok [OF L2(2) _ assms(2), of T_Owner_Socket]) (auto simp: threads_def)
  obtain L4 where L4: "close_thread sv T_Owner_Flow L3 = Inr L4" "ledger_ok X L4" "moved {T_Owner_Flow} L3 L4"
    by (rule close_thread_ok [OF L3(2) _ assms(2), of T_Owner_Flow]) (auto simp: threads_def)
  have m: "moved (owner_slots - {Owner_Update}) L L4"
    using moved_trans [OF moved_trans [OF moved_trans [OF L1(3) L2(3)] L3(3)] L4(3)]
    by (rule back_subst [where P = "\<lambda>S. moved S L L4"]) (auto simp: owner_slots_def)
  have a: "alive_threads L4 = alive_threads L - {T_Owner_Socket, T_Owner_Flow}"
    using moved_alive [OF assms(1) L4(2) m] ledger_alive [OF assms(1)] by (auto simp: owner_slots_def threads_def)
  then have "closable Owner_Update (alive_threads L4)"
    using ledger_alive [OF assms(1)] by (auto simp: closable_def threads_def lifecycle_events_def)
  then obtain L5 where L5: "close_slot Owner_Update L4 = Inr L5" "ledger_ok X L5" "moved {Owner_Update} L4 L5"
      "handles L4 Owner_Update \<noteq> None \<longrightarrow> (Owner_Update, alive_threads L4) \<in> set (closings L5)"
    by (rule close_slot_ok [OF L4(2), of Owner_Update, rotated]) (auto simp: threads_def)
  have "moved owner_slots L L5"
    using moved_trans [OF m L5(3)] by (rule back_subst [where P = "\<lambda>S. moved S L L5"]) (auto simp: owner_slots_def)
  moreover have "handles L4 Owner_Update = handles L Owner_Update" using m by (simp add: moved_def owner_slots_def)
  ultimately show ?thesis
    using that [of L5] L1(1) L2(1) L3(1) L4(1) L5 a by (simp add: stop_owner_observers_def)
qed

lemma ledger_set_running: "ledger_ok X L \<Longrightarrow> ledger_ok X (set_running b L)"
  by (simp add: ledger_ok_def set_running_def slots_ok_def gate_fine_def)

lemma ledger_relays:
  "ledger_ok X L \<Longrightarrow> pairs_ok r \<Longrightarrow> shutdown_event r = shutdown_event (relays_of L) \<Longrightarrow> ledger_ok X (L\<lparr>relays_of := r\<rparr>)"
  by (simp add: ledger_ok_def slots_ok_def)

lemma shutdown_pairs_event: "shutdown_pairs as r = Inr r' \<Longrightarrow> shutdown_event r' = shutdown_event r"
proof (induction as arbitrary: r)
  case (Cons a as)
  then obtain r1 where r1: "with_pair a shutdown_pair r = Inr r1" "shutdown_pairs as r1 = Inr r'" by (auto simp: and_then_Inr)
  then have "shutdown_event r1 = shutdown_event r"
    by (auto simp: with_pair_def shutdown_pair_def shutdown_socket_def and_then_Inr split: option.splits if_splits)
  then show ?case using Cons.IH [OF r1(2)] by simp
qed simp

lemma abort_relays_ok:
  assumes "ledger_ok X L"
  obtains L' where "abort_relays L = Inr L'" and "ledger_ok X L'" and "moved {} L L'"
proof -
  have "pairs_ok (relays_of L)" using assms by (simp add: ledger_ok_def)
  then obtain r where r: "abort_active_relays (relays_of L) = Inr (length (active_relay_pairs (relays_of L)), r)" "pairs_ok r"
    by (rule abort_active_relays_ok)
  moreover have "shutdown_event r = shutdown_event (relays_of L)"
    using r(1) by (auto simp: abort_active_relays_def and_then_Inr dest: shutdown_pairs_event)
  ultimately show ?thesis
    using that [of "L\<lparr>relays_of := r\<rparr>"] ledger_relays [OF assms] by (simp add: abort_relays_def moved_def)
qed

lemma request_runtime_stop_ok:
  assumes "ledger_ok X L" and "fair X sv"
  obtains L' where "request_runtime_stop sv L = Inr L'" and "ledger_ok X L'" and "\<not> running (core L')"
    and "moved owner_slots (set_running False L) L'"
    and "handles L Owner_Update \<noteq> None \<longrightarrow> (Owner_Update, alive_threads L - {T_Owner_Socket, T_Owner_Flow}) \<in> set (closings L')"
proof -
  let ?L0 = "set_running False L"
  let ?L1 = "if handles ?L0 Shutdown = None then ?L0 else event_state Shutdown (Some True) ?L0"
  have l0: "ledger_ok X ?L0" by (rule ledger_set_running [OF assms(1)])
  then have l1: "ledger_ok X ?L1" by (simp add: ledger_ok_def slots_ok_def)
  have b: "bystander X (sv_wait sv sl)" for sl using assms(2) by (simp add: fair_def)
  have m1: "moved {} ?L0 ?L1" by (simp add: moved_def)
  obtain L2 where L2: "stop_owner_observers sv ?L1 = Inr L2" "ledger_ok X L2" "moved owner_slots ?L1 L2"
      "handles ?L1 Owner_Update \<noteq> None \<longrightarrow> (Owner_Update, alive_threads ?L1 - {T_Owner_Socket, T_Owner_Flow}) \<in> set (closings L2)"
    by (rule stop_owner_observers_ok [OF l1 b])
  obtain L3 where L3: "abort_relays L2 = Inr L3" "ledger_ok X L3" "moved {} L2 L3" by (rule abort_relays_ok [OF L2(2)])
  have "with_handle Shutdown (\<lambda>L. Inr (event_state Shutdown (Some True) L)) ?L0 = Inr ?L1" "with_handle Windivert Inr ?L1 = Inr ?L1"
    by (auto simp only: with_handle_ok [OF l0] with_handle_ok [OF l1] split: if_split)
  then have r: "request_runtime_stop sv L = Inr L3"
    using L2(1) L3(1) by (simp only: request_runtime_stop_def run_steps.simps and_then_simps)
  have m: "moved owner_slots ?L0 L3" using moved_trans [OF moved_trans [OF m1 L2(3)] L3(3)] by simp
  moreover have "\<not> running (core L3)" using m by (simp add: moved_def set_running_def)
  moreover have "set (closings L2) \<subseteq> set (closings L3)" using L3(3) by (simp add: moved_def)
  ultimately show ?thesis
    using that [OF r L3(2)] L2(4) by (auto simp: set_running_def split: if_splits)
qed

lemma wait_workers_done_ok:
  assumes "ledger_ok X L" and "\<not> running (core L)" and "handles L Workers_Done \<noteq> None" and "\<forall>f \<in> set fs. bystander X f" and "fs \<noteq> []"
    and "\<And>L. ledger_ok X L \<Longrightarrow> \<not> running (core L) \<Longrightarrow> (\<forall>t. phase_of (gate_of (last fs L)) t = Outside)"
  obtains L' where "wait_workers_done fs L = Some L'" and "ledger_ok X L'" and "moved {} L L'"
    and "connection_workers_done_event (gate_of L') = Some True"
proof -
  have "\<exists>L'. wait_workers_done fs L = Some L' \<and> ledger_ok X L' \<and> moved {} L L' \<and> connection_workers_done_event (gate_of L') = Some True"
    using assms
  proof (induction fs arbitrary: L)
    case (Cons f fs)
    have f: "ledger_ok X (f L)" "moved {} L (f L)" using Cons.prems(1,4) by (simp_all add: bystander_def)
    then have p: "\<not> running (core (f L))" "handles (f L) Workers_Done \<noteq> None" using Cons.prems(2,3) by (simp_all add: moved_def)
    show ?case
    proof (cases "connection_workers_done_event (gate_of L) = Some True")
      case True then show ?thesis using Cons.prems(1) by simp
    next
      case False
      have "\<exists>L'. wait_workers_done fs (f L) = Some L' \<and> ledger_ok X L' \<and> moved {} (f L) L' \<and>
          connection_workers_done_event (gate_of L') = Some True"
      proof (cases "fs = []")
        case True
        then have "\<forall>t. phase_of (gate_of (f L)) t = Outside" using Cons.prems(6) [OF Cons.prems(1,2)] by simp
        moreover have "gate_ok (gate_of (f L))" using ledger_gate [OF f(1)] p(2) by (simp add: gate_fine_def)
        ultimately have "connection_workers_done_event (gate_of (f L)) = Some True"
          by (auto simp: gate_ok_def inside_def settling_def)
        then show ?thesis using True f(1) by simp
      next
        case False
        show ?thesis by (rule Cons.IH [OF f(1) p]) (use Cons.prems(4,6) False in auto)
      qed
      then show ?thesis using False moved_trans [OF f(2)] by auto
    qed
  qed simp
  then show ?thesis using that by blast
qed

lemma stop_relay_pool_ok:
  assumes "ledger_ok X L" and "cancels (sv_completions sv)"
  obtains L' where "stop_relay_pool sv L = Some (Inr L')" and "ledger_ok X L'" and "moved {} L L'" and "gate_of L' = gate_of L"
    and "\<not> g_iocp (pool (relays_of L'))"
proof (cases "g_iocp (pool (relays_of L))")
  case False
  then show ?thesis using that [of L] assms(1) by (simp add: stop_relay_pool_def relay_pool_stop_def)
next
  case True
  have ok: "pairs_ok (relays_of L)" using assms(1) by (simp add: ledger_ok_def)
  let ?pl = "pool (relays_of L)"
  have c: "list_all cancelled (sv_completions sv ?pl)" "distinct (map request_of (sv_completions sv ?pl))"
      "request_of ` set (sv_completions sv ?pl) = sys_pending ?pl"
    using assms(2) True pairs_ok_pool_ok [OF ok] by (simp_all add: cancels_def)
  obtain pl where pl: "relay_pool_stop (sv_completions sv ?pl) ?pl = Some (Inr pl)" "pool_ok {} pl" "relay_heap pl = Map.empty"
      "\<not> g_iocp pl" "spares ?pl pl"
    by (rule relay_pool_stop_ok [OF pairs_ok_pool_ok [OF ok] True c])
  have "pair_sockets p \<subseteq> sys_open pl" if "pair_heap (relays_of L) a = Some p" for a p
    using pl(5) pairs_okD(3) [OF ok that] pairs_ok_apart(2) [OF ok that] unfolding spares_def by blast
  then have "pairs_ok ((relays_of L)\<lparr>pool := pl\<rparr>)" using pairs_ok_pool [OF ok pl(2)] pl(3) by simp
  then show ?thesis
    using that [of "L\<lparr>relays_of := (relays_of L)\<lparr>pool := pl\<rparr>\<rparr>"] pl(1,4) ledger_relays [OF assms(1)]
    by (simp add: stop_relay_pool_def moved_def)
qed

lemma nobody_inside:
  assumes "ledger_ok X L" and "handles L T_Proxy = None"
    and "handles L Workers_Done \<noteq> None \<longrightarrow> connection_workers_done_event (gate_of L) = Some True"
  shows "inside (gate_of L) = {}"
proof -
  have "no_listener (gate_of L)" "handles L Workers_Done \<noteq> None \<Longrightarrow> event_exact (gate_of L)"
      "handles L Workers_Done = None \<Longrightarrow> inside (gate_of L) = {}"
    using ledger_gate [OF assms(1)] assms(2) by (simp_all add: gate_fine_def)
  then show ?thesis
    using assms(3) by (cases "handles L Workers_Done") (auto simp: event_exact_def no_listener_def inside_def)
qed

lemma join_workers_ok:
  assumes "ledger_ok X L" and "fair X sv" and "\<not> running (core L)"
  obtains L' where "run_steps [close_thread sv T_Packet, close_slot Windivert, close_thread sv T_Proxy, close_thread sv T_Udp,
             close_thread sv T_Cleanup, with_handle Workers_Done Inr] L = Inr L'" and "ledger_ok X L'" and "moved worker_slots L L'"
proof -
  have b: "bystander X (sv_wait sv sl)" for sl using assms(2) by (simp add: fair_def)
  obtain L1 where L1: "close_thread sv T_Packet L = Inr L1" "ledger_ok X L1" "moved {T_Packet} L L1"
    by (rule close_thread_ok [OF assms(1) _ b, of T_Packet]) (auto simp: threads_def)
  have "alive_threads L1 = alive_threads L - {T_Packet}" by (rule moved_alive [OF assms(1) L1(2,3)])
  then have "closable Windivert (alive_threads L1)"
    using ledger_alive [OF L1(2)] by (auto simp: closable_def threads_def lifecycle_events_def)
  then obtain L2 where L2: "close_slot Windivert L1 = Inr L2" "ledger_ok X L2" "moved {Windivert} L1 L2"
    by (rule close_slot_ok [OF L1(2), of Windivert, rotated]) (auto simp: threads_def)
  have r: "\<not> running (core L2)" using assms(3) L1(3) L2(3) by (simp add: moved_def)
  then have "no_listener (gate_of (sv_wait sv T_Proxy L2))" using assms(2) L2(2) by (simp add: fair_def)
  then obtain L3 where L3: "close_thread sv T_Proxy L2 = Inr L3" "ledger_ok X L3" "moved {T_Proxy} L2 L3"
    using close_thread_ok [OF L2(2) _ b, of T_Proxy] by (auto simp: threads_def)
  obtain L4 where L4: "close_thread sv T_Udp L3 = Inr L4" "ledger_ok X L4" "moved {T_Udp} L3 L4"
    by (rule close_thread_ok [OF L3(2) _ b, of T_Udp]) (auto simp: threads_def)
  obtain L5 where L5: "close_thread sv T_Cleanup L4 = Inr L5" "ledger_ok X L5" "moved {T_Cleanup} L4 L5"
    by (rule close_thread_ok [OF L4(2) _ b, of T_Cleanup]) (auto simp: threads_def)
  have "moved worker_slots L L5"
    using moved_trans [OF moved_trans [OF moved_trans [OF moved_trans [OF L1(3) L2(3)] L3(3)] L4(3)] L5(3)]
    by (rule back_subst [where P = "\<lambda>S. moved S L L5"]) (auto simp: worker_slots_def)
  then show ?thesis
    using that [of L5] L1(1) L2(1) L3(1) L4(1) L5(1,2) by (simp add: with_handle_ok [OF L5(2)])
qed

lemma wait_for_runtime_workers_ok:
  assumes "ledger_ok X L" and "fair X sv" and "\<not> running (core L)"
  obtains L' where "wait_for_runtime_workers sv L = Some (Inr L')" and "ledger_ok X L'" and "moved worker_slots L L'"
    and "inside (gate_of L') = {}" and "\<not> g_iocp (pool (relays_of L'))"
proof -
  obtain L1 where L1: "run_steps [close_thread sv T_Packet, close_slot Windivert, close_thread sv T_Proxy, close_thread sv T_Udp,
      close_thread sv T_Cleanup, with_handle Workers_Done Inr] L = Inr L1" "ledger_ok X L1" "moved worker_slots L L1"
    by (rule join_workers_ok [OF assms])
  have r: "\<not> running (core L1)" using assms(3) L1(3) by (simp add: moved_def)
  obtain L2 where L2: "(if handles L1 Workers_Done = None then Some L1 else wait_workers_done (sv_workers sv) L1) = Some L2"
      "ledger_ok X L2" "moved {} L1 L2"
      "handles L2 Workers_Done \<noteq> None \<longrightarrow> connection_workers_done_event (gate_of L2) = Some True"
  proof (cases "handles L1 Workers_Done = None")
    case True then show thesis using that [of L1] L1(2) by simp
  next
    case False
    obtain L2 where "wait_workers_done (sv_workers sv) L1 = Some L2" "ledger_ok X L2" "moved {} L1 L2"
        "connection_workers_done_event (gate_of L2) = Some True"
      by (rule wait_workers_done_ok [OF L1(2) r False, of "sv_workers sv"]) (use assms(2) in \<open>simp_all add: fair_def\<close>)
    then show thesis using that [of L2] False by simp
  qed
  have "handles L2 T_Proxy = None" using L1(3) L2(3) by (simp add: moved_def worker_slots_def)
  then have i: "inside (gate_of L2) = {}" by (rule nobody_inside [OF L2(2) _ L2(4)])
  have c: "cancels (sv_completions sv)" using assms(2) by (simp add: fair_def)
  obtain L3 where L3: "stop_relay_pool sv L2 = Some (Inr L3)" "ledger_ok X L3" "moved {} L2 L3" "gate_of L3 = gate_of L2"
      "\<not> g_iocp (pool (relays_of L3))"
    by (rule stop_relay_pool_ok [OF L2(2) c])
  have "moved worker_slots L L3" using moved_trans [OF moved_trans [OF L1(3) L2(3)] L3(3)] by simp
  then show ?thesis
    using that [of L3] L1(1) L2(1) L3 i by (simp add: wait_for_runtime_workers_def)
qed

lemma close_lifecycle_events_ok:
  assumes "ledger_ok X L" and "alive_threads L = {}" and "inside (gate_of L) = {}"
  obtains L' where "close_lifecycle_events L = Inr L'" and "ledger_ok X L'" and "moved lifecycle_events L L'"
proof -
  have c: "closable sl {}" for sl by (simp add: closable_def)
  obtain L1 where L1: "close_slot Shutdown L = Inr L1" "ledger_ok X L1" "moved {Shutdown} L L1"
    by (rule close_slot_ok [OF assms(1), of Shutdown]) (use assms(2) c in \<open>auto simp: threads_def\<close>)
  have a1: "alive_threads L1 = {}" using moved_alive [OF assms(1) L1(2,3)] assms(2) by simp
  obtain L2 where L2: "close_slot Proxy_Ready L1 = Inr L2" "ledger_ok X L2" "moved {Proxy_Ready} L1 L2"
    by (rule close_slot_ok [OF L1(2), of Proxy_Ready]) (use a1 c in \<open>auto simp: threads_def\<close>)
  have a2: "alive_threads L2 = {}" using moved_alive [OF L1(2) L2(2,3)] a1 by simp
  obtain L3 where L3: "close_slot Udp_Ready L2 = Inr L3" "ledger_ok X L3" "moved {Udp_Ready} L2 L3"
    by (rule close_slot_ok [OF L2(2), of Udp_Ready]) (use a2 c in \<open>auto simp: threads_def\<close>)
  have a3: "alive_threads L3 = {}" using moved_alive [OF L2(2) L3(2,3)] a2 by simp
  have "gate_of L3 = gate_of L" using L1(1) L2(1) L3(1) by (auto simp: close_slot_def split: option.splits if_splits)
  then have i3: "inside (gate_of L3) = {}" using assms(3) by simp
  obtain L4 where L4: "close_slot Workers_Done L3 = Inr L4" "ledger_ok X L4" "moved {Workers_Done} L3 L4"
    by (rule close_slot_ok [OF L3(2), of Workers_Done]) (use a3 c i3 in \<open>auto simp: threads_def\<close>)
  have "moved lifecycle_events L L4"
    using moved_trans [OF moved_trans [OF moved_trans [OF L1(3) L2(3)] L3(3)] L4(3)]
    by (rule back_subst [where P = "\<lambda>S. moved S L L4"]) (auto simp: lifecycle_events_def)
  then show ?thesis using that [of L4] L1(1) L2(1) L3(1) L4(1,2) by (simp add: close_lifecycle_events_def)
qed

text \<open>Nothing is held and nothing runs; everything is held that a running bridge needs.\<close>

definition idle :: "nat set \<Rightarrow> life \<Rightarrow> bool" where
  "idle X L \<longleftrightarrow> ledger_ok X L \<and> (\<forall>sl. handles L sl = None) \<and> \<not> running (core L)"

definition started :: "nat set \<Rightarrow> life \<Rightarrow> bool" where
  "started X L \<longleftrightarrow> ledger_ok X L \<and> (\<forall>sl. sl \<noteq> T_Udp \<longrightarrow> handles L sl \<noteq> None) \<and> running (core L)"

lemma all_slots: "owner_slots \<union> worker_slots \<union> lifecycle_events = UNIV"
proof (intro set_eqI iffI UNIV_I)
  fix sl show "sl \<in> owner_slots \<union> worker_slots \<union> lifecycle_events"
    by (cases sl) (simp_all add: owner_slots_def worker_slots_def lifecycle_events_def)
qed

lemma threads_joined: "threads \<subseteq> owner_slots \<union> worker_slots"
  by (auto simp: threads_def owner_slots_def worker_slots_def)

text \<open>The two halves of stopping, before the events are closed.\<close>

lemma runtime_stop_ok:
  assumes "ledger_ok X L" and "fair X sv"
  obtains L1 L2 where "request_runtime_stop sv L = Inr L1" and "wait_for_runtime_workers sv L1 = Some (Inr L2)"
    and "ledger_ok X L2" and "moved (owner_slots \<union> worker_slots) (set_running False L) L2" and "alive_threads L2 = {}"
    and "inside (gate_of L2) = {}" and "\<not> g_iocp (pool (relays_of L2))"
    and "handles L Owner_Update \<noteq> None \<longrightarrow> (Owner_Update, alive_threads L - {T_Owner_Socket, T_Owner_Flow}) \<in> set (closings L2)"
proof -
  obtain L1 where L1: "request_runtime_stop sv L = Inr L1" "ledger_ok X L1" "\<not> running (core L1)" "moved owner_slots (set_running False L) L1"
      "handles L Owner_Update \<noteq> None \<longrightarrow> (Owner_Update, alive_threads L - {T_Owner_Socket, T_Owner_Flow}) \<in> set (closings L1)"
    by (rule request_runtime_stop_ok [OF assms])
  obtain L2 where L2: "wait_for_runtime_workers sv L1 = Some (Inr L2)" "ledger_ok X L2" "moved worker_slots L1 L2"
      "inside (gate_of L2) = {}" "\<not> g_iocp (pool (relays_of L2))"
    by (rule wait_for_runtime_workers_ok [OF L1(2) assms(2) L1(3)])
  have m: "moved (owner_slots \<union> worker_slots) (set_running False L) L2" by (rule moved_trans [OF L1(4) L2(3)])
  have "alive_threads L2 = {}"
    using moved_alive [OF ledger_set_running [OF assms(1)] L2(2) m] ledger_alive [OF assms(1)] threads_joined
    by (auto simp: set_running_def)
  then show ?thesis using that [OF L1(1) L2(1,2) m _ L2(4,5)] L1(5) L2(3) by (auto simp: moved_def)
qed

lemma close_all_ok:
  assumes "ledger_ok X L" and "ledger_ok X L2" and "moved (owner_slots \<union> worker_slots) (set_running False L) L2"
    and "alive_threads L2 = {}" and "inside (gate_of L2) = {}"
  obtains L3 where "close_lifecycle_events L2 = Inr L3" and "idle X L3" and "moved UNIV (set_running False L) L3"
proof -
  obtain L3 where L3: "close_lifecycle_events L2 = Inr L3" "ledger_ok X L3" "moved lifecycle_events L2 L3"
    by (rule close_lifecycle_events_ok [OF assms(2,4,5)])
  have m: "moved UNIV (set_running False L) L3" using moved_trans [OF assms(3) L3(3)] all_slots by simp
  then have "idle X L3" using L3(2) by (simp add: idle_def moved_def set_running_def)
  then show ?thesis using that L3(1) m by blast
qed

lemma start_failed_ok:
  assumes "ledger_ok X L" and "fair X sv"
  obtains L' where "start_failed sv L = Some (Inr (False, L'))" and "idle X L'" and "moved UNIV (set_running False L) L'"
proof -
  obtain L1 L2 where L: "request_runtime_stop sv L = Inr L1" "wait_for_runtime_workers sv L1 = Some (Inr L2)" "ledger_ok X L2"
      "moved (owner_slots \<union> worker_slots) (set_running False L) L2" "alive_threads L2 = {}" "inside (gate_of L2) = {}"
    by (rule runtime_stop_ok [OF assms])
  obtain L3 where "close_lifecycle_events L2 = Inr L3" "idle X L3" "moved UNIV (set_running False L) L3"
    by (rule close_all_ok [OF assms(1) L(3-6)])
  then show ?thesis using that [of L3] L(1,2) by (simp add: start_failed_def)
qed

section \<open>Opening\<close>

text \<open>The system returns handles that are not in use.\<close>

definition fresh_handles :: "nat set \<Rightarrow> start_env \<Rightarrow> bool" where
  "fresh_handles X se \<longleftrightarrow> inj_on (se_handle se) (dom (se_handle se)) \<and> ran (se_handle se) \<inter> X = {}"

text \<open>From \<open>L\<close> to \<open>L'\<close> only the slots \<open>S\<close> were filled.\<close>

definition filled :: "slot set \<Rightarrow> life \<Rightarrow> life \<Rightarrow> bool" where
  "filled S L L' \<longleftrightarrow> (\<forall>sl. sl \<notin> S \<longrightarrow> handles L' sl = handles L sl) \<and>
     running (core L') = running (core L) \<and> rules_list (core L') = rules_list (core L)"

lemma filled_trans: "filled S L L1 \<Longrightarrow> filled T L1 L2 \<Longrightarrow> filled (S \<union> T) L L2"
  by (simp add: filled_def)

text \<open>Every slot holds what the system returned for it.\<close>

definition filling :: "nat set \<Rightarrow> start_env \<Rightarrow> life \<Rightarrow> bool" where
  "filling X se L \<longleftrightarrow> ledger_ok X L \<and> handles L \<subseteq>\<^sub>m se_handle se"

lemma filling_upd: "handles L \<subseteq>\<^sub>m se_handle se \<Longrightarrow> (handles L)(sl := se_handle se sl) \<subseteq>\<^sub>m se_handle se"
  by (auto simp: map_le_def dom_def)

lemma fresh_handle:
  assumes "filling X se L" and "fresh_handles X se" and "handles L sl = None" and "se_handle se sl = Some h"
  shows "h \<notin> sys_handles L"
proof
  assume h: "h \<in> sys_handles L"
  have "h \<notin> X" using assms(2,4) by (auto simp: fresh_handles_def ran_def)
  then obtain sl' where sl': "handles L sl' = Some h"
    using h assms(1) by (auto simp: filling_def ledger_ok_def slots_ok_def ran_def)
  then have "se_handle se sl' = Some h" using assms(1) by (force simp: filling_def map_le_def dom_def)
  then have "sl' = sl" using assms(2,4) by (auto simp: fresh_handles_def inj_on_def dom_def)
  then show False using sl' assms(3) by simp
qed

lemma create_event_ok:
  assumes "filling X se L" and "fresh_handles X se" and "handles L sl = None" and "sl \<notin> threads" and "sl = Workers_Done \<Longrightarrow> b"
  shows "filling X se (create_event sl (se_handle se sl) b L)" and "filled {sl} L (create_event sl (se_handle se sl) b L)"
proof -
  let ?L = "create_event sl (se_handle se sl) b L"
  have l: "ledger_ok X L" using assms(1) by (simp add: filling_def)
  have h: "handles ?L = (handles L)(sl := se_handle se sl)" by (simp add: create_event_def open_handle_def)
  have "slots_ok X (open_handle sl (se_handle se sl) L)"
    by (rule slots_open) (use l assms(3) fresh_handle [OF assms(1-3)] in \<open>auto simp: ledger_ok_def\<close>)
  then have "slots_ok X ?L" by (simp add: create_event_def slots_ok_def)
  moreover have "alive_threads ?L = threads \<inter> dom (handles ?L)"
    using ledger_alive [OF l] assms(3,4) by (auto simp: create_event_def open_handle_def)
  moreover have "pkt_inv (core ?L)" "pairs_ok (relays_of ?L)" "gate_running (gate_of ?L) = running (core ?L)"
      "shutdown_event (relays_of ?L) = None \<longleftrightarrow> handles ?L Shutdown = None"
    using l assms(3) by (auto simp: ledger_ok_def create_event_def open_handle_def event_state_gate)
  moreover have "gate_fine (handles ?L T_Proxy \<noteq> None) (handles ?L Workers_Done \<noteq> None) (gate_of ?L)"
  proof (cases "sl = Workers_Done")
    case True
    then show ?thesis
      using ledger_gate [OF l] assms(3,5)
      by (auto simp: create_event_def open_handle_def gate_fine_def gate_ok_def event_exact_def inside_def settling_def)
  next
    case False
    then show ?thesis
      using ledger_gate [OF l] assms(4) by (auto simp: h gate_fine_def create_event_def event_state_gate open_handle_def threads_def)
  qed
  ultimately have "ledger_ok X ?L" by (simp only: ledger_ok_def)
  moreover show f: "filled {sl} L ?L" by (simp add: filled_def create_event_def open_handle_def)
  ultimately show "filling X se ?L" using filling_upd [of L se sl] assms(1) by (simp add: filling_def h)
qed

lemma open_handle_event: "sl \<notin> {Shutdown, Workers_Done} \<Longrightarrow> open_handle sl h L = create_event sl h b L"
  by (cases sl) (simp_all add: create_event_def)

lemma spawn_ok:
  assumes "filling X se L" and "fresh_handles X se" and "handles L sl = None" and "sl \<in> threads" and "\<And>sl. bystander X (se_others se sl)"
  shows "filling X se (spawn se sl L)" and "filled {sl} L (spawn se sl L)"
proof -
  let ?L = "create_thread sl (se_handle se sl) L"
  have l: "ledger_ok X L" using assms(1) by (simp add: filling_def)
  have h: "handles ?L = (handles L)(sl := se_handle se sl)" by (simp add: create_thread_def open_handle_def)
  have "slots_ok X (open_handle sl (se_handle se sl) L)"
    by (rule slots_open) (use l assms(3) fresh_handle [OF assms(1-3)] in \<open>auto simp: ledger_ok_def\<close>)
  then have "slots_ok X ?L" by (simp add: create_thread_def slots_ok_def)
  moreover have "alive_threads ?L = threads \<inter> dom (handles ?L)"
    using ledger_alive [OF l] assms(3,4) by (auto simp: create_thread_def open_handle_def)
  moreover have "gate_fine (handles ?L T_Proxy \<noteq> None) (handles ?L Workers_Done \<noteq> None) (gate_of ?L)"
    using ledger_gate [OF l] assms(3,4) by (auto simp: h gate_fine_def create_thread_def open_handle_def threads_def)
  moreover have "pkt_inv (core ?L)" "pairs_ok (relays_of ?L)" "gate_running (gate_of ?L) = running (core ?L)"
      "shutdown_event (relays_of ?L) = None \<longleftrightarrow> handles ?L Shutdown = None"
    using l assms(3,4) by (auto simp: ledger_ok_def create_thread_def open_handle_def threads_def)
  ultimately have c: "ledger_ok X ?L" by (simp only: ledger_ok_def)
  have f: "filled {sl} L ?L" by (simp add: filled_def create_thread_def open_handle_def)
  show "filled {sl} L (spawn se sl L)"
    using f assms(5) [of sl] c by (auto simp: spawn_def Let_def bystander_def moved_def filled_def)
  have "ledger_ok X (spawn se sl L)" "handles (spawn se sl L) = handles ?L"
    using c assms(5) [of sl] by (auto simp: spawn_def Let_def bystander_def moved_def)
  then show "filling X se (spawn se sl L)" using filling_upd [of L se sl] assms(1) by (simp add: filling_def h)
qed

text \<open>A step of the start: it fills the slots \<open>S\<close> if it succeeds, and keeps the ledger if it does not.\<close>

definition step_ok :: "nat set \<Rightarrow> start_env \<Rightarrow> slot set \<Rightarrow> slot set \<Rightarrow> life \<Rightarrow> bool \<times> life \<Rightarrow> bool" where
  "step_ok X se S needed L = (\<lambda>(ok, L'). ledger_ok X L' \<and> running (core L') = running (core L) \<and>
     rules_list (core L') = rules_list (core L) \<and>
     (ok \<longrightarrow> filling X se L' \<and> filled S L L' \<and> (\<forall>sl \<in> needed. handles L' sl \<noteq> None)))"

lemma step_okI:
  "filling X se L' \<Longrightarrow> filled S L L' \<Longrightarrow> (ok \<Longrightarrow> \<forall>sl \<in> needed. handles L' sl \<noteq> None) \<Longrightarrow> step_ok X se S needed L (ok, L')"
  by (simp add: step_ok_def filling_def filled_def)

lemma step_ok_moved:
  "filled S L L1 \<Longrightarrow> moved T L1 L2 \<Longrightarrow> ledger_ok X L2 \<Longrightarrow> step_ok X se U needed L (False, L2)"
  by (simp add: step_ok_def filled_def moved_def)

lemma step_ok_trans:
  assumes "step_ok X se S N L (True, L1)" and "step_ok X se T M L1 r" and "N \<inter> T = {}"
  shows "step_ok X se (S \<union> T) (N \<union> M) L r"
proof -
  have "handles L1 sl = handles (snd r) sl" if "sl \<in> N" "fst r" for sl
    using assms(2,3) that by (auto simp: step_ok_def filled_def)
  then show ?thesis
    using assms(1,2) filled_trans [of S L L1 T "snd r"] by (auto simp: step_ok_def)
qed

lemma start_owner_observers_ok:
  assumes "filling X se L" and "fresh_handles X se" and "\<forall>sl \<in> owner_slots. handles L sl = None"
    and "\<And>sl. bystander X (se_others se sl)" and "\<And>sl. bystander X (sv_wait (se_stop se) sl)"
  obtains ok L' where "start_owner_observers se L = Inr (ok, L')" and "step_ok X se owner_slots owner_slots L (ok, L')"
proof -
  let ?L1 = "create_event Owner_Update (se_handle se Owner_Update) False L"
  let ?L2 = "open_handle Owner_Socket (se_handle se Owner_Socket) ?L1"
  let ?L3 = "open_handle Owner_Flow (se_handle se Owner_Flow) ?L2"
  let ?L4 = "spawn se T_Owner_Flow (spawn se T_Owner_Socket ?L3)"
  have n: "handles L Owner_Update = None" "handles L Owner_Socket = None" "handles L Owner_Flow = None"
      "handles L T_Owner_Socket = None" "handles L T_Owner_Flow = None"
    using assms(3) by (simp_all add: owner_slots_def)
  have 1: "filling X se ?L1" "filled {Owner_Update} L ?L1"
    by (rule create_event_ok [OF assms(1,2) n(1)]; simp add: threads_def)+
  have 2: "filling X se ?L2" "filled {Owner_Socket} ?L1 ?L2"
    unfolding open_handle_event [of Owner_Socket _ _ False, simplified]
    by (rule create_event_ok [OF 1(1) assms(2)]; use n 1(2) in \<open>simp add: threads_def filled_def\<close>)+
  have f2: "filled {Owner_Update, Owner_Socket} L ?L2" using filled_trans [OF 1(2) 2(2)] by (simp add: insert_commute)
  have 3: "filling X se ?L3" "filled {Owner_Flow} ?L2 ?L3"
    unfolding open_handle_event [of Owner_Flow _ _ False, simplified]
    by (rule create_event_ok [OF 2(1) assms(2)]; use n f2 in \<open>simp add: threads_def filled_def\<close>)+
  have f3: "filled {Owner_Update, Owner_Socket, Owner_Flow} L ?L3" using filled_trans [OF f2 3(2)] by (simp add: insert_commute)
  have 4: "filling X se (spawn se T_Owner_Socket ?L3)" "filled {T_Owner_Socket} ?L3 (spawn se T_Owner_Socket ?L3)"
    by (rule spawn_ok [OF 3(1) assms(2) _ _ assms(4)]; use n f3 in \<open>simp add: threads_def filled_def\<close>)+
  have f4: "filled {Owner_Update, Owner_Socket, Owner_Flow, T_Owner_Socket} L (spawn se T_Owner_Socket ?L3)"
    using filled_trans [OF f3 4(2)] by (simp add: insert_commute)
  have 5: "filling X se ?L4" "filled {T_Owner_Flow} (spawn se T_Owner_Socket ?L3) ?L4"
    by (rule spawn_ok [OF 4(1) assms(2) _ _ assms(4)]; use n f4 in \<open>simp add: threads_def filled_def\<close>)+
  have f5: "filled owner_slots L ?L4"
    using filled_trans [OF f4 5(2)] by (rule back_subst [where P = "\<lambda>S. filled S L ?L4"]) (auto simp: owner_slots_def)
  have undo: "\<exists>L'. and_then (stop_owner_observers (se_stop se) M) (\<lambda>L1. Inr (False, L1)) = Inr (False, L') \<and>
      step_ok X se owner_slots owner_slots L (False, L')" if "filling X se M" "filled S L M" for S M
  proof -
    have "ledger_ok X M" using that(1) by (simp add: filling_def)
    then obtain L' where "stop_owner_observers (se_stop se) M = Inr L'" "ledger_ok X L'" "moved owner_slots M L'"
      by (rule stop_owner_observers_ok [OF _ assms(5)])
    then show ?thesis using step_ok_moved [OF that(2)] by auto
  qed
  let ?U = "\<lambda>M. and_then (stop_owner_observers (se_stop se) M) (\<lambda>L1. Inr (False, L1))"
  have eq: "start_owner_observers se L =
      (if handles ?L1 Owner_Update = None then Inr (False, ?L1) else if handles ?L2 Owner_Socket = None then ?U ?L2
       else if handles ?L3 Owner_Flow = None then ?U ?L3
       else if handles ?L4 T_Owner_Socket = None \<or> handles ?L4 T_Owner_Flow = None then ?U ?L4 else Inr (True, ?L4))"
    by (simp only: start_owner_observers_def Let_def)
  have l1: "ledger_ok X ?L1" using 1(1) by (simp add: filling_def)
  note f1 = step_ok_moved [OF 1(2) moved_refl l1, of se owner_slots owner_slots]
  consider (update) "handles ?L1 Owner_Update = None"
    | (socket) "handles ?L1 Owner_Update \<noteq> None" "handles ?L2 Owner_Socket = None"
    | (flow) "handles ?L1 Owner_Update \<noteq> None" "handles ?L2 Owner_Socket \<noteq> None" "handles ?L3 Owner_Flow = None"
    | (threads) "handles ?L1 Owner_Update \<noteq> None" "handles ?L2 Owner_Socket \<noteq> None" "handles ?L3 Owner_Flow \<noteq> None"
        "handles ?L4 T_Owner_Socket = None \<or> handles ?L4 T_Owner_Flow = None"
    | (all) "handles ?L1 Owner_Update \<noteq> None" "handles ?L2 Owner_Socket \<noteq> None" "handles ?L3 Owner_Flow \<noteq> None"
        "\<not> (handles ?L4 T_Owner_Socket = None \<or> handles ?L4 T_Owner_Flow = None)"
    by argo
  then show ?thesis
  proof cases
    case update
    then show ?thesis by (intro that [OF _ f1]) (simp only: eq simp_thms if_True)
  next
    case socket
    then show ?thesis using undo [OF 2(1) f2] that by (simp only: eq simp_thms if_True if_False) metis
  next
    case flow
    then show ?thesis using undo [OF 3(1) f3] that by (simp only: eq simp_thms if_True if_False) metis
  next
    case threads
    then show ?thesis using undo [OF 5(1) f5] that by (simp only: eq simp_thms if_True if_False) metis
  next
    case all
    have "handles ?L4 Owner_Update = handles ?L1 Owner_Update" "handles ?L4 Owner_Socket = handles ?L2 Owner_Socket"
        "handles ?L4 Owner_Flow = handles ?L3 Owner_Flow"
      using 2(2) 3(2) 4(2) 5(2) by (simp_all only: filled_def) simp_all
    then have "\<forall>sl \<in> owner_slots. handles ?L4 sl \<noteq> None" using all by (simp only: owner_slots_def ball_simps de_Morgan_disj simp_thms)
    then show ?thesis
      using all by (intro that [OF _ step_okI [OF 5(1) f5, of True]]) (simp_all only: eq simp_thms if_False)
  qed
qed

lemma filling_status [simp]:
  "filling X se (L\<lparr>proxy_start_status := n\<rparr>) = filling X se L" "filling X se (L\<lparr>udp_relay_start_status := n\<rparr>) = filling X se L"
  "filling X se (L\<lparr>divert_filter := t\<rparr>) = filling X se L"
  by (simp_all add: filling_def ledger_ok_def slots_ok_def)

lemma filled_status [simp]:
  "filled S L (L'\<lparr>proxy_start_status := n\<rparr>) = filled S L L'" "filled S L (L'\<lparr>udp_relay_start_status := n\<rparr>) = filled S L L'"
  "filled S (L\<lparr>divert_filter := t\<rparr>) L' = filled S L L'"
  by (simp_all add: filled_def)

lemma start_steps_ok:
  assumes "filling X se L" and "fresh_handles X se" and "\<And>sl. bystander X (se_others se sl)"
  shows "handles L T_Proxy = None \<Longrightarrow> step_ok X se {T_Proxy} {T_Proxy} L (start_proxy se L)"
    and "handles L T_Udp = None \<Longrightarrow> step_ok X se {T_Udp} {} L (start_udp_relay se L)"
    and "handles L T_Cleanup = None \<Longrightarrow> step_ok X se {T_Cleanup} {T_Cleanup} L (start_cleanup se L)"
    and "handles L Windivert = None \<Longrightarrow> step_ok X se {Windivert} {Windivert} L (open_divert se L)"
    and "handles L T_Packet = None \<Longrightarrow> step_ok X se {T_Packet} {T_Packet} L (start_packets se L)"
proof -
  note sp = spawn_ok [OF assms(1,2) _ _ assms(3)]
  show "step_ok X se {T_Proxy} {T_Proxy} L (start_proxy se L)" if "handles L T_Proxy = None"
    using sp [OF that] by (auto simp: start_proxy_def Let_def threads_def intro!: step_okI)
  show "step_ok X se {T_Udp} {} L (start_udp_relay se L)" if "handles L T_Udp = None"
    using sp [OF that] assms(1) by (auto simp: start_udp_relay_def Let_def threads_def filled_def intro!: step_okI)
  show "step_ok X se {T_Cleanup} {T_Cleanup} L (start_cleanup se L)" if "handles L T_Cleanup = None"
    using sp [OF that] by (auto simp: start_cleanup_def Let_def threads_def intro!: step_okI)
  show "step_ok X se {T_Packet} {T_Packet} L (start_packets se L)" if "handles L T_Packet = None"
    using sp [OF that] by (auto simp: start_packets_def Let_def threads_def intro!: step_okI)
  let ?L = "L\<lparr>divert_filter := filter_text (g_local_relay_port (core L))\<rparr>"
  show "step_ok X se {Windivert} {Windivert} L (open_divert se L)" if "handles L Windivert = None"
    using create_event_ok [of X se ?L Windivert False] assms(1,2) that open_handle_event [of Windivert _ ?L False]
    by (auto simp: open_divert_def Let_def threads_def intro!: step_okI)
qed

lemma try_step:
  assumes "step_ok X se S N L (f L)" and "\<And>L1. f L = (True, L1) \<Longrightarrow> step_ok X se T M L1 (try_steps fs L1)" and "N \<inter> T = {}"
  shows "step_ok X se (S \<union> T) (N \<union> M) L (try_steps (f # fs) L)"
proof (cases "f L")
  case (Pair ok L1)
  show ?thesis
  proof (cases ok)
    case True
    then show ?thesis using step_ok_trans [of X se S N L L1 T M "try_steps fs L1"] assms Pair by simp
  qed (use assms(1) Pair in \<open>simp add: step_ok_def\<close>)
qed

lemma step_ok_input:
  "step_ok X se S N L (True, L1) \<Longrightarrow> filling X se L1 \<and> (\<forall>sl. sl \<notin> S \<longrightarrow> handles L1 sl = handles L sl)"
  by (simp add: step_ok_def filled_def)

lemma try_steps_ok:
  assumes "\<And>f sl M. (f, sl) \<in> set steps \<Longrightarrow> filling X se M \<Longrightarrow> handles M sl = None \<Longrightarrow> step_ok X se {sl} ({sl} - {T_Udp}) M (f M)"
    and "distinct (map snd steps)" and "\<forall>sl \<in> snd ` set steps. handles L sl = None" and "filling X se L"
  shows "step_ok X se (snd ` set steps) (snd ` set steps - {T_Udp}) L (try_steps (map fst steps) L)"
  using assms
proof (induction steps arbitrary: L)
  case Nil
  then show ?case by (simp add: step_ok_def filling_def filled_def)
next
  case (Cons st steps)
  obtain f sl where st: "st = (f, sl)" by force
  have s: "step_ok X se {sl} ({sl} - {T_Udp}) L (f L)" using Cons.prems by (simp add: st)
  have "step_ok X se (snd ` set steps) (snd ` set steps - {T_Udp}) L1 (try_steps (map fst steps) L1)" if "f L = (True, L1)" for L1
  proof (rule Cons.IH)
    have "filling X se L1 \<and> (\<forall>sl'. sl' \<notin> {sl} \<longrightarrow> handles L1 sl' = handles L sl')" using s that by (intro step_ok_input) simp
    then show "filling X se L1" "\<forall>sl \<in> snd ` set steps. handles L1 sl = None"
      using Cons.prems(2,3) by (simp, fastforce simp: st image_iff)
  qed (use Cons.prems(1,2) in auto)
  moreover have "({sl} - {T_Udp}) \<inter> snd ` set steps = {}" using Cons.prems(2) by (auto simp: st)
  ultimately have "step_ok X se ({sl} \<union> snd ` set steps) (({sl} - {T_Udp}) \<union> (snd ` set steps - {T_Udp})) L
      (try_steps (f # map fst steps) L)"
    by (rule try_step [where f = f, OF s])
  moreover have "({sl} - {T_Udp}) \<union> (snd ` set steps - {T_Udp}) = insert sl (snd ` set steps) - {T_Udp}" by blast
  ultimately show ?case by (simp add: st del: try_steps.simps)
qed

lemma try_start_ok:
  assumes "filling X se L" and "fresh_handles X se" and "\<And>sl. bystander X (se_others se sl)"
    and "\<forall>sl \<in> worker_slots. handles L sl = None"
  shows "step_ok X se worker_slots (worker_slots - {T_Udp}) L
     (try_steps [start_proxy se, start_udp_relay se, start_cleanup se, open_divert se, start_packets se] L)"
proof -
  let ?steps = "[(start_proxy se, T_Proxy), (start_udp_relay se, T_Udp), (start_cleanup se, T_Cleanup), (open_divert se, Windivert),
    (start_packets se, T_Packet)]"
  have w: "snd ` set ?steps = worker_slots" by (auto simp: worker_slots_def)
  have "step_ok X se (snd ` set ?steps) (snd ` set ?steps - {T_Udp}) L (try_steps (map fst ?steps) L)"
  proof (rule try_steps_ok)
    show "step_ok X se {sl} ({sl} - {T_Udp}) M (f M)"
      if "(f, sl) \<in> set ?steps" "filling X se M" "handles M sl = None" for f sl M
      using that start_steps_ok [OF that(2) assms(2,3)] by auto
  qed (use assms(1,4) w in auto)
  then show ?thesis unfolding w by (simp del: try_steps.simps)
qed

section \<open>Starting\<close>

lemma close_slot_core: "close_slot sl L = Inr L' \<Longrightarrow> core L' = core L"
  by (auto simp: close_slot_def split: option.splits if_splits)

lemma close_lifecycle_events_core: "close_lifecycle_events L = Inr L' \<Longrightarrow> core L' = core L"
  by (auto simp: close_lifecycle_events_def and_then_Inr dest!: close_slot_core)

lemma create_lifecycle_events_ok:
  assumes "ledger_ok X L" and "\<forall>sl. handles L sl = None" and "fresh_handles X se"
  obtains ok L' where "create_lifecycle_events se L = Inr (ok, L')" and "ledger_ok X L'" and "core L' = core L"
    and "ok \<longrightarrow> filling X se L' \<and> filled lifecycle_events L L' \<and> (\<forall>sl \<in> lifecycle_events. handles L' sl \<noteq> None)"
    and "\<not> ok \<longrightarrow> (\<forall>sl. handles L' sl = None)"
proof -
  let ?L1 = "create_event Shutdown (se_handle se Shutdown) False L"
  let ?L2 = "create_event Proxy_Ready (se_handle se Proxy_Ready) False ?L1"
  let ?L3 = "create_event Udp_Ready (se_handle se Udp_Ready) False ?L2"
  let ?L4 = "create_event Workers_Done (se_handle se Workers_Done) True ?L3"
  let ?none = "handles ?L4 Shutdown = None \<or> handles ?L4 Proxy_Ready = None \<or> handles ?L4 Udp_Ready = None \<or> handles ?L4 Workers_Done = None"
  have f0: "filling X se L" using assms(1,2) by (simp add: filling_def map_le_def dom_def)
  have 1: "filling X se ?L1" "filled {Shutdown} L ?L1"
    by (rule create_event_ok [OF f0 assms(3)]; use assms(2) in \<open>simp add: threads_def\<close>)+
  have 2: "filling X se ?L2" "filled {Proxy_Ready} ?L1 ?L2"
    by (rule create_event_ok [OF 1(1) assms(3)]; use assms(2) 1(2) in \<open>simp add: threads_def filled_def\<close>)+
  have 3: "filling X se ?L3" "filled {Udp_Ready} ?L2 ?L3"
    by (rule create_event_ok [OF 2(1) assms(3)]; use assms(2) 1(2) 2(2) in \<open>simp add: threads_def filled_def\<close>)+
  have 4: "filling X se ?L4" "filled {Workers_Done} ?L3 ?L4"
    by (rule create_event_ok [OF 3(1) assms(3)]; use assms(2) 1(2) 2(2) 3(2) in \<open>simp add: threads_def filled_def\<close>)+
  have f: "filled lifecycle_events L ?L4"
    using filled_trans [OF filled_trans [OF filled_trans [OF 1(2) 2(2)] 3(2)] 4(2)]
    by (rule back_subst [where P = "\<lambda>S. filled S L ?L4"]) (auto simp: lifecycle_events_def)
  have l4: "ledger_ok X ?L4" using 4(1) by (simp add: filling_def)
  have c: "core ?L4 = core L" by (simp add: create_event_def open_handle_def)
  have n: "handles ?L4 sl = None" if "sl \<notin> lifecycle_events" for sl using f assms(2) that by (simp only: filled_def) simp
  have a: "alive_threads ?L4 = {}" using ledger_alive [OF l4] n by (auto simp: threads_def lifecycle_events_def)
  have i: "inside (gate_of ?L4) = {}"
  proof -
    have "inside (gate_of ?L4) = inside (gate_of L)"
      by (simp add: create_event_def open_handle_def event_state_gate inside_def)
    then show ?thesis using ledger_gate [OF assms(1)] assms(2) by (simp add: gate_fine_def)
  qed
  have eq: "create_lifecycle_events se L = (if ?none then and_then (close_lifecycle_events ?L4) (\<lambda>L2. Inr (False, L2))
      else Inr (True, ?L4\<lparr>proxy_start_status := 0, udp_relay_start_status := 0,
             gate_of := (gate_of ?L4)\<lparr>active_connection_workers := 0\<rparr>\<rparr>))"
    by (simp only: create_lifecycle_events_def Let_def)
  show ?thesis
  proof (cases ?none)
    case True
    obtain L5 where L5: "close_lifecycle_events ?L4 = Inr L5" "ledger_ok X L5" "moved lifecycle_events ?L4 L5"
      by (rule close_lifecycle_events_ok [OF l4 a i])
    have "create_lifecycle_events se L = Inr (False, L5)" using True L5(1) by (simp only: eq if_True and_then_simps)
    moreover have "handles L5 sl = None" for sl using L5(3) n [of sl] by (simp only: moved_def split: if_split) simp
    moreover have "core L5 = core ?L4" by (rule close_lifecycle_events_core [OF L5(1)])
    ultimately show ?thesis using that [of False L5] L5(2) c by simp
  next
    case False
    have "handles ?L4 Workers_Done \<noteq> None" using False by blast
    then have "gate_ok (gate_of ?L4)" by (rule ledger_gate_ok [OF l4])
    then have z: "(gate_of ?L4)\<lparr>active_connection_workers := 0\<rparr> = gate_of ?L4" using gate_ok_empty [OF _ i] by simp
    let ?L5 = "?L4\<lparr>proxy_start_status := 0, udp_relay_start_status := 0\<rparr>"
    have "create_lifecycle_events se L = Inr (True, ?L5)" using False by (simp only: eq if_False z) simp
    moreover have "\<forall>sl \<in> lifecycle_events. handles ?L4 sl \<noteq> None"
      using False by (simp only: lifecycle_events_def ball_simps de_Morgan_disj simp_thms)
    moreover have "filling X se ?L5" "filled lifecycle_events L ?L5" using 4(1) f by simp_all
    ultimately show ?thesis using that [of True ?L5] c by (simp add: filling_def)
  qed
qed

lemma pool_start_ok: "pairs_ok r \<Longrightarrow> pairs_ok (r\<lparr>pool := snd (relay_pool_start ps (pool r))\<rparr>)"
proof -
  assume ok: "pairs_ok r"
  let ?pl = "snd (relay_pool_start ps (pool r))"
  have s: "sys_open ?pl = sys_open (pool r)" "relay_heap ?pl = relay_heap (pool r)"
    by (simp_all add: relay_pool_start_def Let_def)
  have "pool_ok {} ?pl" by (rule relay_step_inv [OF relay_step.pool_starts pairs_ok_pool_ok [OF ok]])
  then show ?thesis by (rule pairs_ok_pool [OF ok]) (use pairs_okD(3) [OF ok] pairs_ok_apart(2) [OF ok] s in simp_all)
qed

lemma pkt_inv_prepare:
  assumes "pkt_inv s"
  shows "pkt_inv (prepare_start os s)" "pkt_inv (update_has_active_rules os s)"
proof -
  have f: "pkt_inv (flush_dns_resolver_cache os s) = pkt_inv s" for s
    by (simp add: flush_dns_resolver_cache_def pkt_inv_def conn_inv_def ports_inv_def port_bits dns_inv_def)
  have g: "pkt_inv (s\<lparr>g_has_active_rules := b\<rparr>) = pkt_inv s" "pkt_inv (s\<lparr>g_has_domain_rules := b\<rparr>) = pkt_inv s" for s b
    by (simp_all add: pkt_inv_def conn_inv_def ports_inv_def port_bits dns_inv_def)
  have d: "pkt_inv (dns_cache_init s)" if "pkt_inv s" for s
    using that by (simp add: dns_cache_init_def pkt_inv_def conn_inv_def ports_inv_def port_bits dns_inv_def chain_inv_def empty_table_def)
  show "pkt_inv (prepare_start os s)" "pkt_inv (update_has_active_rules os s)"
    using assms d [of "invalidate_udp_decisions s"] by (simp_all add: f g prepare_start_def update_has_active_rules_def Let_def)
qed

lemma ledger_core: "ledger_ok X L \<Longrightarrow> pkt_inv s \<Longrightarrow> running s = running (core L) \<Longrightarrow> ledger_ok X (L\<lparr>core := s\<rparr>)"
  by (simp add: ledger_ok_def slots_ok_def)

lemma core_switches [simp]:
  "running (flush_dns_resolver_cache os s) = running s" "rules_list (flush_dns_resolver_cache os s) = rules_list s"
  "running (prepare_start os s) = running s" "rules_list (prepare_start os s) = rules_list s"
  "running (update_has_active_rules os s) = running s"
  by (simp_all add: prepare_start_def flush_dns_resolver_cache_def dns_cache_init_def invalidate_udp_decisions_def update_has_active_rules_def Let_def)

lemma start_workers_ok:
  assumes "filling X se L" and "fresh_handles X se" and "\<And>sl. bystander X (se_others se sl)" and "fair X (se_stop se)"
    and "\<forall>sl. sl \<notin> lifecycle_events \<longrightarrow> handles L sl = None"
  obtains ok L' where "start_workers se L = Inr (ok, L')"
    and "step_ok X se (owner_slots \<union> worker_slots) (owner_slots \<union> (worker_slots - {T_Udp})) L (ok, L')"
proof -
  have b: "bystander X (sv_wait (se_stop se) sl)" for sl using assms(4) by (simp add: fair_def)
  have n: "\<forall>sl \<in> owner_slots. handles L sl = None" "\<forall>sl \<in> worker_slots. handles L sl = None"
    using assms(5) by (auto simp: owner_slots_def worker_slots_def lifecycle_events_def)
  obtain ok L1 where 1: "start_owner_observers se L = Inr (ok, L1)" "step_ok X se owner_slots owner_slots L (ok, L1)"
    by (rule start_owner_observers_ok [OF assms(1,2) n(1) assms(3) b])
  show ?thesis
  proof (cases ok)
    case False
    then show ?thesis using that [of False L1] 1 by (simp add: start_workers_def step_ok_def)
  next
    case True
    let ?r = "try_steps [start_proxy se, start_udp_relay se, start_cleanup se, open_divert se, start_packets se] L1"
    have i: "filling X se L1" "\<forall>sl. sl \<notin> owner_slots \<longrightarrow> handles L1 sl = handles L sl"
      using 1(2) True step_ok_input [of X se owner_slots owner_slots L L1] by simp_all
    have d: "owner_slots \<inter> worker_slots = {}" by (simp add: owner_slots_def worker_slots_def)
    have "handles L1 sl = None" if "sl \<in> worker_slots" for sl
      using i(2) n(2) d that disjoint_iff [of owner_slots worker_slots] by metis
    then have "\<forall>sl \<in> worker_slots. handles L1 sl = None" by blast
    then have w: "step_ok X se worker_slots (worker_slots - {T_Udp}) L1 ?r" by (rule try_start_ok [OF i(1) assms(2,3)])
    have "step_ok X se owner_slots owner_slots L (True, L1)" using 1(2) True by simp
    then have "step_ok X se (owner_slots \<union> worker_slots) (owner_slots \<union> (worker_slots - {T_Udp})) L ?r"
      by (rule step_ok_trans [OF _ w d])
    moreover have "start_workers se L = Inr ?r" using 1(1) True by (simp add: start_workers_def del: try_steps.simps)
    ultimately show ?thesis using that [of "fst ?r" "snd ?r"] by simp
  qed
qed

lemma start_ok:
  assumes "idle X L" and "fresh_handles X se" and "\<And>sl. bystander X (se_others se sl)" and "fair X (se_stop se)"
  obtains ok L' where "ProxyBridge_Start se L = Some (Inr (ok, L'))" and "if ok then started X L' else idle X L'"
    and "rules_list (core L') = rules_list (core L)"
proof -
  let ?L0 = "on_core (prepare_start (se_os se)) L"
  have l: "ledger_ok X L" "\<forall>sl. handles L sl = None" "\<not> running (core L)" using assms(1) by (simp_all add: idle_def)
  have "pkt_inv (prepare_start (se_os se) (core L))" using l(1) pkt_inv_prepare by (simp add: ledger_ok_def)
  then have l0: "ledger_ok X ?L0" using ledger_core [OF l(1)] by (simp add: on_core_def)
  have h0: "\<forall>sl. handles ?L0 sl = None" using l(2) by (simp add: on_core_def)
  obtain created L1 where 1: "create_lifecycle_events se ?L0 = Inr (created, L1)" "ledger_ok X L1" "core L1 = core ?L0"
      "created \<longrightarrow> filling X se L1 \<and> filled lifecycle_events ?L0 L1 \<and> (\<forall>sl \<in> lifecycle_events. handles L1 sl \<noteq> None)"
      "\<not> created \<longrightarrow> (\<forall>sl. handles L1 sl = None)"
    by (rule create_lifecycle_events_ok [OF l0 h0 assms(2)])
  have rl: "rules_list (core L1) = rules_list (core L)" "running (core L1) = running (core L)" using 1(3) by (simp_all add: on_core_def)
  show ?thesis
  proof (cases created)
    case False
    then have "ProxyBridge_Start se L = Some (Inr (False, L1))" using 1(1) l(3) by (simp add: ProxyBridge_Start_def Let_def)
    moreover have "idle X L1" using 1(2,5) False rl l(3) by (simp add: idle_def)
    ultimately show ?thesis using that [of False L1] rl by simp
  next
    case created: True
    let ?L2 = "set_running True L1"
    let ?L3 = "?L2\<lparr>relays_of := (relays_of ?L2)\<lparr>pool := snd (relay_pool_start (se_pool se) (pool (relays_of ?L2)))\<rparr>\<rparr>"
    have l2: "ledger_ok X ?L2" by (rule ledger_set_running [OF 1(2)])
    then have "ledger_ok X ?L3" using ledger_relays [OF l2 pool_start_ok] by (simp add: ledger_ok_def)
    then have f3: "filling X se ?L3" using 1(4) created by (simp add: filling_def set_running_def)
    have n3: "\<forall>sl. sl \<notin> lifecycle_events \<longrightarrow> handles ?L3 sl = None" using 1(4) created h0 by (simp add: filled_def set_running_def)
    obtain ok L4 where 4: "start_workers se ?L3 = Inr (ok, L4)"
        "step_ok X se (owner_slots \<union> worker_slots) (owner_slots \<union> (worker_slots - {T_Udp})) ?L3 (ok, L4)"
      by (rule start_workers_ok [OF f3 assms(2-4) n3])
    have r4: "running (core L4)" "rules_list (core L4) = rules_list (core L)" "ledger_ok X L4"
      using 4(2) rl by (simp_all add: step_ok_def set_running_def)
    have st: "ProxyBridge_Start se L = (if ok then Some (Inr (True, on_core (update_has_active_rules (se_os se)) L4)) else start_failed (se_stop se) L4)"
      using 1(1) 4(1) created l(3) by (simp add: ProxyBridge_Start_def Let_def)
    show ?thesis
    proof (cases ok)
      case False
      obtain L5 where "start_failed (se_stop se) L4 = Some (Inr (False, L5))" "idle X L5" "moved UNIV (set_running False L4) L5"
        by (rule start_failed_ok [OF r4(3) assms(4)])
      then show ?thesis using that [of False L5] st False r4(2) by (simp add: moved_def set_running_def)
    next
      case ok: True
      let ?L5 = "on_core (update_has_active_rules (se_os se)) L4"
      have "pkt_inv (core L4)" using r4(3) by (simp add: ledger_ok_def)
      then have "ledger_ok X ?L5"
        using ledger_core [OF r4(3) pkt_inv_prepare(2)] by (simp add: on_core_def)
      moreover have "handles L4 sl \<noteq> None" if "sl \<noteq> T_Udp" for sl
      proof (cases "sl \<in> lifecycle_events")
        case True
        then have "sl \<notin> owner_slots \<union> worker_slots" by (auto simp: lifecycle_events_def owner_slots_def worker_slots_def)
        then have "handles L4 sl = handles L1 sl" using 4(2) ok by (simp add: step_ok_def filled_def set_running_def)
        then show ?thesis using 1(4) created True by simp
      next
        case False
        then have "sl \<in> owner_slots \<union> (worker_slots - {T_Udp})" using all_slots that by blast
        then show ?thesis using 4(2) ok by (auto simp: step_ok_def)
      qed
      ultimately have "started X ?L5" using r4(1) by (simp add: started_def on_core_def)
      then show ?thesis using that [of True ?L5] st ok r4(2) by (simp add: on_core_def)
    qed
  qed
qed

section \<open>Forgetting\<close>

lemma free_bucket_eq:
  "free_bucket i s = s\<lparr>conn_heap := (\<lambda>a. if a \<in> set (connection_hash_table s i) then None else conn_heap s a),
     connection_hash_table := (connection_hash_table s)(i := [])\<rparr>"
proof -
  have "fold (\<lambda>a s. s\<lparr>conn_heap := (conn_heap s)(a := None)\<rparr>) as t =
      t\<lparr>conn_heap := (\<lambda>a. if a \<in> set as then None else conn_heap t a)\<rparr>" for as and t :: pb
    by (induction as arbitrary: t) (auto simp: fun_eq_iff intro!: pb.equality)
  then show ?thesis by (simp add: free_bucket_def)
qed

lemma free_buckets_eq:
  "fold free_bucket [0..<n] s = s\<lparr>conn_heap := (\<lambda>a. if \<exists>i < n. a \<in> set (connection_hash_table s i) then None else conn_heap s a),
     connection_hash_table := (\<lambda>i. if i < n then [] else connection_hash_table s i)\<rparr>"
proof (induction n)
  case (Suc n)
  have "fold free_bucket [0..<Suc n] s = free_bucket n (fold free_bucket [0..<n] s)" by simp
  also have "\<dots> = s\<lparr>conn_heap := (\<lambda>a. if \<exists>i < Suc n. a \<in> set (connection_hash_table s i) then None else conn_heap s a),
      connection_hash_table := (\<lambda>i. if i < Suc n then [] else connection_hash_table s i)\<rparr>"
    unfolding Suc by (simp add: free_bucket_eq) (auto simp: fun_eq_iff less_Suc_eq intro!: pb.equality)
  finally show ?case .
qed simp

lemma rev_bucket_lt: "rev_bucket_of c < CONNECTION_HASH_SIZE"
  by (simp add: rev_bucket_of_def rev_hash_v4_def rev_hash_v6_def)

lemma free_connections_eq:
  assumes "conn_inv s"
  shows "free_connections s = s\<lparr>conn_heap := Map.empty, connection_hash_table := (\<lambda>_. []), connection_rev_table := (\<lambda>_. [])\<rparr>"
proof -
  have t: "tables_ok (conn_heap s) (connection_hash_table s) (connection_rev_table s)" using assms by (simp add: conn_inv_def)
  have F: "a \<in> set (connection_hash_table s i) \<longleftrightarrow> (\<exists>c. conn_heap s a = Some c \<and> conn_bucket (c_src_port c) = i)"
    and R: "a \<in> set (connection_rev_table s i) \<longleftrightarrow> (\<exists>c. conn_heap s a = Some c \<and> rev_bucket_of c = i)" for a i
    using t by (simp_all add: tables_ok_def)
  have h: "(if \<exists>i < CONNECTION_HASH_SIZE. a \<in> set (connection_hash_table s i) then None else conn_heap s a) = None" for a
    using F conn_bucket_lt by (cases "conn_heap s a") auto
  have f: "(if i < CONNECTION_HASH_SIZE then [] else connection_hash_table s i) = []" for i
    using F [of _ i] conn_bucket_lt by (cases "connection_hash_table s i") fastforce+
  have r: "(if i < CONNECTION_HASH_SIZE then [] else connection_rev_table s i) = []" for i
    using R [of _ i] rev_bucket_lt by (cases "connection_rev_table s i") fastforce+
  show ?thesis by (simp add: free_connections_def free_buckets_eq Let_def h f) (simp add: r cong: if_cong)
qed

text \<open>What is left of a run: no flow, no decision, no owner, no log.\<close>

definition forgotten :: "pb \<Rightarrow> bool" where
  "forgotten s \<longleftrightarrow> conn_heap s = Map.empty \<and> (\<forall>k. connection_of s k = None) \<and> (\<forall>p. \<not> port_is_decided s p \<and> \<not> port_is_direct s p) \<and>
     (\<forall>k. pid_cache s (pid_cache_hash k) = []) \<and> (\<forall>k. owner_cache s (owner_key_hash k) = []) \<and>
     logged_connections s = [] \<and> g_pidtbl_cap s = 0"

lemma clear_state_ok:
  assumes "pkt_inv s"
  shows "pkt_inv (clear_state s)" and "forgotten (clear_state s)" and "running (clear_state s) = running s"
    and "rules_list (clear_state s) = rules_list s" and "g_proxy_configs (clear_state s) = g_proxy_configs s"
proof -
  have c: "conn_inv s" using assms by (simp add: pkt_inv_def)
  note fc = free_connections_eq [OF c]
  note cs = clear_state_def clear_owner_event_cache_def clear_pid_cache_def clear_logged_connections_def fc
  have p: "\<not> port_is_decided (clear_state s) q" "\<not> port_is_direct (clear_state s) q" for q by (simp_all add: clear_state_def)
  have "conn_inv (clear_state s)" "dns_inv (clear_state s)"
    using assms by (simp_all add: cs clear_port_decisions_def conn_inv_def tables_ok_def pkt_inv_def dns_inv_def)
  then show "pkt_inv (clear_state s)" using p by (simp add: pkt_inv_def ports_inv_def)
  have h: "conn_heap (clear_state s) = Map.empty" "connection_hash_table (clear_state s) = (\<lambda>_. [])"
    by (simp_all add: cs clear_port_decisions_def)
  have "connection_of (clear_state s) k = None" for k
    by (cases k) (simp add: connection_of_def find_conn_def h split: option.split)
  moreover have "pid_cache (clear_state s) (pid_cache_hash k) = []" for k
    by (cases k) (simp add: cs clear_port_decisions_def pid_cache_hash_def)
  moreover have "owner_cache (clear_state s) (owner_key_hash k) = []" for k
    by (cases k) (simp add: cs clear_port_decisions_def owner_key_hash_def owner_cache_hash_def)
  moreover have "logged_connections (clear_state s) = []" "g_pidtbl_cap (clear_state s) = 0"
    by (simp_all add: cs clear_port_decisions_def)
  ultimately show "forgotten (clear_state s)" using p h by (simp add: forgotten_def)
  show "running (clear_state s) = running s" "rules_list (clear_state s) = rules_list s" "g_proxy_configs (clear_state s) = g_proxy_configs s"
    by (simp_all add: cs clear_port_decisions_def)
qed

lemma close_slot_relays:
  "close_slot sl L = Inr L' \<Longrightarrow> pool (relays_of L') = pool (relays_of L) \<and> set (closings L) \<subseteq> set (closings L')"
  by (auto simp: close_slot_def event_state_gate split: option.splits if_splits)

lemma stop_ok:
  assumes "started X L" and "fair X sv"
  obtains L' where "ProxyBridge_Stop sv L = Some (Inr (True, L'))" and "idle X L'" and "forgotten (core L')"
    and "rules_list (core L') = rules_list (core L)" and "\<not> g_iocp (pool (relays_of L'))"
    and "(Owner_Update, alive_threads L - {T_Owner_Socket, T_Owner_Flow}) \<in> set (closings L')"
proof -
  have l: "ledger_ok X L" "running (core L)" "handles L Owner_Update \<noteq> None" using assms(1) by (simp_all add: started_def)
  obtain L1 L2 where L: "request_runtime_stop sv L = Inr L1" "wait_for_runtime_workers sv L1 = Some (Inr L2)" "ledger_ok X L2"
      "moved (owner_slots \<union> worker_slots) (set_running False L) L2" "alive_threads L2 = {}" "inside (gate_of L2) = {}"
      "\<not> g_iocp (pool (relays_of L2))"
      "handles L Owner_Update \<noteq> None \<longrightarrow> (Owner_Update, alive_threads L - {T_Owner_Socket, T_Owner_Flow}) \<in> set (closings L2)"
    by (rule runtime_stop_ok [OF l(1) assms(2)])
  let ?L = "on_core clear_state L2"
  have p: "pkt_inv (core L2)" using L(3) by (simp add: ledger_ok_def)
  note c = clear_state_ok [OF p]
  have l3: "ledger_ok X ?L" unfolding on_core_def by (rule ledger_core [OF L(3) c(1,3)])
  have m: "moved (owner_slots \<union> worker_slots) (set_running False L) ?L" using L(4) c(3,4) by (simp add: moved_def on_core_def)
  obtain L3 where L3: "close_lifecycle_events ?L = Inr L3" "idle X L3" "moved UNIV (set_running False L) L3"
    by (rule close_all_ok [OF l(1) l3 m]) (use L(5,6) in \<open>simp_all add: on_core_def\<close>)
  have core: "core L3 = clear_state (core L2)" using close_lifecycle_events_core [OF L3(1)] by (simp add: on_core_def)
  have "ProxyBridge_Stop sv L = Some (Inr (True, L3))" using l(2) L(1,2) L3(1) by (simp add: ProxyBridge_Stop_def)
  moreover have "\<not> g_iocp (pool (relays_of L3))" "set (closings L2) \<subseteq> set (closings L3)"
    using L3(1) L(7) by (auto simp: close_lifecycle_events_def and_then_Inr on_core_def dest!: close_slot_relays) blast
  moreover have "rules_list (core L3) = rules_list (core L)" using core c(4) L(4) by (simp add: moved_def set_running_def)
  ultimately show ?thesis using that [of L3] L3(2) core c(2) L(8) l(3) by (simp add: subset_iff)
qed

section \<open>The threads are bystanders\<close>

definition same_policy :: "pb \<Rightarrow> pb \<Rightarrow> bool" where
  "same_policy s s' \<longleftrightarrow> running s' = running s \<and> rules_list s' = rules_list s"

lemma same_policy_preorder [simp]: "reflp same_policy" "transp same_policy" "same_policy s s"
  by (auto intro!: reflpI transpI simp: same_policy_def)

text \<open>What the ledger asks of a thread that works on the core alone.\<close>

locale core_thread =
  fixes work :: "pb \<Rightarrow> pb"
  assumes keeps_inv: "pkt_inv s \<Longrightarrow> pkt_inv (work s)"
    and keeps_policy: "same_policy s (work s)"
begin

lemma is_bystander: "bystander X (on_core work)"
  unfolding bystander_def
proof (intro allI impI conjI)
  fix L assume l: "ledger_ok X L"
  show "ledger_ok X (on_core work L)"
    unfolding on_core_def using l keeps_inv keeps_policy by (intro ledger_core [OF l]) (simp_all add: ledger_ok_def same_policy_def)
  show "moved {} L (on_core work L)" using keeps_policy by (simp add: on_core_def moved_def same_policy_def)
qed

end

lemma same_policy_owner_event: "same_policy s (snd (owner_event hton6 alloc now wa s))"
proof -
  have o: "same_policy s (s'\<lparr>owner_cache := x\<rparr>) = same_policy s s'" for s s' x by (simp add: same_policy_def)
  have "same_policy s (forget_owner_entry e s)" for e s
    by (simp add: forget_owner_entry_def invalidate_udp_decisions_def Let_def same_policy_def)
  then have "same_policy s (fold forget_owner_entry es s)" for es s by (simp add: fold_frame [where R = same_policy])
  then have "same_policy s (remove_owner_event_endpoint ep layer s)" for ep layer s
    unfolding remove_owner_event_endpoint_def by (intro fold_frame [where R = same_policy]) (simp_all add: o)
  then show ?thesis by (simp add: owner_event_def cache_owner_event_def invalidate_udp_decisions_def Let_def) (simp add: same_policy_def)
qed

interpretation owner: core_thread "\<lambda>s. snd (owner_event hton6 alloc now wa s)" for hton6 alloc now wa
  by unfold_locales (auto intro: pkt_inv_core same_core_owner_event same_policy_owner_event)

lemma same_policy_cleanup: "same_policy s (cleanup_pass r s)"
proof -
  have "same_policy s (drop_connection i a s)" for i a s
    by (simp add: drop_connection_def rev_unlink_def write_conn_def same_policy_def Let_def)
  then have "same_policy s (sweep_bucket now i s)" for now i s
    unfolding sweep_bucket_def by (intro fold_frame [where R = same_policy]) simp_all
  then have "same_policy s (fold (sweep_bucket now) is s)" for now "is" by (simp add: fold_frame [where R = same_policy])
  then show ?thesis
    by (simp add: cleanup_pass_def cleanup_stale_connections_def cleanup_stale_dns_cache_def cleanup_stale_owner_cache_def
        cleanup_stale_pid_cache_def Let_def same_policy_def)
qed

interpretation cleanup: core_thread "cleanup_pass r" for r
  by unfold_locales (simp_all add: same_policy_cleanup pkt_inv_cleanup)

text \<open>A step of the relays, and a step at the gate.\<close>

lemma ledger_relay_step:
  "ledger_ok X L \<Longrightarrow> relays_step (relays_of L) r \<Longrightarrow> shutdown_event r = shutdown_event (relays_of L) \<Longrightarrow> ledger_ok X (L\<lparr>relays_of := r\<rparr>)"
  using relays_step_ok by (intro ledger_relays) (auto simp: ledger_ok_def)

lemma ledger_gate_step:
  assumes "ledger_ok X L" and "gate_step False (gate_of L) g" and "gate_running g = gate_running (gate_of L)"
    and "handles L Workers_Done \<noteq> None" and "handles L T_Proxy \<noteq> None \<or> no_listener g"
  shows "ledger_ok X (L\<lparr>gate_of := g\<rparr>)"
proof -
  have "gate_ok (gate_of L)" "event_exact (gate_of L)" using ledger_gate [OF assms(1)] assms(4) by (simp_all add: gate_fine_def)
  then have "gate_ok g" "event_exact g" using gate_step_ok event_exact_step assms(2) by blast+
  then have "gate_fine (handles L T_Proxy \<noteq> None) (handles L Workers_Done \<noteq> None) g" using assms(4,5) by (auto simp: gate_fine_def)
  then show ?thesis using assms(1,3) by (simp add: ledger_ok_def slots_ok_def)
qed

section \<open>Properties\<close>

text \<open>C11. A start is all or nothing, and always returns: either the bridge runs and has every handle it needs, or it does not run,
  no thread of it is left and every handle it opened has been closed, exactly once, whichever call failed.\<close>

theorem start_all_or_nothing:
  assumes "idle X L" and "fresh_handles X se" and "\<forall>sl. bystander X (se_others se sl)" and "fair X (se_stop se)"
  shows "\<exists>ok L'. ProxyBridge_Start se L = Some (Inr (ok, L')) \<and> rules_list (core L') = rules_list (core L) \<and>
     (if ok then started X L' \<and> alive_threads L' \<supseteq> threads - {T_Udp}
      else \<not> running (core L') \<and> alive_threads L' = {} \<and> sys_handles L' = X \<and> (\<forall>sl. handles L' sl = None))"
proof -
  obtain ok L' where r: "ProxyBridge_Start se L = Some (Inr (ok, L'))" "if ok then started X L' else idle X L'"
      "rules_list (core L') = rules_list (core L)"
    by (rule start_ok [OF assms(1,2) _ assms(4)]) (use assms(3) in simp)
  have "alive_threads L' \<supseteq> threads - {T_Udp}" if ok
    using r(2) that ledger_alive [of X L'] by (auto simp: started_def)
  moreover have "sys_handles L' = X \<and> alive_threads L' = {}" if "\<not> ok"
    using r(2) that ledger_alive [of X L'] by (auto simp: idle_def ledger_ok_def slots_ok_def ran_def)
  ultimately show ?thesis using r by (auto simp: idle_def)
qed


text \<open>C22. The exception: the event on which the packet thread waits for owners is closed while that thread is alive.\<close>

theorem stop_closes_event_in_use:
  assumes "started X L" and "fair X sv"
  shows "\<exists>L' A. ProxyBridge_Stop sv L = Some (Inr (True, L')) \<and> (Owner_Update, A) \<in> set (closings L') \<and> T_Packet \<in> A"
proof -
  obtain L' where r: "ProxyBridge_Stop sv L = Some (Inr (True, L'))"
      "(Owner_Update, alive_threads L - {T_Owner_Socket, T_Owner_Flow}) \<in> set (closings L')"
    by (rule stop_ok [OF assms])
  have "T_Packet \<in> alive_threads L" using assms(1) ledger_alive [of X L] by (auto simp: started_def threads_def)
  then show ?thesis using r by blast
qed

text \<open>Calls of the interface in any order, with other threads acting while the bridge runs.\<close>

inductive api_step :: "nat set \<Rightarrow> life \<Rightarrow> life \<Rightarrow> bool" for X where
  start: "fresh_handles X se \<Longrightarrow> \<forall>sl. bystander X (se_others se sl) \<Longrightarrow> fair X (se_stop se) \<Longrightarrow>
     ProxyBridge_Start se L = Some (Inr (ok, L')) \<Longrightarrow> api_step X L L'"
| stop: "fair X sv \<Longrightarrow> ProxyBridge_Stop sv L = Some (Inr (ok, L')) \<Longrightarrow> api_step X L L'"
| others: "bystander X f \<Longrightarrow> running (core L) \<Longrightarrow> api_step X L (f L)"

lemma api_step_ok:
  assumes "api_step X L L'" and "idle X L \<or> started X L"
  shows "idle X L' \<or> started X L'"
  using assms
proof cases
  case (start se ok)
  show ?thesis
  proof (cases "running (core L)")
    case True
    then show ?thesis using start(4) assms(2) by (simp add: ProxyBridge_Start_def)
  next
    case False
    then have i: "idle X L" using assms(2) by (simp add: started_def)
    obtain ok' L1 where "ProxyBridge_Start se L = Some (Inr (ok', L1))" "if ok' then started X L1 else idle X L1"
      by (rule start_ok [OF i start(1) _ start(3)]) (use start(2) in simp)
    then show ?thesis using start(4) by (auto split: if_splits)
  qed
next
  case (stop sv ok)
  show ?thesis
  proof (cases "running (core L)")
    case True
    then have i: "started X L" using assms(2) by (simp add: idle_def)
    obtain L1 where "ProxyBridge_Stop sv L = Some (Inr (True, L1))" "idle X L1" by (rule stop_ok [OF i stop(1)])
    then show ?thesis using stop(2) by simp
  next
    case False
    then show ?thesis using stop(2) assms(2) by (simp add: ProxyBridge_Stop_def)
  qed
next
  case (others f)
  then have "started X L" using assms(2) by (simp add: idle_def)
  then show ?thesis using others by (simp add: bystander_def started_def moved_def)
qed

lemma idle_init: "idle X (life_init\<lparr>sys_handles := X\<rparr>)"
  by (simp add: idle_def ledger_ok_def slots_ok_def life_init_def pkt_inv_init pairs_ok_init gate_fine_def no_listener_def inside_def
      relays_init_def [THEN arg_cong [where f = shutdown_event]]) (simp add: relays_init_def pb_init_def)


text \<open>Unloading the library stops a running bridge first, closes the control and the data socket of every UDP association, and
  frees the rules.\<close>

theorem detach_releases:
  assumes "idle X L \<or> started X L" and "fair X sv"
  shows "\<exists>closed L'. dll_detach sv L = Some (Inr (closed, L')) \<and> \<not> running (core L') \<and> sys_handles L' = X \<and>
     rules_list (core L') = [] \<and> (\<forall>cfg \<in> set (g_proxy_configs (core L')). open_handles cfg = [])"
proof -
  obtain ok L1 where r: "(if running (core L) then ProxyBridge_Stop sv L else Some (Inr (False, L))) = Some (Inr (ok, L1))" "idle X L1"
  proof (cases "running (core L)")
    case True
    then have i: "started X L" using assms(1) by (simp add: idle_def)
    obtain L1 where "ProxyBridge_Stop sv L = Some (Inr (True, L1))" "idle X L1" by (rule stop_ok [OF i assms(2)])
    then show thesis using that [of True L1] True by simp
  next
    case False
    then show thesis using that [of False L] assms(1) by (simp add: started_def)
  qed
  have "sys_handles L1 = X" using r(2) by (auto simp: idle_def ledger_ok_def slots_ok_def ran_def)
  then show ?thesis using r by (auto simp: dll_detach_def Let_def idle_def open_handles_def)
qed

section \<open>Witnesses\<close>

fun slot_number :: "slot \<Rightarrow> nat" where
  "slot_number Shutdown = 100" | "slot_number Proxy_Ready = 101" | "slot_number Udp_Ready = 102" | "slot_number Workers_Done = 103"
| "slot_number Owner_Update = 104" | "slot_number Owner_Socket = 105" | "slot_number Owner_Flow = 106" | "slot_number Windivert = 107"
| "slot_number T_Owner_Socket = 108" | "slot_number T_Owner_Flow = 109" | "slot_number T_Proxy = 110" | "slot_number T_Udp = 111"
| "slot_number T_Cleanup = 112" | "slot_number T_Packet = 113"

text \<open>Whoever is inside the gate leaves; the system cancels the outstanding requests of the listed relays.\<close>

definition everybody_leaves :: "life \<Rightarrow> life" where
  "everybody_leaves L = L\<lparr>gate_of := (gate_of L)\<lparr>phase_of := (\<lambda>_. Outside), active_connection_workers := 0,
     connection_workers_done_event := map_option (\<lambda>_. True) (connection_workers_done_event (gate_of L))\<rparr>\<rparr>"

definition cancel_all :: "relay_pool \<Rightarrow> (io_answer \<times> completion \<times> addr \<times> side) list" where
  "cancel_all pl = concat (map (\<lambda>a. map (\<lambda>x. (pending_answer, aborted, a, x)) (filter (\<lambda>x. (a, x) \<in> sys_pending pl) [Upload, Download]))
     (g_relay_head pl))"

definition sample_stop :: stop_env where
  "sample_stop = \<lparr>sv_wait = (\<lambda>_. everybody_leaves), sv_workers = [everybody_leaves], sv_completions = cancel_all\<rparr>"

text \<open>A start in which every call succeeds but, perhaps, the one for a slot.\<close>

definition sample_begin :: "slot option \<Rightarrow> start_env" where
  "sample_begin failing = \<lparr>se_os = sample_os, se_handle = (\<lambda>sl. if failing = Some sl then None else Some (slot_number sl)),
     se_pool = sample_system, se_proxy_signalled = True, se_proxy_status = 1, se_udp_signalled = True, se_udp_status = 1,
     se_others = (\<lambda>_. id), se_stop = sample_stop\<rparr>"

lemma slot_number_inj: "slot_number sl = slot_number sl' \<Longrightarrow> sl = sl'"
  by (cases sl; cases sl'; simp)

lemma bystander_leaves: "bystander X everybody_leaves"
  by (auto simp: bystander_def moved_def everybody_leaves_def ledger_ok_def slots_ok_def gate_fine_def no_listener_def gate_ok_def
      event_exact_def inside_def settling_def)

lemma cancels_all: "cancels cancel_all"
proof -
  have "list_all cancelled (cancel_all pl) \<and> distinct (map request_of (cancel_all pl)) \<and> request_of ` set (cancel_all pl) = sys_pending pl"
    if "pool_ok {} pl" for pl
  proof (intro conjI)
    have l: "distinct (g_relay_head pl)" "set (g_relay_head pl) = dom (relay_heap pl)" and c: "conns_ok {} pl"
      using that by (simp_all add: pool_ok_def list_ok_def)
    show "list_all cancelled (cancel_all pl)" by (auto simp: cancel_all_def list_all_iff cancelled_def aborted_def)
    have "map request_of (cancel_all pl) = concat (map (\<lambda>a. map (Pair a) (filter (\<lambda>x. (a, x) \<in> sys_pending pl) [Upload, Download])) (g_relay_head pl))"
      by (simp add: cancel_all_def map_concat request_of_def comp_def)
    moreover have "distinct (concat (map (\<lambda>a. map (Pair a) (filter (\<lambda>x. (a, x) \<in> P) [Upload, Download])) as))" if "distinct as" for P and as :: "addr list"
      using that by (induction as) auto
    ultimately show "distinct (map request_of (cancel_all pl))" using l(1) by simp
    show "request_of ` set (cancel_all pl) = sys_pending pl"
    proof (intro set_eqI iffI)
      fix r assume "r \<in> request_of ` set (cancel_all pl)"
      then show "r \<in> sys_pending pl" by (auto simp: cancel_all_def request_of_def split: if_splits)
    next
      fix r assume r: "r \<in> sys_pending pl"
      obtain a x where ax: "r = (a, x)" by force
      have "a \<in> set (g_relay_head pl)" using conns_ok_pending(1) [OF c, of a x] r ax l(2) by auto
      then have "(pending_answer, aborted, a, x) \<in> set (cancel_all pl)"
        using r ax by (cases x) (auto simp: cancel_all_def intro!: bexI [of _ a])
      then show "r \<in> request_of ` set (cancel_all pl)" by (force simp: ax request_of_def)
    qed
  qed
  then show ?thesis by (simp add: cancels_def)
qed

lemma sample_fair: "fair X sample_stop"
  by (simp add: fair_def sample_stop_def bystander_leaves cancels_all) (simp add: everybody_leaves_def no_listener_def)

lemma sample_fresh: "X \<inter> range slot_number = {} \<Longrightarrow> fresh_handles X (sample_begin failing)"
  by (auto simp: fresh_handles_def sample_begin_def inj_on_def ran_def dom_def slot_number_inj split: if_splits)

lemma sample_others: "bystander X (se_others (sample_begin failing) sl)"
  by (simp add: bystander_def sample_begin_def)

text \<open>A running bridge.\<close>

definition sample_life :: life where
  "sample_life = life_init\<lparr>core := pb_init\<lparr>running := True\<rparr>, relays_of := relays_init\<lparr>shutdown_event := Some False\<rparr>, gate_of := gate_init,
     handles := (\<lambda>sl. Some (slot_number sl)), sys_handles := range slot_number, alive_threads := threads\<rparr>"

lemma sample_life_started: "started {} sample_life"
proof -
  have "slots_ok {} sample_life"
    by (auto simp: slots_ok_def sample_life_def life_init_def inj_on_def ran_def slot_number_inj)
  moreover have "gate_fine True True gate_init"
    by (simp add: gate_fine_def gate_init_ok) (simp add: event_exact_def gate_init_def settling_def)
  ultimately show ?thesis
    by (simp add: started_def ledger_ok_def sample_life_def pkt_inv_init pairs_ok_init dom_def) (simp add: gate_init_def)
qed

lemma sample_idle: "idle {7} (life_init\<lparr>sys_handles := {7}\<rparr>)"
  by (rule idle_init)

lemma seven_fresh: "{7} \<inter> range slot_number = {}"
proof -
  have "slot_number sl \<noteq> 7" for sl by (cases sl) simp_all
  then show ?thesis by (auto dest: sym)
qed

theorem start_all_or_nothing_witness:
  "\<exists>ok L'. ProxyBridge_Start (sample_begin (Some Windivert)) (life_init\<lparr>sys_handles := {7}\<rparr>) = Some (Inr (ok, L')) \<and>
     (if ok then running (core L') else sys_handles L' = {7} \<and> alive_threads L' = {})"
proof -
  have "fair {7} (se_stop (sample_begin (Some Windivert)))" using sample_fair by (simp add: sample_begin_def)
  then show ?thesis
    using start_all_or_nothing [OF sample_idle sample_fresh [OF seven_fresh], of "Some Windivert"] sample_others [of "{7}" "Some Windivert"]
    by (auto simp: started_def split: if_splits)
qed


theorem stop_closes_event_in_use_witness:
  "\<exists>L' A. ProxyBridge_Stop sample_stop sample_life = Some (Inr (True, L')) \<and> (Owner_Update, A) \<in> set (closings L') \<and> T_Packet \<in> A"
  by (rule stop_closes_event_in_use [OF sample_life_started sample_fair])

theorem detach_releases_witness:
  "\<exists>closed L'. dll_detach sample_stop sample_life = Some (Inr (closed, L')) \<and> \<not> running (core L') \<and> sys_handles L' = {}"
  using detach_releases [OF disjI2 [OF sample_life_started] sample_fair] by blast


end
