(* ===== verification/Spec2Isabelle.thy ===== *)
theory Spec2Isabelle
  imports PB_Ledger
begin

text \<open>
  ProxyBridge, the Windows routing core (\<open>src/Windows/src\<close>).

  \<^bold>\<open>The program.\<close> A capture driver hands the packets of the machine to one packet thread. For each new connection the
  thread finds the owning process, searches the rules, and lets the packet out, drops it, or rewrites it so that it reaches
  a relay of the bridge, which carries the connection through a SOCKS5 or HTTP proxy; answers of the relay are rewritten
  so that the application sees the destination it asked for. Two observers learn which process opens which socket, DNS answers
  are read in passing so that rules can name domains, a cleanup thread removes what is stale, and an embedding program
  manages rules, proxies and switches and starts and stops the whole.

  \<^bold>\<open>The theories\<close>, each after the ones it uses; names of functions and structures are those of the sources.

  \<^item> \<open>PB_Prelude\<close>: integer and byte types, chains, chained hash tables, C strings, faults; the locale \<open>timed_cache\<close>.
  \<^item> \<open>PB_Internal\<close> (\<open>pb_internal.h\<close>, \<open>ProxyBridge.h\<close>, the globals of \<open>ProxyBridge.c\<close>): the structures, the record \<open>pb\<close> of the
    global variables, the bitmaps of decisions for ports; the locale \<open>port_cache\<close>.
  \<^item> \<open>PB_Util\<close> (\<open>pb_util.c\<close>): text and address helpers, token lists, socket loops and options.
  \<^item> \<open>PB_Match\<close> (\<open>pb_rules.c\<close>): the pattern matchers, against a declarative \<open>glob\<close> and prefix lengths.
  \<^item> \<open>PB_Dns\<close> (\<open>pb_dns.c\<close>): the response parser over a bounded buffer, against an inductive reading of a message, and both caches.
  \<^item> \<open>PB_Conntrack\<close> (\<open>pb_conntrack.c\<close>): flows as nodes of a heap shared by two tables; the locale \<open>flow_table\<close>, and the step
    relation \<open>conn_step\<close> with its invariant.
  \<^item> \<open>PB_Process\<close> (\<open>pb_process.c\<close>): owner tables of the system, the cache of process identifiers, owner events.
  \<^item> \<open>PB_Proxy\<close> (\<open>pb_proxy.c\<close>) and \<open>PB_Rules\<close> (\<open>pb_rules.c\<close>): the stores of proxies and rules, the search for the rule that
    decides, owner resolution with its bounded wait, the verdict.
  \<^item> \<open>PB_Socks5\<close> (\<open>pb_socks5.c\<close>) and \<open>PB_Http\<close> (\<open>pb_http.c\<close>, the tests of \<open>pb_proxy.c\<close>): the conversations with a proxy; the locale
    \<open>connect_command\<close>.
  \<^item> \<open>PB_Packet\<close> and \<open>PB_Translate\<close> (\<open>ProxyBridge.c\<close>): every branch of \<open>packet_processor\<close>, and what it does to whole
    connections; the locale \<open>tcp_family\<close>.
  \<^item> \<open>PB_Iocp\<close> and \<open>PB_Pipes\<close> (\<open>pb_relay.c\<close>): the relay pool on a completion port, and its refinement of a pair of pipes.
  \<^item> \<open>PB_Blocking\<close>, \<open>PB_Workers\<close>, \<open>PB_Listener\<close>, \<open>PB_Udp_Relay\<close> (\<open>pb_relay.c\<close>): the blocking relay, the gate that counts connection
    workers, the listener and the worker, the UDP relay.
  \<^item> \<open>PB_Control\<close> (\<open>ProxyBridge.c\<close>): the switches, the owner observers, the cleanup thread.
  \<^item> \<open>PB_Lifecycle\<close> and \<open>PB_Ledger\<close> (\<open>ProxyBridge.c\<close>): \<open>ProxyBridge_Start\<close>, \<open>ProxyBridge_Stop\<close>, \<open>DllMain\<close> and the filter of the driver;
    the ledger of handles they keep; the locale \<open>core_thread\<close>.

  \<^bold>\<open>How code becomes definitions.\<close> A function of the source is a function on the record of the globals; a fallible read or
  write, a use of freed memory and a second closing of a handle are values of \<open>fault\<close>. What the system answers (allocations, clocks,
  socket calls, driver calls, owner tables, name resolution) is an argument. A loop over a list is recursion on it; a loop that
  waits takes the list of what happens meanwhile and returns \<open>None\<close> while it is still waiting, and the theorems say when it returns.
  Operations that hold a lock are one step; where threads interleave in the middle of an operation (the gate of the
  workers, the relays, the waits of starting and stopping) the steps are a relation or a parameter. Words have the
  width of the source, so that ticks, generations and hashes wrap around.

  \<^bold>\<open>What is shown.\<close> Rules: the search equals the first match of a declarative reading, a rule that says proxy never lets a
  packet out directly, the lists keep their shape. Packets: a fresh connection is judged by the rules in force, reaches the worker
  with the destination the application asked for, and its answers come back under that name; a change of policy applies to
  existing flows. Tables: reachable states of the flow table are consistent, DNS names found are those the messages carry.
  Proxies: a tunnel is reported exactly when the proxy granted it, and exactly the reply is consumed. Relays: no freed memory or
  closed socket is used in any interleaving, bytes arrive unchanged and in order, stopping drains. Life cycle: no handle is lost or
  closed twice, a failed start undoes itself, a stop leaves nothing behind. Where the code does less than it means to, a theorem
  says so: the event a worker may set too late, the event closed while the packet thread can wait on it, moving the only rule of
  a list, the second closing of a test's socket, the head of a response in two segments, DHCPv6 in the filter.

  \<^bold>\<open>Bounds and fuel.\<close> The doubling loop of \<open>pidtbl_reserve\<close> has fuel for 33 rounds, which suffice from any capacity above 0 because
  capacities are 32 bits wide. No other function has fuel: \<open>dns_parse_name\<close> follows at most ten pointers, as the source does, and
  ends because between two of them it moves forward in the message.

  \<^bold>\<open>Not modelled.\<close> The capture driver, Windows and Winsock, which are parameters; the log callback and the texts of log lines
  that no decision depends on; checksums, which the driver computes; weak memory, so a read of a variable sees the last write;
  the macOS extension, a separate program in Swift; the test programs. Locks are assumed to exclude, and two places where the
  source releases one too early are listed as findings instead.
\<close>

section \<open>Nothing of one run is seen by the next\<close>

text \<open>C13. A stopped bridge that is started again begins with no flow, no decision for a port, no name read from DNS and no
  remembered direct UDP flow, with the rules it had.\<close>

theorem restart_forgets:
  assumes "started X L" and "fair X sv"
  shows "\<exists>L'. ProxyBridge_Stop sv L = Some (Inr (True, L')) \<and>
     (let s = prepare_start os (core L') in
        pkt_inv s \<and> rules_list s = rules_list (core L) \<and> (\<forall>k. connection_of s k = None) \<and>
        (\<forall>p teardown. \<not> fst (consume_direct_decision p teardown s)) \<and>
        (\<forall>ip size now. dns_cache_lookup s ip size now = None) \<and> (\<forall>ip6 size now. dns_cache_lookup_v6 s ip6 size now = None) \<and>
        ((\<forall>i. ud_generation (udp_direct_entries (core L') i) \<noteq> g_udp_generation (core L') + 1) \<longrightarrow>
          (\<forall>v6 src sport dst dport now. \<not> udp_direct_cached v6 src sport dst dport now s)))"
proof -
  obtain L' where r: "ProxyBridge_Stop sv L = Some (Inr (True, L'))" "idle X L'" "forgotten (core L')"
      "rules_list (core L') = rules_list (core L)"
    by (rule stop_ok [OF assms])
  let ?s = "prepare_start os (core L')"
  have i: "pkt_inv ?s" using r(2) pkt_inv_prepare(1) by (simp add: idle_def ledger_ok_def)
  note ps = prepare_start_def dns_cache_init_def invalidate_udp_decisions_def flush_dns_resolver_cache_def Let_def
  have "same_flows (core L') ?s" "same_ports (core L') ?s" by (simp_all add: ps same_flows_def same_ports_def)
  then have f: "\<forall>k. connection_of ?s k = None" "\<forall>p teardown. \<not> fst (consume_direct_decision p teardown ?s)"
    using r(3) by (simp_all add: forgotten_def same_flowsD same_portsD consume_direct_decision_def)
  have d: "\<forall>ip size now. dns_cache_lookup ?s ip size now = None" "\<forall>ip6 size now. dns_cache_lookup_v6 ?s ip6 size now = None"
    by (simp_all add: dns_cache_lookup_def dns_cache_lookup_v6_def ps empty_table_def)
  have "\<not> udp_direct_cached v6 src sport dst dport now ?s"
    if "\<forall>i. ud_generation (udp_direct_entries (core L') i) \<noteq> g_udp_generation (core L') + 1" for v6 src sport dst dport now
    using that by (simp add: udp_direct_cached_def ps)
  then show ?thesis using r(1,4) i f d by (simp add: Let_def)
qed

theorem restart_forgets_witness:
  "\<exists>L'. ProxyBridge_Stop sample_stop sample_life = Some (Inr (True, L')) \<and>
     (\<forall>p. \<not> fst (consume_direct_decision p False (prepare_start sample_os (core L'))))"
  using restart_forgets [OF sample_life_started sample_fair, of sample_os] by (auto simp: Let_def)

end
